theory Spec2Isabelle
  imports Main "HOL-Library.Word" "HOL-Library.Multiset" "HOL-Library.Monad_Syntax"
    "HOL-Library.Countable"
begin

unbundle bit_operations_syntax

section \<open>Exceptions (Exceptions.h)\<close>

text \<open>
  The exception classes declared with \<^verbatim>\<open>DECLARE_EXCEPTION\<close>. An operation that can throw
  returns \<open>exn + 'r\<close>. Operations that work on the node heap return an \<open>option\<close> on top:
  \<open>None\<close> stands for a call that neither returns nor throws (a failed \<^verbatim>\<open>assert\<close>, the
  dereference of a pointer to no allocated node, a read past the end of the input, or a
  recursion that never ends).
\<close>

datatype exn =
    EmptyStackException | FullStackException | EmptyQueueException | EmptyDequeException
  | EmptyListException | InvalidAccessException | EmptyTreeException | BadKeyException

section \<open>BinTree.h: binary tree with manual reference counting\<close>

subsection \<open>Nodes and the heap\<close>

text \<open>
  \<^verbatim>\<open>Node*\<close> is an optional address, \<^verbatim>\<open>nullptr\<close> being \<open>None\<close>. The heap maps the
  addresses of the allocated nodes to their fields; \<^verbatim>\<open>new\<close> hands out the address \<open>brk\<close>
  and moves it up, \<^verbatim>\<open>delete\<close> removes the address. The field \<^verbatim>\<open>int _refs\<close> is an
  unbounded integer: the model covers runs with fewer than \<open>2^31\<close> references to one node.
\<close>

type_synonym addr = nat
type_synonym ptr = "addr option"

record 'a Node =
  n_elem :: 'a
  n_left :: ptr
  n_right :: ptr
  n_refs :: int

record 'a heap =
  cells :: "addr \<rightharpoonup> 'a Node"
  brk :: addr

definition empty_heap :: "'a heap" where
  "empty_heap = \<lparr>cells = Map.empty, brk = 0\<rparr>"

text \<open>\<^verbatim>\<open>void addRef() { assert(_refs >= 0); _refs++; }\<close>\<close>

definition addRef :: "addr \<Rightarrow> 'a heap \<Rightarrow> 'a heap option" where
  "addRef a h =
     (case cells h a of
        None \<Rightarrow> None
      | Some nd \<Rightarrow>
          if n_refs nd \<ge> 0
          then Some (h\<lparr>cells := (cells h)(a \<mapsto> nd\<lparr>n_refs := n_refs nd + 1\<rparr>)\<rparr>)
          else None)"

text \<open>\<^verbatim>\<open>void rmRef() { assert(_refs > 0); _refs--; }\<close>\<close>

definition rmRef :: "addr \<Rightarrow> 'a heap \<Rightarrow> 'a heap option" where
  "rmRef a h =
     (case cells h a of
        None \<Rightarrow> None
      | Some nd \<Rightarrow>
          if n_refs nd > 0
          then Some (h\<lparr>cells := (cells h)(a \<mapsto> nd\<lparr>n_refs := n_refs nd - 1\<rparr>)\<rparr>)
          else None)"

text \<open>The recurring \<^verbatim>\<open>if (p != nullptr) p->addRef();\<close>\<close>

definition addRef_ptr :: "ptr \<Rightarrow> 'a heap \<Rightarrow> 'a heap option" where
  "addRef_ptr p h = (case p of None \<Rightarrow> Some h | Some a \<Rightarrow> addRef a h)"

text \<open>
  \<^verbatim>\<open>new Node(left, elem, right)\<close>: the node starts with \<^verbatim>\<open>_refs(0)\<close> and the constructor
  body adds a reference to each child that is not null.
\<close>

definition new_Node :: "ptr \<Rightarrow> 'a \<Rightarrow> ptr \<Rightarrow> 'a heap \<Rightarrow> (addr \<times> 'a heap) option" where
  "new_Node left e right h =
     do {
       let a = brk h;
       let h1 = h\<lparr>cells := (cells h)(a \<mapsto> \<lparr>n_elem = e, n_left = left, n_right = right, n_refs = 0\<rparr>),
                   brk := Suc a\<rparr>;
       h2 \<leftarrow> addRef_ptr left h1;
       h3 \<leftarrow> addRef_ptr right h2;
       Some (a, h3)
     }"

subsection \<open>Constructors, destructor, copy and assignment\<close>

text \<open>A \<^verbatim>\<open>BinTree\<close> object has the single field \<^verbatim>\<open>_root\<close>, so a handle is a \<open>ptr\<close>.\<close>

definition BinTree_empty :: ptr where
  "BinTree_empty = None"

definition BinTree_node :: "ptr \<Rightarrow> 'a \<Rightarrow> ptr \<Rightarrow> 'a heap \<Rightarrow> (ptr \<times> 'a heap) option" where
  "BinTree_node iz e dr h =
     do {
       (a, h1) \<leftarrow> new_Node iz e dr h;
       h2 \<leftarrow> addRef a h1;
       Some (Some a, h2)
     }"

definition BinTree_leaf :: "'a \<Rightarrow> 'a heap \<Rightarrow> (ptr \<times> 'a heap) option" where
  "BinTree_leaf e h =
     do {
       (a, h1) \<leftarrow> new_Node None e None h;
       h2 \<leftarrow> addRef a h1;
       Some (Some a, h2)
     }"

text \<open>The protected \<^verbatim>\<open>BinTree(Node *raiz)\<close>, which shares an existing node.\<close>

definition BinTree_from :: "ptr \<Rightarrow> 'a heap \<Rightarrow> (ptr \<times> 'a heap) option" where
  "BinTree_from raiz h = do { h1 \<leftarrow> addRef_ptr raiz h; Some (raiz, h1) }"

text \<open>
  \<^verbatim>\<open>static void free(Node *root)\<close>. The children are read from the node after the
  decrement, the right one after the left subtree has been released, as the source does.
\<close>

partial_function (option) free :: "ptr \<Rightarrow> 'a heap \<Rightarrow> 'a heap option" where
  "free root h =
     (case root of
        None \<Rightarrow> Some h
      | Some a \<Rightarrow>
          do {
            h1 \<leftarrow> rmRef a h;
            nd1 \<leftarrow> cells h1 a;
            if n_refs nd1 = 0 then
              do {
                h2 \<leftarrow> free (n_left nd1) h1;
                nd2 \<leftarrow> cells h2 a;
                h3 \<leftarrow> free (n_right nd2) h2;
                Some (h3\<lparr>cells := (cells h3)(a := None)\<rparr>)
              }
            else Some h1
          })"

text \<open>The destructor \<^verbatim>\<open>~BinTree()\<close>: \<^verbatim>\<open>free(); _root = nullptr;\<close> (the handle is gone after it).\<close>

definition destroy :: "ptr \<Rightarrow> 'a heap \<Rightarrow> 'a heap option" where
  "destroy t h = free t h"

text \<open>The copy constructor: \<^verbatim>\<open>_root = other._root; if (_root != nullptr) _root->addRef();\<close>\<close>

definition BinTree_copy :: "ptr \<Rightarrow> 'a heap \<Rightarrow> (ptr \<times> 'a heap) option" where
  "BinTree_copy other h = do { h1 \<leftarrow> addRef_ptr other h; Some (other, h1) }"

text \<open>
  \<^verbatim>\<open>operator=\<close>: \<open>same\<close> tells whether \<^verbatim>\<open>this == &other\<close> (the two handles are one object);
  the result is the new \<^verbatim>\<open>_root\<close> of \<^verbatim>\<open>*this\<close>.
\<close>

definition assign :: "bool \<Rightarrow> ptr \<Rightarrow> ptr \<Rightarrow> 'a heap \<Rightarrow> (ptr \<times> 'a heap) option" where
  "assign same this other h =
     (if same then Some (this, h)
      else do { h1 \<leftarrow> free this h; h2 \<leftarrow> addRef_ptr other h1; Some (other, h2) })"

subsection \<open>Observers\<close>

definition empty :: "ptr \<Rightarrow> bool" where
  "empty t = (t = None)"

definition elem :: "'a heap \<Rightarrow> ptr \<Rightarrow> (exn + 'a) option" where
  "elem h t =
     (case t of
        None \<Rightarrow> Some (Inl EmptyTreeException)
      | Some a \<Rightarrow> do { nd \<leftarrow> cells h a; Some (Inr (n_elem nd)) })"

text \<open>
  \<^verbatim>\<open>left()\<close> and \<^verbatim>\<open>right()\<close> build a new handle on the child, which adds a reference to it:
  they return the heap as well, also when they throw.
\<close>

definition left :: "ptr \<Rightarrow> 'a heap \<Rightarrow> ((exn + ptr) \<times> 'a heap) option" where
  "left t h =
     (case t of
        None \<Rightarrow> Some (Inl EmptyTreeException, h)
      | Some a \<Rightarrow>
          do {
            nd \<leftarrow> cells h a;
            (t', h1) \<leftarrow> BinTree_from (n_left nd) h;
            Some (Inr t', h1)
          })"

definition right :: "ptr \<Rightarrow> 'a heap \<Rightarrow> ((exn + ptr) \<times> 'a heap) option" where
  "right t h =
     (case t of
        None \<Rightarrow> Some (Inl EmptyTreeException, h)
      | Some a \<Rightarrow>
          do {
            nd \<leftarrow> cells h a;
            (t', h1) \<leftarrow> BinTree_from (n_right nd) h;
            Some (Inr t', h1)
          })"

subsection \<open>Traversals\<close>

text \<open>\<^verbatim>\<open>List<T>\<close> is a HOL list; \<^verbatim>\<open>push_back\<close> appends at the end.\<close>

partial_function (option) preOrderAux :: "'a heap \<Rightarrow> ptr \<Rightarrow> 'a list \<Rightarrow> 'a list option" where
  "preOrderAux h root acc =
     (case root of
        None \<Rightarrow> Some acc
      | Some a \<Rightarrow>
          do {
            nd \<leftarrow> cells h a;
            acc1 \<leftarrow> preOrderAux h (n_left nd) (acc @ [n_elem nd]);
            preOrderAux h (n_right nd) acc1
          })"

partial_function (option) inOrderAux :: "'a heap \<Rightarrow> ptr \<Rightarrow> 'a list \<Rightarrow> 'a list option" where
  "inOrderAux h root acc =
     (case root of
        None \<Rightarrow> Some acc
      | Some a \<Rightarrow>
          do {
            nd \<leftarrow> cells h a;
            acc1 \<leftarrow> inOrderAux h (n_left nd) acc;
            inOrderAux h (n_right nd) (acc1 @ [n_elem nd])
          })"

partial_function (option) postOrderAux :: "'a heap \<Rightarrow> ptr \<Rightarrow> 'a list \<Rightarrow> 'a list option" where
  "postOrderAux h root acc =
     (case root of
        None \<Rightarrow> Some acc
      | Some a \<Rightarrow>
          do {
            nd \<leftarrow> cells h a;
            acc1 \<leftarrow> postOrderAux h (n_left nd) acc;
            acc2 \<leftarrow> postOrderAux h (n_right nd) acc1;
            Some (acc2 @ [n_elem nd])
          })"

definition preOrder :: "'a heap \<Rightarrow> ptr \<Rightarrow> 'a list option" where
  "preOrder h t = preOrderAux h t []"

definition inOrder :: "'a heap \<Rightarrow> ptr \<Rightarrow> 'a list option" where
  "inOrder h t = inOrderAux h t []"

definition postOrder :: "'a heap \<Rightarrow> ptr \<Rightarrow> 'a list option" where
  "postOrder h t = postOrderAux h t []"

text \<open>The pointers that \<^verbatim>\<open>if (p != nullptr) pending.push_back(p)\<close> adds to the queue.\<close>

definition push_if :: "ptr \<Rightarrow> addr list" where
  "push_if p = (case p of None \<Rightarrow> [] | Some a \<Rightarrow> [a])"

text \<open>The \<^verbatim>\<open>while (!pending.empty())\<close> loop of \<^verbatim>\<open>levels()\<close>; the queue is a list, front first.\<close>

partial_function (option) levels_loop :: "'a heap \<Rightarrow> addr list \<Rightarrow> 'a list \<Rightarrow> 'a list option" where
  "levels_loop h pending ret =
     (case pending of
        [] \<Rightarrow> Some ret
      | current # rest \<Rightarrow>
          do {
            nd \<leftarrow> cells h current;
            levels_loop h (rest @ push_if (n_left nd) @ push_if (n_right nd)) (ret @ [n_elem nd])
          })"

definition levels :: "'a heap \<Rightarrow> ptr \<Rightarrow> 'a list option" where
  "levels h t = (case t of None \<Rightarrow> Some [] | Some a \<Rightarrow> levels_loop h [a] [])"

subsection \<open>Counts and comparison\<close>

text \<open>The results are \<^verbatim>\<open>unsigned int\<close>: 32-bit words, whose addition wraps.\<close>

partial_function (option) nodeCountAux :: "'a heap \<Rightarrow> ptr \<Rightarrow> 32 word option" where
  "nodeCountAux h root =
     (case root of
        None \<Rightarrow> Some 0
      | Some a \<Rightarrow>
          do {
            nd \<leftarrow> cells h a;
            l \<leftarrow> nodeCountAux h (n_left nd);
            r \<leftarrow> nodeCountAux h (n_right nd);
            Some (1 + l + r)
          })"

text \<open>
  \<^verbatim>\<open>depthAux\<close> stores the two depths in \<^verbatim>\<open>int\<close> variables and compares them as such:
  the comparison is the signed one.
\<close>

partial_function (option) depthAux :: "'a heap \<Rightarrow> ptr \<Rightarrow> 32 word option" where
  "depthAux h root =
     (case root of
        None \<Rightarrow> Some 0
      | Some a \<Rightarrow>
          do {
            nd \<leftarrow> cells h a;
            leftDepth \<leftarrow> depthAux h (n_left nd);
            rightDepth \<leftarrow> depthAux h (n_right nd);
            Some (if sint leftDepth > sint rightDepth then 1 + leftDepth else 1 + rightDepth)
          })"

partial_function (option) leafCountAux :: "'a heap \<Rightarrow> ptr \<Rightarrow> 32 word option" where
  "leafCountAux h root =
     (case root of
        None \<Rightarrow> Some 0
      | Some a \<Rightarrow>
          do {
            nd \<leftarrow> cells h a;
            if n_left nd = None \<and> n_right nd = None then Some 1
            else do {
              l \<leftarrow> leafCountAux h (n_left nd);
              r \<leftarrow> leafCountAux h (n_right nd);
              Some (l + r)
            }
          })"

definition nodeCount :: "'a heap \<Rightarrow> ptr \<Rightarrow> 32 word option" where
  "nodeCount h t = nodeCountAux h t"

definition depth :: "'a heap \<Rightarrow> ptr \<Rightarrow> 32 word option" where
  "depth h t = depthAux h t"

definition leafCount :: "'a heap \<Rightarrow> ptr \<Rightarrow> 32 word option" where
  "leafCount h t = leafCountAux h t"

text \<open>
  \<^verbatim>\<open>compareAux\<close>: equal pointers first, then one null pointer, then the elements and the
  children, with the short circuit of \<^verbatim>\<open>&&\<close>. \<^verbatim>\<open>operator==\<close> of the element type is HOL's
  equality.
\<close>

partial_function (option) compareAux :: "'a heap \<Rightarrow> ptr \<Rightarrow> ptr \<Rightarrow> bool option" where
  "compareAux h r1 r2 =
     (if r1 = r2 then Some True
      else
        (case r1 of
           None \<Rightarrow> Some False
         | Some a1 \<Rightarrow>
             (case r2 of
                None \<Rightarrow> Some False
              | Some a2 \<Rightarrow>
                  do {
                    n1 \<leftarrow> cells h a1;
                    n2 \<leftarrow> cells h a2;
                    if n_elem n1 = n_elem n2 then
                      do {
                        b \<leftarrow> compareAux h (n_left n1) (n_left n2);
                        if b then compareAux h (n_right n1) (n_right n2) else Some False
                      }
                    else Some False
                  })))"

definition equal :: "'a heap \<Rightarrow> ptr \<Rightarrow> ptr \<Rightarrow> bool option" where
  "equal h t rhs = compareAux h t rhs"

definition not_equal :: "'a heap \<Rightarrow> ptr \<Rightarrow> ptr \<Rightarrow> bool option" where
  "not_equal h t rhs = map_option Not (equal h t rhs)"

subsection \<open>Input builders\<close>

text \<open>
  \<^verbatim>\<open>std::cin\<close> is the list of the tokens still to be read. \<^verbatim>\<open>fromPreOrderInput\<close> reads
  elements only. The locals \<^verbatim>\<open>hi\<close> and \<^verbatim>\<open>hd\<close> are initialised in place from the calls'
  results and destroyed, \<^verbatim>\<open>hd\<close> first, once the returned tree has been built.
\<close>

partial_function (option) fromPreOrderInput ::
    "'a \<Rightarrow> 'a list \<Rightarrow> 'a heap \<Rightarrow> (ptr \<times> 'a list \<times> 'a heap) option" where
  "fromPreOrderInput emptyRep inp h =
     (case inp of
        [] \<Rightarrow> None
      | e # inp1 \<Rightarrow>
          if e = emptyRep then Some (BinTree_empty, inp1, h)
          else
            do {
              (hi, inp2, h2) \<leftarrow> fromPreOrderInput emptyRep inp1 h;
              (hd, inp3, h3) \<leftarrow> fromPreOrderInput emptyRep inp2 h2;
              (t, h4) \<leftarrow> BinTree_node hi e hd h3;
              h5 \<leftarrow> destroy hd h4;
              h6 \<leftarrow> destroy hi h5;
              Some (t, inp3, h6)
            })"

text \<open>
  \<^verbatim>\<open>fromInOrderInput\<close> reads single characters and elements: a token is one or the other.
  Reading a character where an element stands fails the \<^verbatim>\<open>assert\<close>, and reading an
  element where \<^verbatim>\<open>.\<close>, \<^verbatim>\<open>(\<close> or \<^verbatim>\<open>)\<close> stands is a failed extraction.
\<close>

datatype 'a token = Sym char | Val 'a

partial_function (option) fromInOrderInput ::
    "'a token list \<Rightarrow> 'a heap \<Rightarrow> (ptr \<times> 'a token list \<times> 'a heap) option" where
  "fromInOrderInput inp h =
     (case inp of
        Sym c # inp1 \<Rightarrow>
          if c = CHR ''.'' then Some (BinTree_empty, inp1, h)
          else if c \<noteq> CHR ''('' then None
          else
            do {
              (left, inp2, h2) \<leftarrow> fromInOrderInput inp1 h;
              (case inp2 of
                 Val e # inp3 \<Rightarrow>
                   do {
                     (right, inp4, h4) \<leftarrow> fromInOrderInput inp3 h2;
                     (case inp4 of
                        Sym c2 # inp5 \<Rightarrow>
                          if c2 \<noteq> CHR '')'' then None
                          else
                            do {
                              (result, h5) \<leftarrow> BinTree_node left e right h4;
                              h6 \<leftarrow> destroy right h5;
                              h7 \<leftarrow> destroy left h6;
                              Some (result, inp5, h7)
                            }
                      | _ \<Rightarrow> None)
                   }
               | _ \<Rightarrow> None)
            }
      | _ \<Rightarrow> None)"

section \<open>BinTree: observers of the empty tree\<close>

text \<open>
  C10. On the empty tree \<^verbatim>\<open>preOrder()\<close>, \<^verbatim>\<open>inOrder()\<close>, \<^verbatim>\<open>postOrder()\<close> and
  \<^verbatim>\<open>levels()\<close> return an empty list and \<^verbatim>\<open>nodeCount()\<close>, \<^verbatim>\<open>depth()\<close> and
  \<^verbatim>\<open>leafCount()\<close> return 0, whatever the heap holds; none of them throws or fails. Only
  \<^verbatim>\<open>elem()\<close>, \<^verbatim>\<open>left()\<close> and \<^verbatim>\<open>right()\<close> throw there.
\<close>

theorem empty_tree_observers:
  "preOrder h BinTree_empty = Some []
   \<and> inOrder h BinTree_empty = Some []
   \<and> postOrder h BinTree_empty = Some []
   \<and> levels h BinTree_empty = Some []
   \<and> nodeCount h BinTree_empty = Some 0
   \<and> depth h BinTree_empty = Some 0
   \<and> leafCount h BinTree_empty = Some 0
   \<and> elem h BinTree_empty = Some (Inl EmptyTreeException)
   \<and> left BinTree_empty h = Some (Inl EmptyTreeException, h)
   \<and> right BinTree_empty h = Some (Inl EmptyTreeException, h)"
  by (simp add: preOrder_def inOrder_def postOrder_def levels_def nodeCount_def depth_def
      leafCount_def BinTree_empty_def preOrderAux.simps inOrderAux.simps postOrderAux.simps
      nodeCountAux.simps depthAux.simps leafCountAux.simps elem_def left_def right_def)

section \<open>BinTree: the example of the pre-order builder\<close>

lemma fromPreOrderInput_example:
  "X \<notin> {1, 2, 3} \<Longrightarrow>
   fromPreOrderInput (X::int) [1, 2, X, X, 3, X, X] empty_heap =
     Some (Some 2, [],
       \<lparr>cells = [0 \<mapsto> \<lparr>n_elem = 2, n_left = None, n_right = None, n_refs = 1\<rparr>,
                 1 \<mapsto> \<lparr>n_elem = 3, n_left = None, n_right = None, n_refs = 1\<rparr>,
                 2 \<mapsto> \<lparr>n_elem = 1, n_left = Some 0, n_right = Some 1, n_refs = 1\<rparr>],
        brk = 3\<rparr>)"
  apply (simp add: fromPreOrderInput.simps empty_heap_def BinTree_empty_def BinTree_node_def
      new_Node_def addRef_ptr_def addRef_def destroy_def free.simps rmRef_def Let_def)
  apply (auto simp: fun_eq_iff)
  done

text \<open>
  C9. With a sentinel \<open>X\<close> other than 1, 2 and 3, the input \<^verbatim>\<open>1 2 X X 3 X X\<close> read into an
  empty heap is consumed whole and gives a tree with \<^verbatim>\<open>nodeCount() == 3\<close>,
  \<^verbatim>\<open>depth() == 2\<close>, \<^verbatim>\<open>leafCount() == 2\<close> and \<^verbatim>\<open>inOrder()\<close> equal to \<open>[2, 1, 3]\<close>.
\<close>

theorem preorder_example:
  assumes "X \<notin> {1, 2, 3}"
  shows "\<exists>t h. fromPreOrderInput (X::int) [1, 2, X, X, 3, X, X] empty_heap = Some (t, [], h)
           \<and> nodeCount h t = Some 3
           \<and> depth h t = Some 2
           \<and> leafCount h t = Some 2
           \<and> inOrder h t = Some [2, 1, 3]"
  unfolding fromPreOrderInput_example [OF assms]
  by (simp add: nodeCount_def depth_def leafCount_def inOrder_def nodeCountAux.simps
      depthAux.simps leafCountAux.simps inOrderAux.simps)

theorem preorder_example_witness:
  "\<exists>t h. fromPreOrderInput (0::int) [1, 2, 0, 0, 3, 0, 0] empty_heap = Some (t, [], h)
           \<and> nodeCount h t = Some 3
           \<and> depth h t = Some 2
           \<and> leafCount h t = Some 2
           \<and> inOrder h t = Some [2, 1, 3]"
  using preorder_example [of 0] by simp

section \<open>Stack.h, Queue.h, List.h: the partial operations\<close>

subsection \<open>Stack: a dynamic array\<close>

text \<open>
  \<^verbatim>\<open>T *_data; unsigned int _max; unsigned int _size;\<close> The array is the list of its
  \<^verbatim>\<open>_max\<close> cells. A mutator returns the stack it leaves behind together with its outcome,
  so that a throw shows the state it leaves.
\<close>

record 'a Stack =
  st_data :: "'a list"
  st_max :: "32 word"
  st_size :: "32 word"

definition Stack_empty :: "'a Stack \<Rightarrow> bool" where
  "Stack_empty s = (st_size s = 0)"

definition Stack_size :: "'a Stack \<Rightarrow> 32 word" where
  "Stack_size s = st_size s"

definition Stack_pop :: "'a Stack \<Rightarrow> 'a Stack \<times> (exn + unit)" where
  "Stack_pop s =
     (if Stack_empty s then (s, Inl EmptyStackException)
      else (s\<lparr>st_size := st_size s - 1\<rparr>, Inr ()))"

definition Stack_top :: "'a Stack \<Rightarrow> (exn + 'a) option" where
  "Stack_top s =
     (if Stack_empty s then Some (Inl EmptyStackException)
      else if unat (st_size s - 1) < length (st_data s)
      then Some (Inr (st_data s ! unat (st_size s - 1)))
      else None)"

subsection \<open>Queue: a singly linked list\<close>

record 'a QNode =
  q_elem :: 'a
  q_next :: ptr

record 'a Queue =
  q_nodes :: "addr \<rightharpoonup> 'a QNode"
  q_first :: ptr
  q_last :: ptr
  q_size :: int

definition Queue_empty :: "'a Queue \<Rightarrow> bool" where
  "Queue_empty q = (q_first q = None)"

definition Queue_front :: "'a Queue \<Rightarrow> (exn + 'a) option" where
  "Queue_front q =
     (if Queue_empty q then Some (Inl EmptyQueueException)
      else do { a \<leftarrow> q_first q; nd \<leftarrow> q_nodes q a; Some (Inr (q_elem nd)) })"

definition Queue_pop_front :: "'a Queue \<Rightarrow> ('a Queue \<times> (exn + unit)) option" where
  "Queue_pop_front q =
     (if Queue_empty q then Some (q, Inl EmptyQueueException)
      else
        do {
          toRemove \<leftarrow> q_first q;
          nd \<leftarrow> q_nodes q toRemove;
          let q1 = q\<lparr>q_first := q_next nd\<rparr>;
          let q2 = q1\<lparr>q_nodes := (q_nodes q1)(toRemove := None)\<rparr>;
          let q3 = q2\<lparr>q_size := q_size q2 - 1\<rparr>;
          Some (if q_first q3 = None then q3\<lparr>q_last := None\<rparr> else q3, Inr ())
        })"

subsection \<open>List: a doubly linked list\<close>

record 'a LNode =
  l_elem :: 'a
  l_next :: ptr
  l_prev :: ptr

record 'a List =
  l_nodes :: "addr \<rightharpoonup> 'a LNode"
  l_first :: ptr
  l_last :: ptr
  l_size :: "32 word"

definition List_empty :: "'a List \<Rightarrow> bool" where
  "List_empty l = (l_first l = None)"

definition List_front :: "'a List \<Rightarrow> (exn + 'a) option" where
  "List_front l =
     (if List_empty l then Some (Inl EmptyListException)
      else do { a \<leftarrow> l_first l; nd \<leftarrow> l_nodes l a; Some (Inr (l_elem nd)) })"

definition List_back :: "'a List \<Rightarrow> (exn + 'a) option" where
  "List_back l =
     (if List_empty l then Some (Inl EmptyListException)
      else do { a \<leftarrow> l_last l; nd \<leftarrow> l_nodes l a; Some (Inr (l_elem nd)) })"

text \<open>\<^verbatim>\<open>pprev->_next = pnext\<close> and \<^verbatim>\<open>pnext->_prev = pprev\<close>, each under its null test.\<close>

definition set_next :: "ptr \<Rightarrow> ptr \<Rightarrow> 'a List \<Rightarrow> 'a List option" where
  "set_next p v l =
     (case p of
        None \<Rightarrow> Some l
      | Some a \<Rightarrow> do { nd \<leftarrow> l_nodes l a; Some (l\<lparr>l_nodes := (l_nodes l)(a \<mapsto> nd\<lparr>l_next := v\<rparr>)\<rparr>) })"

definition set_prev :: "ptr \<Rightarrow> ptr \<Rightarrow> 'a List \<Rightarrow> 'a List option" where
  "set_prev p v l =
     (case p of
        None \<Rightarrow> Some l
      | Some a \<Rightarrow> do { nd \<leftarrow> l_nodes l a; Some (l\<lparr>l_nodes := (l_nodes l)(a \<mapsto> nd\<lparr>l_prev := v\<rparr>)\<rparr>) })"

definition deleteElem :: "ptr \<Rightarrow> 'a List \<Rightarrow> 'a List option" where
  "deleteElem n l =
     do {
       a \<leftarrow> n;
       nd \<leftarrow> l_nodes l a;
       l1 \<leftarrow> set_next (l_prev nd) (l_next nd) l;
       l2 \<leftarrow> set_prev (l_next nd) (l_prev nd) l1;
       Some (l2\<lparr>l_size := l_size l2 - 1, l_nodes := (l_nodes l2)(a := None)\<rparr>)
     }"

definition List_pop_front :: "'a List \<Rightarrow> ('a List \<times> (exn + unit)) option" where
  "List_pop_front l =
     (if List_empty l then Some (l, Inl EmptyListException)
      else
        do {
          aBorrar \<leftarrow> l_first l;
          nd \<leftarrow> l_nodes l aBorrar;
          l1 \<leftarrow> deleteElem (Some aBorrar) (l\<lparr>l_first := l_next nd\<rparr>);
          Some (if l_first l1 = None then l1\<lparr>l_last := None\<rparr> else l1, Inr ())
        })"

definition List_pop_back :: "'a List \<Rightarrow> ('a List \<times> (exn + unit)) option" where
  "List_pop_back l =
     (if List_empty l then Some (l, Inl EmptyListException)
      else
        do {
          aBorrar \<leftarrow> l_last l;
          nd \<leftarrow> l_nodes l aBorrar;
          l1 \<leftarrow> deleteElem (Some aBorrar) (l\<lparr>l_last := l_prev nd\<rparr>);
          Some (if l_last l1 = None then l1\<lparr>l_first := None\<rparr> else l1, Inr ())
        })"

subsection \<open>Partial operations on empty containers\<close>

text \<open>
  C5. On an empty container every partial operation throws the empty-structure exception
  of its class, and the container (for the tree, the heap of nodes) is the one it was
  before the call: \<^verbatim>\<open>top\<close>/\<^verbatim>\<open>pop\<close> of Stack, \<^verbatim>\<open>front\<close>/\<^verbatim>\<open>pop_front\<close> of Queue,
  \<^verbatim>\<open>front\<close>/\<^verbatim>\<open>back\<close>/\<^verbatim>\<open>pop_front\<close>/\<^verbatim>\<open>pop_back\<close> of List, and \<^verbatim>\<open>elem\<close>/\<^verbatim>\<open>left\<close>/\<^verbatim>\<open>right\<close>
  of BinTree. The observers \<^verbatim>\<open>top\<close>, \<^verbatim>\<open>front\<close>, \<^verbatim>\<open>back\<close> and \<^verbatim>\<open>elem\<close> are \<^verbatim>\<open>const\<close> and
  have no state to return.
\<close>

theorem partial_ops_on_empty:
  "(Stack_empty s \<longrightarrow>
      Stack_top s = Some (Inl EmptyStackException) \<and> Stack_pop s = (s, Inl EmptyStackException))
   \<and> (Queue_empty q \<longrightarrow>
      Queue_front q = Some (Inl EmptyQueueException)
      \<and> Queue_pop_front q = Some (q, Inl EmptyQueueException))
   \<and> (List_empty l \<longrightarrow>
      List_front l = Some (Inl EmptyListException)
      \<and> List_back l = Some (Inl EmptyListException)
      \<and> List_pop_front l = Some (l, Inl EmptyListException)
      \<and> List_pop_back l = Some (l, Inl EmptyListException))
   \<and> (empty t \<longrightarrow>
      elem h t = Some (Inl EmptyTreeException)
      \<and> left t h = Some (Inl EmptyTreeException, h)
      \<and> right t h = Some (Inl EmptyTreeException, h))"
  by (simp add: Stack_top_def Stack_pop_def Queue_front_def Queue_pop_front_def List_front_def
      List_back_def List_pop_front_def List_pop_back_def empty_def elem_def left_def right_def)

theorem partial_ops_on_empty_witness:
  "Stack_empty \<lparr>st_data = [0::int, 0], st_max = 2, st_size = 0\<rparr>
   \<and> Stack_pop \<lparr>st_data = [0::int, 0], st_max = 2, st_size = 0\<rparr>
       = (\<lparr>st_data = [0, 0], st_max = 2, st_size = 0\<rparr>, Inl EmptyStackException)
   \<and> Queue_empty \<lparr>q_nodes = (Map.empty :: addr \<rightharpoonup> int QNode), q_first = None, q_last = None, q_size = 0\<rparr>
   \<and> Queue_pop_front \<lparr>q_nodes = (Map.empty :: addr \<rightharpoonup> int QNode), q_first = None, q_last = None, q_size = 0\<rparr>
       = Some (\<lparr>q_nodes = Map.empty, q_first = None, q_last = None, q_size = 0\<rparr>, Inl EmptyQueueException)
   \<and> List_empty \<lparr>l_nodes = (Map.empty :: addr \<rightharpoonup> int LNode), l_first = None, l_last = None, l_size = 0\<rparr>
   \<and> List_pop_back \<lparr>l_nodes = (Map.empty :: addr \<rightharpoonup> int LNode), l_first = None, l_last = None, l_size = 0\<rparr>
       = Some (\<lparr>l_nodes = Map.empty, l_first = None, l_last = None, l_size = 0\<rparr>, Inl EmptyListException)
   \<and> empty BinTree_empty
   \<and> left BinTree_empty (empty_heap :: int heap) = Some (Inl EmptyTreeException, empty_heap)"
  using partial_ops_on_empty
    [of "\<lparr>st_data = [0::int, 0], st_max = 2, st_size = 0\<rparr>"
        "\<lparr>q_nodes = (Map.empty :: addr \<rightharpoonup> int QNode), q_first = None, q_last = None, q_size = 0\<rparr>"
        "\<lparr>l_nodes = (Map.empty :: addr \<rightharpoonup> int LNode), l_first = None, l_last = None, l_size = 0\<rparr>"
        BinTree_empty "empty_heap :: int heap"]
  by (simp add: Stack_empty_def Queue_empty_def List_empty_def empty_def BinTree_empty_def)

section \<open>TreeMap.h: map on an unbalanced binary search tree\<close>

subsection \<open>Nodes, insertion, lookup, removal\<close>

text \<open>
  Every \<^verbatim>\<open>Node\<close> of a TreeMap has one owner (its parent's \<^verbatim>\<open>_left\<close> or \<^verbatim>\<open>_right\<close>, or
  \<^verbatim>\<open>_root\<close>), so the node structure below a pointer is a tree value and \<^verbatim>\<open>nullptr\<close> is
  \<open>TNil\<close>; an assignment \<^verbatim>\<open>p->_left = ...\<close> rebuilds the node. The comparator \<^verbatim>\<open>_cless\<close> is
  the default \<^verbatim>\<open>std::less<K>\<close> on a linearly ordered key type. \<^verbatim>\<open>int _size\<close> is an
  unbounded integer.
\<close>

datatype ('k, 'v) tnode = TNil | TNode "('k, 'v) tnode" 'k 'v "('k, 'v) tnode"

record ('k, 'v) TreeMap =
  tm_root :: "('k, 'v) tnode"
  tm_size :: int

definition TreeMap_new :: "('k, 'v) TreeMap" where
  "TreeMap_new = \<lparr>tm_root = TNil, tm_size = 0\<rparr>"

text \<open>\<^verbatim>\<open>insertAux\<close> updates the member \<^verbatim>\<open>_size\<close>, which is passed along and returned.\<close>

fun insertAux :: "'k::linorder \<Rightarrow> 'v \<Rightarrow> ('k, 'v) tnode \<Rightarrow> int \<Rightarrow> ('k, 'v) tnode \<times> int" where
  "insertAux key val TNil sz = (TNode TNil key val TNil, sz + 1)"
| "insertAux key val (TNode l k v r) sz =
     (if key < k then (case insertAux key val l sz of (l', sz') \<Rightarrow> (TNode l' k v r, sz'))
      else if k < key then (case insertAux key val r sz of (r', sz') \<Rightarrow> (TNode l k v r', sz'))
      else (TNode l k v r, sz))"

definition TreeMap_insert :: "'k::linorder \<Rightarrow> 'v \<Rightarrow> ('k, 'v) TreeMap \<Rightarrow> ('k, 'v) TreeMap" where
  "TreeMap_insert key val m =
     (case insertAux key val (tm_root m) (tm_size m) of
        (p, sz) \<Rightarrow> \<lparr>tm_root = p, tm_size = sz\<rparr>)"

text \<open>\<^verbatim>\<open>findAux\<close> returns the node found, as the tree below it, or \<open>TNil\<close>.\<close>

fun findAux :: "('k::linorder, 'v) tnode \<Rightarrow> 'k \<Rightarrow> ('k, 'v) tnode" where
  "findAux TNil key = TNil"
| "findAux (TNode l k v r) key =
     (if key < k then findAux l key
      else if k < key then findAux r key
      else TNode l k v r)"

definition TreeMap_at :: "('k::linorder, 'v) TreeMap \<Rightarrow> 'k \<Rightarrow> exn + 'v" where
  "TreeMap_at m key =
     (case findAux (tm_root m) key of
        TNil \<Rightarrow> Inl BadKeyException
      | TNode l k v r \<Rightarrow> Inr v)"

definition TreeMap_contains :: "('k::linorder, 'v) TreeMap \<Rightarrow> 'k \<Rightarrow> bool" where
  "TreeMap_contains m key = (findAux (tm_root m) key \<noteq> TNil)"

definition TreeMap_empty :: "('k, 'v) TreeMap \<Rightarrow> bool" where
  "TreeMap_empty m = (tm_root m = TNil)"

definition TreeMap_size :: "('k, 'v) TreeMap \<Rightarrow> int" where
  "TreeMap_size m = tm_size m"

text \<open>
  The loop of \<^verbatim>\<open>moveSmallestAndErase\<close> walks from \<^verbatim>\<open>p->_right\<close> down the left links to the
  last node \<^verbatim>\<open>aux\<close>. The result is the key and value of \<^verbatim>\<open>aux\<close> and the right subtree as
  the relinking leaves it: \<^verbatim>\<open>parent->_left = aux->_right\<close> when \<^verbatim>\<open>aux\<close> has a parent, and
  \<^verbatim>\<open>aux->_right\<close> itself when it has none. The tree walked is never null there.
\<close>

fun smallest_loop :: "('k, 'v) tnode \<Rightarrow> ('k \<times> 'v \<times> ('k, 'v) tnode) option" where
  "smallest_loop TNil = None"
| "smallest_loop (TNode TNil k v r) = Some (k, v, r)"
| "smallest_loop (TNode l k v r) =
     (case smallest_loop l of
        None \<Rightarrow> None
      | Some (k', v', l') \<Rightarrow> Some (k', v', TNode l' k v r))"

fun moveSmallestAndErase :: "('k, 'v) tnode \<Rightarrow> ('k, 'v) tnode" where
  "moveSmallestAndErase TNil = TNil"
| "moveSmallestAndErase (TNode l k v r) =
     (case smallest_loop r of
        None \<Rightarrow> TNil
      | Some (k', v', r') \<Rightarrow> TNode l k' v' r')"

fun eraseRoot :: "('k, 'v) tnode \<Rightarrow> ('k, 'v) tnode" where
  "eraseRoot TNil = TNil"
| "eraseRoot (TNode l k v r) =
     (if l = TNil then r
      else if r = TNil then l
      else moveSmallestAndErase (TNode l k v r))"

fun eraseAux :: "('k::linorder, 'v) tnode \<Rightarrow> 'k \<Rightarrow> int \<Rightarrow> ('k, 'v) tnode \<times> int" where
  "eraseAux TNil key sz = (TNil, sz)"
| "eraseAux (TNode l k v r) key sz =
     (if key < k then (case eraseAux l key sz of (l', sz') \<Rightarrow> (TNode l' k v r, sz'))
      else if k < key then (case eraseAux r key sz of (r', sz') \<Rightarrow> (TNode l k v r', sz'))
      else (eraseRoot (TNode l k v r), sz - 1))"

definition TreeMap_erase :: "'k::linorder \<Rightarrow> ('k, 'v) TreeMap \<Rightarrow> ('k, 'v) TreeMap" where
  "TreeMap_erase key m =
     (case eraseAux (tm_root m) key (tm_size m) of
        (p, sz) \<Rightarrow> \<lparr>tm_root = p, tm_size = sz\<rparr>)"

subsection \<open>Insertion of a key that is present\<close>

text \<open>
  C2 says that \<^verbatim>\<open>insert(k, v)\<close> on a key that is present replaces its value. The last branch
  of \<^verbatim>\<open>insertAux\<close> returns the node as it is: after \<^verbatim>\<open>insert(1, 10)\<close> and
  \<^verbatim>\<open>insert(1, 20)\<close> on an empty map, \<^verbatim>\<open>at(1)\<close> is 10.
\<close>

theorem TreeMap_insert_keeps_old_value:
  "TreeMap_at (TreeMap_insert (1::int) (20::int) (TreeMap_insert 1 10 TreeMap_new)) 1 = Inr 10"
  by (simp add: TreeMap_at_def TreeMap_insert_def TreeMap_new_def)

text \<open>The same for every map, key and values: the value stored first stays.\<close>

lemma insertAux_present:
  "findAux p key \<noteq> TNil \<Longrightarrow> insertAux key val p sz = (p, sz)"
  by (induction p) auto

lemma TreeMap_insert_present:
  "TreeMap_contains m key \<Longrightarrow> TreeMap_insert key val m = m"
  by (simp add: TreeMap_contains_def TreeMap_insert_def insertAux_present)

subsection \<open>Iterators\<close>

text \<open>
  An iterator holds \<^verbatim>\<open>_current\<close> and the stack \<^verbatim>\<open>_ancestors\<close> (a list, top first).
  \<^verbatim>\<open>firstInOrder\<close> pushes on the stack of the iterator it belongs to, which it takes and
  returns here.
\<close>

record ('k, 'v) Iterator =
  it_current :: "('k, 'v) tnode"
  it_ancestors :: "('k, 'v) tnode list"

fun firstInOrder :: "('k, 'v) tnode \<Rightarrow> ('k, 'v) tnode list \<Rightarrow> ('k, 'v) tnode \<times> ('k, 'v) tnode list" where
  "firstInOrder TNil anc = (TNil, anc)"
| "firstInOrder (TNode TNil k v r) anc = (TNode TNil k v r, anc)"
| "firstInOrder (TNode l k v r) anc = firstInOrder l (TNode l k v r # anc)"

definition Iterator_at :: "('k, 'v) tnode \<Rightarrow> ('k, 'v) Iterator" where
  "Iterator_at p = (case firstInOrder p [] of (c, anc) \<Rightarrow> \<lparr>it_current = c, it_ancestors = anc\<rparr>)"

definition TreeMap_begin :: "('k, 'v) TreeMap \<Rightarrow> ('k, 'v) Iterator" where
  "TreeMap_begin m = Iterator_at (tm_root m)"

definition TreeMap_end :: "('k, 'v) TreeMap \<Rightarrow> ('k, 'v) Iterator" where
  "TreeMap_end m = Iterator_at TNil"

definition it_next :: "('k, 'v) Iterator \<Rightarrow> exn + ('k, 'v) Iterator" where
  "it_next it =
     (case it_current it of
        TNil \<Rightarrow> Inl InvalidAccessException
      | TNode l k v r \<Rightarrow>
          if r \<noteq> TNil then
            (case firstInOrder r (it_ancestors it) of
               (c, anc) \<Rightarrow> Inr \<lparr>it_current = c, it_ancestors = anc\<rparr>)
          else
            (case it_ancestors it of
               [] \<Rightarrow> Inr \<lparr>it_current = TNil, it_ancestors = []\<rparr>
             | a # rest \<Rightarrow> Inr \<lparr>it_current = a, it_ancestors = rest\<rparr>))"

definition it_key :: "('k, 'v) Iterator \<Rightarrow> exn + 'k" where
  "it_key it = (case it_current it of TNil \<Rightarrow> Inl InvalidAccessException | TNode l k v r \<Rightarrow> Inr k)"

text \<open>
  \<^verbatim>\<open>operator!=\<close> compares the two \<^verbatim>\<open>_current\<close> pointers. It is used against \<^verbatim>\<open>end()\<close>,
  whose \<^verbatim>\<open>_current\<close> is null.
\<close>

definition it_differs :: "('k, 'v) Iterator \<Rightarrow> ('k, 'v) Iterator \<Rightarrow> bool" where
  "it_differs it other = (it_current it \<noteq> it_current other)"

text \<open>
  The client loop \<^verbatim>\<open>for (it = begin(); it != end(); ++it)\<close> collecting \<^verbatim>\<open>it.key()\<close>.
\<close>

partial_function (option) iterate :: "('k, 'v) Iterator \<Rightarrow> ('k, 'v) Iterator \<Rightarrow> 'k list \<Rightarrow> 'k list option" where
  "iterate it e acc =
     (if it_differs it e then
        (case it_key it of
           Inl x \<Rightarrow> None
         | Inr k \<Rightarrow> (case it_next it of Inl x \<Rightarrow> None | Inr it' \<Rightarrow> iterate it' e (acc @ [k])))
      else Some acc)"

definition TreeMap_keys :: "('k, 'v) TreeMap \<Rightarrow> 'k list option" where
  "TreeMap_keys m = iterate (TreeMap_begin m) (TreeMap_end m) []"

subsection \<open>Search-tree invariant and in-order keys\<close>

fun keys_inorder :: "('k, 'v) tnode \<Rightarrow> 'k list" where
  "keys_inorder TNil = []"
| "keys_inorder (TNode l k v r) = keys_inorder l @ k # keys_inorder r"

fun bst :: "('k::linorder, 'v) tnode \<Rightarrow> bool" where
  "bst TNil = True"
| "bst (TNode l k v r) =
     (bst l \<and> bst r \<and> (\<forall>x \<in> set (keys_inorder l). x < k) \<and> (\<forall>x \<in> set (keys_inorder r). k < x))"

fun visit :: "('k, 'v) tnode \<Rightarrow> 'k list" where
  "visit TNil = []"
| "visit (TNode l k v r) = k # keys_inorder r"

definition remaining :: "('k, 'v) Iterator \<Rightarrow> 'k list" where
  "remaining it = visit (it_current it) @ concat (map visit (it_ancestors it))"

lemma firstInOrder_visit:
  "firstInOrder p anc = (c, anc') \<Longrightarrow>
     visit c @ concat (map visit anc') = keys_inorder p @ concat (map visit anc)"
  by (induction p anc rule: firstInOrder.induct) auto

lemma firstInOrder_nonnull:
  "p \<noteq> TNil \<Longrightarrow> fst (firstInOrder p anc) \<noteq> TNil"
  by (induction p anc rule: firstInOrder.induct) auto

lemma it_next_remaining:
  assumes "it_current it = TNode l k v r"
  shows "\<exists>it'. it_next it = Inr it' \<and> remaining it = k # remaining it'"
  using assms
  apply (cases "firstInOrder r (it_ancestors it)")
  apply (auto simp: it_next_def remaining_def dest: firstInOrder_visit split: list.splits)
  done

definition it_ok :: "('k, 'v) Iterator \<Rightarrow> bool" where
  "it_ok it = (TNil \<notin> set (it_ancestors it) \<and> (it_current it = TNil \<longrightarrow> it_ancestors it = []))"

lemma firstInOrder_ancestors:
  "firstInOrder p anc = (c, anc') \<Longrightarrow> TNil \<notin> set anc \<Longrightarrow> TNil \<notin> set anc'"
  by (induction p anc rule: firstInOrder.induct) auto

lemma it_next_ok:
  assumes "it_ok it" "it_next it = Inr it'"
  shows "it_ok it'"
proof (cases "it_current it")
  case TNil
  with assms show ?thesis by (simp add: it_next_def)
next
  case (TNode l k v r)
  show ?thesis
  proof (cases "r = TNil")
    case True
    with assms TNode show ?thesis
      by (auto simp: it_next_def it_ok_def split: list.splits)
  next
    case False
    obtain c anc where f: "firstInOrder r (it_ancestors it) = (c, anc)" by fastforce
    with assms TNode False firstInOrder_nonnull[of r "it_ancestors it"] firstInOrder_ancestors[OF f]
    show ?thesis
      by (auto simp: it_next_def it_ok_def)
  qed
qed

lemma iterate_remaining:
  "it_ok it \<Longrightarrow> iterate it (TreeMap_end m) acc = Some (acc @ remaining it)"
proof (induction "length (remaining it)" arbitrary: it acc)
  case 0
  then show ?case 
    apply (subst iterate.simps)
    apply (cases "it_current it")
     apply (auto simp: remaining_def it_differs_def TreeMap_end_def Iterator_at_def it_ok_def)
    done
next
  case (Suc n)
  then obtain l k v r where c: "it_current it = TNode l k v r"
    by (cases "it_current it") (auto simp: remaining_def it_ok_def)
  from it_next_remaining[OF c] obtain it' where n: "it_next it = Inr it'" "remaining it = k # remaining it'"
    by blast
  have "it_ok it'" using it_next_ok[OF Suc.prems n(1)] .
  with Suc n have "iterate it' (TreeMap_end m) (acc @ [k]) = Some ((acc @ [k]) @ remaining it')"
    by auto
  then show ?case
    apply (subst iterate.simps)
    using c n by (auto simp: it_differs_def TreeMap_end_def Iterator_at_def it_key_def)
qed

lemma TreeMap_keys_inorder: "TreeMap_keys m = Some (keys_inorder (tm_root m))"
proof -
  obtain c anc where f: "firstInOrder (tm_root m) [] = (c, anc)" by fastforce
  have "it_ok \<lparr>it_current = c, it_ancestors = anc\<rparr>"
    using f firstInOrder_nonnull[of "tm_root m" "[]"] firstInOrder_ancestors[OF f]
    by (cases "tm_root m") (auto simp: it_ok_def)
  then show ?thesis
    unfolding TreeMap_keys_def TreeMap_begin_def Iterator_at_def
    using firstInOrder_visit[OF f] f
    by (subst iterate_remaining) (auto simp: remaining_def)
qed


lemma set_insertAux:
  "set (keys_inorder (fst (insertAux key val p sz))) = insert key (set (keys_inorder p))"
  by (induction p) (auto simp: split_beta)

lemma bst_insertAux: "bst p \<Longrightarrow> bst (fst (insertAux key val p sz))"
  by (induction p) (auto simp: split_beta set_insertAux)

lemma size_insertAux:
  "snd (insertAux key val p sz) - int (length (keys_inorder (fst (insertAux key val p sz))))
     = sz - int (length (keys_inorder p))"
  by (induction p) (auto simp: split_beta)

lemma smallest_loop_inorder:
  "p \<noteq> TNil \<Longrightarrow> \<exists>k' v' p'. smallest_loop p = Some (k', v', p') \<and> keys_inorder p = k' # keys_inorder p'"
  by (induction p rule: smallest_loop.induct) auto

lemma eraseRoot_inorder:
  "keys_inorder (eraseRoot (TNode l k v r)) = keys_inorder l @ keys_inorder r"
  using smallest_loop_inorder[of r] by (cases "r = TNil") auto

lemma filter_neq_id: "key \<notin> set xs \<Longrightarrow> filter (\<lambda>x. x \<noteq> key) xs = xs"
  by (induction xs) auto

lemma eraseAux_inorder:
  "bst p \<Longrightarrow> keys_inorder (fst (eraseAux p key sz)) = filter (\<lambda>x. x \<noteq> key) (keys_inorder p)"
proof (induction p)
  case TNil
  then show ?case by simp
next
  case (TNode l k v r)
  have l: "key \<le> k \<Longrightarrow> filter (\<lambda>x. x \<noteq> key) (keys_inorder r) = keys_inorder r"
    using TNode.prems by (intro filter_neq_id) auto
  have r: "k \<le> key \<Longrightarrow> filter (\<lambda>x. x \<noteq> key) (keys_inorder l) = keys_inorder l"
    using TNode.prems by (intro filter_neq_id) auto
  consider "key < k" | "k < key" | "key = k" by fastforce
  then show ?case
  proof cases
    case 1
    with TNode l show ?thesis by (simp add: split_beta)
  next
    case 2
    then have "\<not> key < k" by simp
    with 2 TNode r show ?thesis by (simp add: split_beta)
  next
    case 3
    with l r eraseRoot_inorder[of l k v r] show ?thesis by (simp del: eraseRoot.simps)
  qed
qed

lemma bst_sorted: "bst p \<Longrightarrow> sorted_wrt (<) (keys_inorder p)"
proof (induction p)
  case TNil
  then show ?case by simp
next
  case (TNode l k v r)
  have "x < y" if "x \<in> set (keys_inorder l)" "y \<in> set (keys_inorder r)" for x y
  proof -
    have "x < k" "k < y" using TNode.prems that by auto
    then show ?thesis by (rule less_trans)
  qed
  with TNode show ?case
    by (simp add: sorted_wrt_append)
qed

lemma sorted_bst: "sorted_wrt (<) (keys_inorder p) \<Longrightarrow> bst p"
  by (induction p) (simp_all add: sorted_wrt_append)

lemma bst_eraseAux: "bst p \<Longrightarrow> bst (fst (eraseAux p key sz))"
  by (rule sorted_bst) (simp add: bst_sorted eraseAux_inorder sorted_wrt_filter)

lemma size_eraseAux:
  "snd (eraseAux p key sz) - int (length (keys_inorder (fst (eraseAux p key sz))))
     = sz - int (length (keys_inorder p))"
proof (induction p)
  case TNil
  then show ?case by simp
next
  case (TNode l k v r)
  consider "key < k" | "k < key" | "key = k" by fastforce
  then show ?case
  proof cases
    case 1
    with TNode show ?thesis by (simp add: split_beta)
  next
    case 2
    then have "\<not> key < k" by simp
    with 2 TNode show ?thesis by (simp add: split_beta)
  next
    case 3
    with eraseRoot_inorder[of l k v r] show ?thesis by (simp del: eraseRoot.simps)
  qed
qed

lemma findAux_iff: "bst p \<Longrightarrow> findAux p key \<noteq> TNil \<longleftrightarrow> key \<in> set (keys_inorder p)"
proof (induction p)
  case TNil
  then show ?case by simp
next
  case (TNode l k v r)
  then show ?case by (cases "key < k"; cases "k < key") auto
qed

section \<open>TreeSet.h: set on an unbalanced binary search tree\<close>

text \<open>
  The nodes hold \<^verbatim>\<open>_elem\<close>, \<^verbatim>\<open>_left\<close> and \<^verbatim>\<open>_right\<close>; a TreeSet has the single field
  \<^verbatim>\<open>_root\<close> and no element count. The elements are compared with \<^verbatim>\<open>==\<close>, \<^verbatim>\<open><\<close> and
  \<^verbatim>\<open>>\<close> of a linearly ordered type.
\<close>

datatype 'a snode = SNil | SNode "'a snode" 'a "'a snode"

fun TS_insertAux :: "'a::linorder \<Rightarrow> 'a snode \<Rightarrow> 'a snode" where
  "TS_insertAux e SNil = SNode SNil e SNil"
| "TS_insertAux e (SNode l x r) =
     (if x = e then SNode l x r
      else if e < x then SNode (TS_insertAux e l) x r
      else SNode l x (TS_insertAux e r))"

fun TS_findAux :: "'a::linorder snode \<Rightarrow> 'a \<Rightarrow> 'a snode" where
  "TS_findAux SNil e = SNil"
| "TS_findAux (SNode l x r) e =
     (if x = e then SNode l x r
      else if e < x then TS_findAux l e
      else TS_findAux r e)"

fun TS_smallest_loop :: "'a snode \<Rightarrow> ('a \<times> 'a snode) option" where
  "TS_smallest_loop SNil = None"
| "TS_smallest_loop (SNode SNil x r) = Some (x, r)"
| "TS_smallest_loop (SNode l x r) =
     (case TS_smallest_loop l of
        None \<Rightarrow> None
      | Some (x', l') \<Rightarrow> Some (x', SNode l' x r))"

fun TS_moveSmallestAndErase :: "'a snode \<Rightarrow> 'a snode" where
  "TS_moveSmallestAndErase SNil = SNil"
| "TS_moveSmallestAndErase (SNode l x r) =
     (case TS_smallest_loop r of
        None \<Rightarrow> SNil
      | Some (x', r') \<Rightarrow> SNode l x' r')"

fun TS_eraseRoot :: "'a snode \<Rightarrow> 'a snode" where
  "TS_eraseRoot SNil = SNil"
| "TS_eraseRoot (SNode l x r) =
     (if l = SNil then r
      else if r = SNil then l
      else TS_moveSmallestAndErase (SNode l x r))"

fun TS_eraseAux :: "'a::linorder snode \<Rightarrow> 'a \<Rightarrow> 'a snode" where
  "TS_eraseAux SNil e = SNil"
| "TS_eraseAux (SNode l x r) e =
     (if e = x then TS_eraseRoot (SNode l x r)
      else if e < x then SNode (TS_eraseAux l e) x r
      else SNode l x (TS_eraseAux r e))"

definition TreeSet_new :: "'a snode" where
  "TreeSet_new = SNil"

definition TreeSet_insert :: "'a::linorder \<Rightarrow> 'a snode \<Rightarrow> 'a snode" where
  "TreeSet_insert e root = TS_insertAux e root"

definition TreeSet_erase :: "'a::linorder \<Rightarrow> 'a snode \<Rightarrow> 'a snode" where
  "TreeSet_erase e root = TS_eraseAux root e"

definition TreeSet_contains :: "'a::linorder snode \<Rightarrow> 'a \<Rightarrow> bool" where
  "TreeSet_contains root e = (if TS_findAux root e \<noteq> SNil then True else False)"

record 'a TS_Iterator =
  ts_current :: "'a snode"
  ts_ancestors :: "'a snode list"

fun TS_firstInOrder :: "'a snode \<Rightarrow> 'a snode list \<Rightarrow> 'a snode \<times> 'a snode list" where
  "TS_firstInOrder SNil anc = (SNil, anc)"
| "TS_firstInOrder (SNode SNil x r) anc = (SNode SNil x r, anc)"
| "TS_firstInOrder (SNode l x r) anc = TS_firstInOrder l (SNode l x r # anc)"

definition TS_Iterator_at :: "'a snode \<Rightarrow> 'a TS_Iterator" where
  "TS_Iterator_at p = (case TS_firstInOrder p [] of (c, anc) \<Rightarrow> \<lparr>ts_current = c, ts_ancestors = anc\<rparr>)"

definition TreeSet_begin :: "'a snode \<Rightarrow> 'a TS_Iterator" where
  "TreeSet_begin root = TS_Iterator_at root"

definition TreeSet_end :: "'a snode \<Rightarrow> 'a TS_Iterator" where
  "TreeSet_end root = TS_Iterator_at SNil"

definition ts_next :: "'a TS_Iterator \<Rightarrow> exn + 'a TS_Iterator" where
  "ts_next it =
     (case ts_current it of
        SNil \<Rightarrow> Inl InvalidAccessException
      | SNode l x r \<Rightarrow>
          if r \<noteq> SNil then
            (case TS_firstInOrder r (ts_ancestors it) of
               (c, anc) \<Rightarrow> Inr \<lparr>ts_current = c, ts_ancestors = anc\<rparr>)
          else
            (case ts_ancestors it of
               [] \<Rightarrow> Inr \<lparr>ts_current = SNil, ts_ancestors = []\<rparr>
             | a # rest \<Rightarrow> Inr \<lparr>ts_current = a, ts_ancestors = rest\<rparr>))"

definition ts_elem :: "'a TS_Iterator \<Rightarrow> exn + 'a" where
  "ts_elem it = (case ts_current it of SNil \<Rightarrow> Inl InvalidAccessException | SNode l x r \<Rightarrow> Inr x)"

definition ts_differs :: "'a TS_Iterator \<Rightarrow> 'a TS_Iterator \<Rightarrow> bool" where
  "ts_differs it other = (ts_current it \<noteq> ts_current other)"

partial_function (option) ts_iterate :: "'a TS_Iterator \<Rightarrow> 'a TS_Iterator \<Rightarrow> 'a list \<Rightarrow> 'a list option" where
  "ts_iterate it e acc =
     (if ts_differs it e then
        (case ts_elem it of
           Inl x \<Rightarrow> None
         | Inr k \<Rightarrow> (case ts_next it of Inl x \<Rightarrow> None | Inr it' \<Rightarrow> ts_iterate it' e (acc @ [k])))
      else Some acc)"

definition TreeSet_elems :: "'a snode \<Rightarrow> 'a list option" where
  "TreeSet_elems root = ts_iterate (TreeSet_begin root) (TreeSet_end root) []"

fun elems_inorder :: "'a snode \<Rightarrow> 'a list" where
  "elems_inorder SNil = []"
| "elems_inorder (SNode l x r) = elems_inorder l @ x # elems_inorder r"

fun ts_bst :: "'a::linorder snode \<Rightarrow> bool" where
  "ts_bst SNil = True"
| "ts_bst (SNode l x r) =
     (ts_bst l \<and> ts_bst r \<and> (\<forall>y \<in> set (elems_inorder l). y < x) \<and> (\<forall>y \<in> set (elems_inorder r). x < y))"

fun ts_visit :: "'a snode \<Rightarrow> 'a list" where
  "ts_visit SNil = []"
| "ts_visit (SNode l x r) = x # elems_inorder r"

definition ts_remaining :: "'a TS_Iterator \<Rightarrow> 'a list" where
  "ts_remaining it = ts_visit (ts_current it) @ concat (map ts_visit (ts_ancestors it))"

definition ts_ok :: "'a TS_Iterator \<Rightarrow> bool" where
  "ts_ok it = (SNil \<notin> set (ts_ancestors it) \<and> (ts_current it = SNil \<longrightarrow> ts_ancestors it = []))"

lemma TS_firstInOrder_visit:
  "TS_firstInOrder p anc = (c, anc') \<Longrightarrow>
     ts_visit c @ concat (map ts_visit anc') = elems_inorder p @ concat (map ts_visit anc)"
  by (induction p anc rule: TS_firstInOrder.induct) auto

lemma TS_firstInOrder_nonnull:
  "p \<noteq> SNil \<Longrightarrow> fst (TS_firstInOrder p anc) \<noteq> SNil"
  by (induction p anc rule: TS_firstInOrder.induct) auto

lemma TS_firstInOrder_ancestors:
  "TS_firstInOrder p anc = (c, anc') \<Longrightarrow> SNil \<notin> set anc \<Longrightarrow> SNil \<notin> set anc'"
  by (induction p anc rule: TS_firstInOrder.induct) auto

lemma ts_next_remaining:
  assumes "ts_current it = SNode l x r"
  shows "\<exists>it'. ts_next it = Inr it' \<and> ts_remaining it = x # ts_remaining it'"
  using assms
  apply (cases "TS_firstInOrder r (ts_ancestors it)")
  apply (auto simp: ts_next_def ts_remaining_def dest: TS_firstInOrder_visit split: list.splits)
  done

lemma ts_next_ok:
  assumes "ts_ok it" "ts_next it = Inr it'"
  shows "ts_ok it'"
proof (cases "ts_current it")
  case SNil
  with assms show ?thesis by (simp add: ts_next_def)
next
  case (SNode l x r)
  show ?thesis
  proof (cases "r = SNil")
    case True
    with assms SNode show ?thesis
      by (auto simp: ts_next_def ts_ok_def split: list.splits)
  next
    case False
    obtain c anc where f: "TS_firstInOrder r (ts_ancestors it) = (c, anc)" by fastforce
    with assms SNode False TS_firstInOrder_nonnull[of r "ts_ancestors it"] TS_firstInOrder_ancestors[OF f]
    show ?thesis
      by (auto simp: ts_next_def ts_ok_def)
  qed
qed

lemma ts_iterate_remaining:
  "ts_ok it \<Longrightarrow> ts_iterate it (TreeSet_end root) acc = Some (acc @ ts_remaining it)"
proof (induction "length (ts_remaining it)" arbitrary: it acc)
  case 0
  then show ?case
    apply (subst ts_iterate.simps)
    apply (cases "ts_current it")
     apply (auto simp: ts_remaining_def ts_differs_def TreeSet_end_def TS_Iterator_at_def ts_ok_def)
    done
next
  case (Suc n)
  then obtain l x r where c: "ts_current it = SNode l x r"
    by (cases "ts_current it") (auto simp: ts_remaining_def ts_ok_def)
  from ts_next_remaining[OF c] obtain it' where
    n: "ts_next it = Inr it'" "ts_remaining it = x # ts_remaining it'"
    by blast
  have "ts_ok it'" using ts_next_ok[OF Suc.prems n(1)] .
  with Suc n have "ts_iterate it' (TreeSet_end root) (acc @ [x]) = Some ((acc @ [x]) @ ts_remaining it')"
    by auto
  then show ?case
    apply (subst ts_iterate.simps)
    using c n by (auto simp: ts_differs_def TreeSet_end_def TS_Iterator_at_def ts_elem_def)
qed

lemma TreeSet_elems_inorder: "TreeSet_elems root = Some (elems_inorder root)"
proof -
  obtain c anc where f: "TS_firstInOrder root [] = (c, anc)" by fastforce
  have "ts_ok \<lparr>ts_current = c, ts_ancestors = anc\<rparr>"
    using f TS_firstInOrder_nonnull[of root "[]"] TS_firstInOrder_ancestors[OF f]
    by (cases root) (auto simp: ts_ok_def)
  then show ?thesis
    unfolding TreeSet_elems_def TreeSet_begin_def TS_Iterator_at_def
    using TS_firstInOrder_visit[OF f] f
    by (subst ts_iterate_remaining) (auto simp: ts_remaining_def)
qed

lemma set_TS_insertAux:
  "set (elems_inorder (TS_insertAux e p)) = insert e (set (elems_inorder p))"
  by (induction p) auto

lemma ts_bst_insertAux: "ts_bst p \<Longrightarrow> ts_bst (TS_insertAux e p)"
  by (induction p) (auto simp: set_TS_insertAux)

lemma TS_smallest_loop_inorder:
  "p \<noteq> SNil \<Longrightarrow> \<exists>x' p'. TS_smallest_loop p = Some (x', p') \<and> elems_inorder p = x' # elems_inorder p'"
  by (induction p rule: TS_smallest_loop.induct) auto

lemma TS_eraseRoot_inorder:
  "elems_inorder (TS_eraseRoot (SNode l x r)) = elems_inorder l @ elems_inorder r"
  using TS_smallest_loop_inorder[of r] by (cases "r = SNil") auto

lemma TS_eraseAux_inorder:
  "ts_bst p \<Longrightarrow> elems_inorder (TS_eraseAux p e) = filter (\<lambda>y. y \<noteq> e) (elems_inorder p)"
proof (induction p)
  case SNil
  then show ?case by simp
next
  case (SNode l x r)
  have l: "e \<le> x \<Longrightarrow> filter (\<lambda>y. y \<noteq> e) (elems_inorder r) = elems_inorder r"
    using SNode.prems by (intro filter_neq_id) auto
  have r: "x \<le> e \<Longrightarrow> filter (\<lambda>y. y \<noteq> e) (elems_inorder l) = elems_inorder l"
    using SNode.prems by (intro filter_neq_id) auto
  consider "e < x" | "x < e" | "e = x" by fastforce
  then show ?case
  proof cases
    case 1
    then have "e \<noteq> x" by simp
    with 1 SNode l show ?thesis by simp
  next
    case 2
    then have "\<not> e < x" "e \<noteq> x" by simp_all
    with 2 SNode r show ?thesis by simp
  next
    case 3
    with l r TS_eraseRoot_inorder[of l x r] show ?thesis by (simp del: TS_eraseRoot.simps)
  qed
qed

lemma ts_bst_sorted: "ts_bst p \<Longrightarrow> sorted_wrt (<) (elems_inorder p)"
proof (induction p)
  case SNil
  then show ?case by simp
next
  case (SNode l x r)
  have "a < b" if "a \<in> set (elems_inorder l)" "b \<in> set (elems_inorder r)" for a b
  proof -
    have "a < x" "x < b" using SNode.prems that by auto
    then show ?thesis by (rule less_trans)
  qed
  with SNode show ?case
    by (simp add: sorted_wrt_append)
qed

lemma sorted_ts_bst: "sorted_wrt (<) (elems_inorder p) \<Longrightarrow> ts_bst p"
  by (induction p) (simp_all add: sorted_wrt_append)

lemma ts_bst_eraseAux: "ts_bst p \<Longrightarrow> ts_bst (TS_eraseAux p e)"
  by (rule sorted_ts_bst) (simp add: ts_bst_sorted TS_eraseAux_inorder sorted_wrt_filter)

lemma TS_findAux_iff: "ts_bst p \<Longrightarrow> TS_findAux p e \<noteq> SNil \<longleftrightarrow> e \<in> set (elems_inorder p)"
proof (induction p)
  case SNil
  then show ?case by simp
next
  case (SNode l x r)
  then show ?case by (cases "e < x"; cases "x < e") auto
qed

lemma TS_insertAux_present: "TS_findAux p e \<noteq> SNil \<Longrightarrow> TS_insertAux e p = p"
  by (induction p) auto


section \<open>TreeMap and TreeSet: sequences of operations\<close>

text \<open>A client's calls of \<^verbatim>\<open>insert\<close> and \<^verbatim>\<open>erase\<close>, run in order on a new container.\<close>

datatype ('k, 'v) map_op = MapInsert 'k 'v | MapErase 'k

fun TreeMap_apply :: "('k::linorder, 'v) map_op \<Rightarrow> ('k, 'v) TreeMap \<Rightarrow> ('k, 'v) TreeMap" where
  "TreeMap_apply (MapInsert k v) m = TreeMap_insert k v m"
| "TreeMap_apply (MapErase k) m = TreeMap_erase k m"

definition TreeMap_run :: "('k::linorder, 'v) map_op list \<Rightarrow> ('k, 'v) TreeMap" where
  "TreeMap_run ops = fold TreeMap_apply ops TreeMap_new"

datatype 'a set_op = SetInsert 'a | SetErase 'a

fun TreeSet_apply :: "'a::linorder set_op \<Rightarrow> 'a snode \<Rightarrow> 'a snode" where
  "TreeSet_apply (SetInsert e) root = TreeSet_insert e root"
| "TreeSet_apply (SetErase e) root = TreeSet_erase e root"

definition TreeSet_run :: "'a::linorder set_op list \<Rightarrow> 'a snode" where
  "TreeSet_run ops = fold TreeSet_apply ops TreeSet_new"

definition tm_inv :: "('k::linorder, 'v) TreeMap \<Rightarrow> bool" where
  "tm_inv m = (bst (tm_root m) \<and> tm_size m = int (length (keys_inorder (tm_root m))))"

lemma tm_inv_apply: "tm_inv m \<Longrightarrow> tm_inv (TreeMap_apply op m)"
proof (cases op)
  case (MapInsert k v)
  assume "tm_inv m"
  with MapInsert show ?thesis
    using bst_insertAux[of "tm_root m" k v "tm_size m"] size_insertAux[of k v "tm_root m" "tm_size m"]
    by (simp add: tm_inv_def TreeMap_insert_def split_beta)
next
  case (MapErase k)
  assume "tm_inv m"
  with MapErase show ?thesis
    using bst_eraseAux[of "tm_root m" k "tm_size m"] size_eraseAux[of "tm_root m" k "tm_size m"]
    by (simp add: tm_inv_def TreeMap_erase_def split_beta)
qed

lemma tm_inv_fold: "tm_inv m \<Longrightarrow> tm_inv (fold TreeMap_apply ops m)"
  by (induction ops arbitrary: m) (simp_all add: tm_inv_apply)

lemma tm_inv_run: "tm_inv (TreeMap_run ops)"
  unfolding TreeMap_run_def by (rule tm_inv_fold) (simp add: tm_inv_def TreeMap_new_def)

lemma ts_bst_apply: "ts_bst root \<Longrightarrow> ts_bst (TreeSet_apply op root)"
  by (cases op) (simp_all add: TreeSet_insert_def TreeSet_erase_def ts_bst_insertAux ts_bst_eraseAux)

lemma ts_bst_fold: "ts_bst root \<Longrightarrow> ts_bst (fold TreeSet_apply ops root)"
  by (induction ops arbitrary: root) (simp_all add: ts_bst_apply)

lemma ts_bst_run: "ts_bst (TreeSet_run ops)"
  unfolding TreeSet_run_def by (rule ts_bst_fold) (simp add: TreeSet_new_def)

lemma eraseRoot_two_children:
  assumes "l \<noteq> TNil" "r \<noteq> TNil"
  shows "\<exists>k' v' r'. eraseRoot (TNode l x v r) = TNode l k' v' r' \<and> keys_inorder r = k' # keys_inorder r'"
  using assms smallest_loop_inorder[of r] by auto

lemma TS_eraseRoot_two_children:
  assumes "l \<noteq> SNil" "r \<noteq> SNil"
  shows "\<exists>x' r'. TS_eraseRoot (SNode l x r) = SNode l x' r' \<and> elems_inorder r = x' # elems_inorder r'"
  using assms TS_smallest_loop_inorder[of r] by auto

lemma TreeMap_erase_keys:
  assumes "tm_inv m"
  shows "TreeMap_keys (TreeMap_erase k m) = Some (filter (\<lambda>x. x \<noteq> k) (keys_inorder (tm_root m)))"
    and "\<not> TreeMap_contains (TreeMap_erase k m) k"
proof -
  have b: "bst (tm_root m)" using assms by (simp add: tm_inv_def)
  have r: "tm_root (TreeMap_erase k m) = fst (eraseAux (tm_root m) k (tm_size m))"
    by (simp add: TreeMap_erase_def split_beta)
  show "TreeMap_keys (TreeMap_erase k m) = Some (filter (\<lambda>x. x \<noteq> k) (keys_inorder (tm_root m)))"
    by (simp add: TreeMap_keys_inorder r eraseAux_inorder[OF b])
  show "\<not> TreeMap_contains (TreeMap_erase k m) k"
    unfolding TreeMap_contains_def r
    using findAux_iff[OF bst_eraseAux[OF b, of k "tm_size m"], of k] eraseAux_inorder[OF b, of k "tm_size m"]
    by simp
qed

lemma TreeSet_erase_elems:
  assumes "ts_bst root"
  shows "TreeSet_elems (TreeSet_erase e root) = Some (filter (\<lambda>x. x \<noteq> e) (elems_inorder root))"
    and "\<not> TreeSet_contains (TreeSet_erase e root) e"
proof -
  show "TreeSet_elems (TreeSet_erase e root) = Some (filter (\<lambda>x. x \<noteq> e) (elems_inorder root))"
    by (simp add: TreeSet_elems_inorder TreeSet_erase_def TS_eraseAux_inorder[OF assms])
  show "\<not> TreeSet_contains (TreeSet_erase e root) e"
    unfolding TreeSet_contains_def TreeSet_erase_def
    using TS_findAux_iff[OF ts_bst_eraseAux[OF assms, of e], of e] TS_eraseAux_inorder[OF assms, of e]
    by simp
qed

text \<open>
  C8. After any sequence of \<^verbatim>\<open>insert\<close> and \<^verbatim>\<open>erase\<close> calls on a new TreeMap or TreeSet,
  the loop from \<^verbatim>\<open>begin()\<close> to \<^verbatim>\<open>end()\<close> ends and yields the keys in strictly ascending
  order (for the map, \<^verbatim>\<open>size()\<close> of them); \<^verbatim>\<open>erase(k)\<close> removes \<open>k\<close> and nothing else, and
  \<^verbatim>\<open>contains(k)\<close> is false after it; removing the root of a node with two children puts
  the first key of the right subtree in in-order, the successor, in its place; and
  \<^verbatim>\<open>insert\<close> of an element that a TreeSet contains leaves the set as it was, so its number
  of elements does not change (TreeSet has no \<^verbatim>\<open>size()\<close>).
\<close>

theorem tree_containers_ordered:
  fixes ops :: "('k::linorder, 'v) map_op list" and sops :: "'a::linorder set_op list"
  shows
  "(\<exists>ks. TreeMap_keys (TreeMap_run ops) = Some ks \<and> sorted_wrt (<) ks
         \<and> TreeMap_size (TreeMap_run ops) = int (length ks)
         \<and> TreeMap_keys (TreeMap_erase k (TreeMap_run ops)) = Some (filter (\<lambda>x. x \<noteq> k) ks))
   \<and> \<not> TreeMap_contains (TreeMap_erase k (TreeMap_run ops)) k
   \<and> (l \<noteq> TNil \<and> r \<noteq> TNil \<longrightarrow>
        (\<exists>k' v' r'. eraseRoot (TNode l x v r) = TNode l k' v' r'
                    \<and> keys_inorder r = k' # keys_inorder r'))
   \<and> (\<exists>es. TreeSet_elems (TreeSet_run sops) = Some es \<and> sorted_wrt (<) es
         \<and> TreeSet_elems (TreeSet_erase e (TreeSet_run sops)) = Some (filter (\<lambda>x. x \<noteq> e) es))
   \<and> \<not> TreeSet_contains (TreeSet_erase e (TreeSet_run sops)) e
   \<and> (sl \<noteq> SNil \<and> sr \<noteq> SNil \<longrightarrow>
        (\<exists>y' r'. TS_eraseRoot (SNode sl y sr) = SNode sl y' r'
                 \<and> elems_inorder sr = y' # elems_inorder r'))
   \<and> (TreeSet_contains (TreeSet_run sops) e \<longrightarrow>
        TreeSet_insert e (TreeSet_run sops) = TreeSet_run sops)"
proof -
  have i: "tm_inv (TreeMap_run ops)" by (rule tm_inv_run)
  have b: "ts_bst (TreeSet_run sops)" by (rule ts_bst_run)
  have 1: "\<exists>ks. TreeMap_keys (TreeMap_run ops) = Some ks \<and> sorted_wrt (<) ks
         \<and> TreeMap_size (TreeMap_run ops) = int (length ks)
         \<and> TreeMap_keys (TreeMap_erase k (TreeMap_run ops)) = Some (filter (\<lambda>x. x \<noteq> k) ks)"
    using i TreeMap_erase_keys(1)[OF i, of k]
    by (simp add: TreeMap_keys_inorder tm_inv_def bst_sorted TreeMap_size_def)
  have 2: "\<exists>es. TreeSet_elems (TreeSet_run sops) = Some es \<and> sorted_wrt (<) es
         \<and> TreeSet_elems (TreeSet_erase e (TreeSet_run sops)) = Some (filter (\<lambda>x. x \<noteq> e) es)"
    using b TreeSet_erase_elems(1)[OF b, of e]
    by (simp add: TreeSet_elems_inorder ts_bst_sorted)
  have 3: "TreeSet_contains (TreeSet_run sops) e \<longrightarrow>
        TreeSet_insert e (TreeSet_run sops) = TreeSet_run sops"
    by (simp add: TreeSet_contains_def TreeSet_insert_def TS_insertAux_present)
  show ?thesis
    using 1 2 3 TreeMap_erase_keys(2)[OF i, of k] TreeSet_erase_elems(2)[OF b, of e]
      eraseRoot_two_children[of l r x v] TS_eraseRoot_two_children[of sl sr y]
    by blast
qed

definition ex_map_ops :: "(int, int) map_op list" where
  "ex_map_ops = [MapInsert 2 20, MapInsert 1 10, MapInsert 3 30]"

definition ex_set_ops :: "int set_op list" where
  "ex_set_ops = [SetInsert 2, SetInsert 1, SetInsert 3]"

theorem tree_containers_ordered_witness:
  "TreeMap_run ex_map_ops = \<lparr>tm_root = TNode (TNode TNil 1 10 TNil) 2 20 (TNode TNil 3 30 TNil), tm_size = 3\<rparr>
   \<and> TreeMap_keys (TreeMap_run ex_map_ops) = Some [1, 2, 3]
   \<and> TreeMap_keys (TreeMap_erase 2 (TreeMap_run ex_map_ops)) = Some [1, 3]
   \<and> \<not> TreeMap_contains (TreeMap_erase 2 (TreeMap_run ex_map_ops)) 2
   \<and> eraseRoot (TNode (TNode TNil 1 10 TNil) 2 (20::int) (TNode TNil (3::int) 30 TNil))
       = TNode (TNode TNil 1 10 TNil) 3 30 TNil
   \<and> TreeSet_run ex_set_ops = SNode (SNode SNil 1 SNil) 2 (SNode SNil 3 SNil)
   \<and> TreeSet_elems (TreeSet_run ex_set_ops) = Some [1, 2, 3]
   \<and> TS_eraseRoot (SNode (SNode SNil 1 SNil) (2::int) (SNode SNil 3 SNil)) = SNode (SNode SNil 1 SNil) 3 SNil
   \<and> TreeSet_contains (TreeSet_run ex_set_ops) 2
   \<and> TreeSet_insert 2 (TreeSet_run ex_set_ops) = TreeSet_run ex_set_ops"
proof -
  have m: "TreeMap_run ex_map_ops = \<lparr>tm_root = TNode (TNode TNil 1 10 TNil) 2 20 (TNode TNil 3 30 TNil), tm_size = 3\<rparr>"
    by (simp add: TreeMap_run_def ex_map_ops_def TreeMap_new_def TreeMap_insert_def)
  have s: "TreeSet_run ex_set_ops = SNode (SNode SNil 1 SNil) 2 (SNode SNil 3 SNil)"
    by (simp add: TreeSet_run_def ex_set_ops_def TreeSet_new_def TreeSet_insert_def)
  have c: "TreeSet_contains (TreeSet_run ex_set_ops) 2"
    by (simp add: s TreeSet_contains_def)
  have nl: "TNode TNil (1::int) (10::int) TNil \<noteq> TNil" "SNode SNil (1::int) SNil \<noteq> SNil" by simp_all
  show ?thesis
    using tree_containers_ordered[of ex_map_ops 2 "TNode TNil 1 10 TNil" "TNode TNil 3 30 TNil" 2 20
        ex_set_ops 2 "SNode SNil 1 SNil" "SNode SNil 3 SNil" 2] c
    apply (simp add: m s)
    apply (simp add: TreeMap_keys_inorder TreeSet_elems_inorder TreeMap_erase_def)
    done
qed

section \<open>The type \<^verbatim>\<open>float\<close>\<close>

text \<open>
  \<^verbatim>\<open>HashMap::insert\<close> computes its occupation in \<^verbatim>\<open>float\<close>: IEEE 754 single precision, a
  significand of 24 bits, every conversion and operation rounded to the nearest value, ties
  to the even significand. A value is the rational number it stands for. \<open>float_exponent x\<close>
  is the \<open>e\<close> with \<open>2^e \<le> x < 2^(e+1)\<close>, \<open>ulp x\<close> the distance between the values of that
  binade, and \<open>float_round\<close> the rounding. The range of the exponent is not modelled: the
  values that occur (counters below \<open>2^32\<close>, their products by 100 and the quotients of
  these) are normal numbers.
\<close>

fun ilog2 :: "nat \<Rightarrow> nat" where
  "ilog2 n = (if n < 2 then 0 else Suc (ilog2 (n div 2)))"

declare ilog2.simps [simp del]

definition float_exponent :: "rat \<Rightarrow> int" where
  "float_exponent x =
     (if 1 \<le> x then int (ilog2 (nat \<lfloor>x\<rfloor>))
      else - int (Suc (ilog2 (nat \<lceil>1 / x\<rceil> - 1))))"

definition ulp :: "rat \<Rightarrow> rat" where
  "ulp x = 2 powi (float_exponent x - 23)"

definition round_half_even :: "rat \<Rightarrow> int" where
  "round_half_even m =
     (let f = \<lfloor>m\<rfloor>; d = m - of_int f
      in if d < 1 / 2 then f else if 1 / 2 < d then f + 1 else if even f then f else f + 1)"

definition float_round :: "rat \<Rightarrow> rat" where
  "float_round x =
     (if x = 0 then 0
      else sgn x * (of_int (round_half_even (\<bar>x\<bar> / ulp \<bar>x\<bar>)) * ulp \<bar>x\<bar>))"


subsection \<open>Rounding keeps the order and the values it can represent\<close>



















section \<open>HashMap.h: map on an open hash table\<close>

subsection \<open>The table\<close>

text \<open>
  \<^verbatim>\<open>Node **_bins\<close> is the list of the bins, each the list of the (key, value) pairs of its
  chain, first node first; every node has one owner. \<^verbatim>\<open>_binCount\<close> and \<^verbatim>\<open>_entryCount\<close> are
  \<^verbatim>\<open>unsigned int\<close>: 32-bit words. \<^verbatim>\<open>_hash\<close> gives the unsigned value that enters
  \<^verbatim>\<open>_hash(key) % _binCount\<close>. A remainder by zero and an index outside the array give
  \<open>None\<close>.
\<close>

record ('k, 'v) HashMap =
  hm_bins :: "('k \<times> 'v) list list"
  hm_hash :: "'k \<Rightarrow> nat"
  hm_binCount :: "32 word"
  hm_entryCount :: "32 word"


definition MAX_OCCUPATION :: "32 word" where
  "MAX_OCCUPATION = 80"


text \<open>\<^verbatim>\<open>unsigned int idx = _hash(key) % _binCount;\<close>\<close>

definition bin_index :: "('k, 'v) HashMap \<Rightarrow> 'k \<Rightarrow> nat option" where
  "bin_index m key =
     (if hm_binCount m = 0 then None else Some (hm_hash m key mod unat (hm_binCount m)))"

text \<open>\<^verbatim>\<open>_bins[idx]\<close>\<close>

definition bins_at :: "('k, 'v) HashMap \<Rightarrow> nat \<Rightarrow> ('k \<times> 'v) list option" where
  "bins_at m idx = (if idx < length (hm_bins m) then Some (hm_bins m ! idx) else None)"

text \<open>
  \<^verbatim>\<open>findWithPrevious\<close> walks the chain to the first node with the key; the result is its
  position in the chain (the node before it is \<^verbatim>\<open>prev\<close>), or \<open>None\<close> for a null
  \<^verbatim>\<open>current\<close>. \<^verbatim>\<open>findNode\<close> returns the same node.
\<close>

fun findWithPrevious :: "'k \<Rightarrow> ('k \<times> 'v) list \<Rightarrow> nat option" where
  "findWithPrevious key [] = None"
| "findWithPrevious key (n # rest) =
     (if fst n = key then Some 0 else map_option Suc (findWithPrevious key rest))"

definition findNode :: "'k \<Rightarrow> ('k \<times> 'v) list \<Rightarrow> nat option" where
  "findNode key chain = findWithPrevious key chain"

subsection \<open>Growth\<close>

text \<open>
  The inner loop of \<^verbatim>\<open>grow()\<close> moves the nodes of one old chain, first node first, each to
  the front of its new bin; the outer loop does so for the old bins in order.
\<close>

fun move_chain :: "('k \<times> 'v) list \<Rightarrow> ('k, 'v) HashMap \<Rightarrow> ('k, 'v) HashMap option" where
  "move_chain [] m = Some m"
| "move_chain (aux # n) m =
     do {
       idx \<leftarrow> bin_index m (fst aux);
       chain \<leftarrow> bins_at m idx;
       move_chain n (m\<lparr>hm_bins := (hm_bins m)[idx := aux # chain]\<rparr>)
     }"

fun move_bins :: "('k \<times> 'v) list list \<Rightarrow> ('k, 'v) HashMap \<Rightarrow> ('k, 'v) HashMap option" where
  "move_bins [] m = Some m"
| "move_bins (chain # oldBins) m = do { m1 \<leftarrow> move_chain chain m; move_bins oldBins m1 }"

definition grow :: "('k, 'v) HashMap \<Rightarrow> ('k, 'v) HashMap option" where
  "grow m =
     (let oldBins = hm_bins m;
          oldBinCount = hm_binCount m;
          m1 = m\<lparr>hm_binCount := hm_binCount m * 2\<rparr>;
          m2 = m1\<lparr>hm_bins := replicate (unat (hm_binCount m1)) []\<rparr>
      in if unat oldBinCount \<le> length oldBins
         then move_bins (take (unat oldBinCount) oldBins) m2
         else None)"

subsection \<open>Operations\<close>

text \<open>
  \<^verbatim>\<open>float occupation = 100 * ((float) _entryCount) / _binCount;\<close> and the test
  \<^verbatim>\<open>occupation > MAX_OCCUPATION\<close>: the count is converted, the product with 100 rounded,
  the number of bins converted, the quotient rounded, and the limit converted for the
  comparison. With no bins the quotient is \<^verbatim>\<open>+inf\<close>, above every limit, or \<^verbatim>\<open>NaN\<close> for no
  entries, above none.
\<close>

definition float_of_unsigned :: "32 word \<Rightarrow> rat" where
  "float_of_unsigned w = float_round (of_nat (unat w))"

definition occupation :: "('k, 'v) HashMap \<Rightarrow> rat" where
  "occupation m =
     float_round (float_round (100 * float_of_unsigned (hm_entryCount m))
                    / float_of_unsigned (hm_binCount m))"

definition occupation_above :: "('k, 'v) HashMap \<Rightarrow> 32 word \<Rightarrow> bool" where
  "occupation_above m limit =
     (if hm_binCount m = 0 then hm_entryCount m \<noteq> 0
      else float_of_unsigned limit < occupation m)"

definition HashMap_insert :: "'k \<Rightarrow> 'v \<Rightarrow> ('k, 'v) HashMap \<Rightarrow> ('k, 'v) HashMap option" where
  "HashMap_insert key val m =
     do {
       m1 \<leftarrow> (if occupation_above m MAX_OCCUPATION then grow m else Some m);
       idx \<leftarrow> bin_index m1 key;
       chain \<leftarrow> bins_at m1 idx;
       (case findNode key chain of
          Some i \<Rightarrow> Some (m1\<lparr>hm_bins := (hm_bins m1)[idx := chain[i := (fst (chain ! i), val)]]\<rparr>)
        | None \<Rightarrow>
            Some (m1\<lparr>hm_bins := (hm_bins m1)[idx := (key, val) # chain],
                     hm_entryCount := hm_entryCount m1 + 1\<rparr>))
     }"





definition HashMap_empty :: "('k, 'v) HashMap \<Rightarrow> bool" where
  "HashMap_empty m = (hm_entryCount m = 0)"

subsection \<open>The occupation test\<close>

text \<open>
  What the test says of the counters: it is never true with \<open>2^31\<close> bins and fewer than
  \<open>2^30\<close> entries; with a power of two for the number of bins and fewer than \<open>2^24\<close>
  entries it lies between the exact comparisons with 80 and 81; and it is the exact
  comparison while \<open>100 * _entryCount\<close> is below \<open>2^24\<close>. With 13421773 entries in \<open>2^24\<close>
  bins the product \<open>1342177300\<close> is rounded to \<open>1342177280\<close> and the occupation is 80.
\<close>

lemma float_round_0 [simp]: "float_round 0 = 0"
  by (simp add: float_round_def)

















subsection \<open>Well-formed tables\<close>







lemma fwp_None: "findWithPrevious key chain = None \<longleftrightarrow> key \<notin> fst ` set chain"
  by (induction chain) auto
























subsection \<open>Growth keeps the entries\<close>






subsection \<open>Sequences of operations\<close>

text \<open>
  A client's calls of \<^verbatim>\<open>insert\<close> and \<^verbatim>\<open>erase\<close>, run in order. \<open>spec_run\<close> is what the
  specification says of them: \<^verbatim>\<open>insert(k, v)\<close> binds \<open>k\<close> to \<open>v\<close>, \<^verbatim>\<open>erase(k)\<close> removes
  \<open>k\<close>.
\<close>

datatype ('k, 'v) hm_op = HmInsert 'k 'v | HmErase 'k



fun spec_apply :: "('k, 'v) hm_op \<Rightarrow> ('k \<rightharpoonup> 'v) \<Rightarrow> ('k \<rightharpoonup> 'v)" where
  "spec_apply (HmInsert k v) f = f(k \<mapsto> v)"
| "spec_apply (HmErase k) f = f(k := None)"

definition spec_run :: "('k, 'v) hm_op list \<Rightarrow> ('k \<rightharpoonup> 'v) \<Rightarrow> ('k \<rightharpoonup> 'v)" where
  "spec_run ops f = fold spec_apply ops f"






lemma spec_run_append: "spec_run (xs @ ys) f = spec_run ys (spec_run xs f)"
  by (simp add: spec_run_def)





text \<open>
  The counters are \<^verbatim>\<open>unsigned int\<close>: doubling \<open>2^31\<close> bins gives no bins, and an \<^verbatim>\<open>insert\<close>
  that grows such a table computes a remainder by zero. The runs below are shorter.
\<close>

lemma move_chain_binCount:
  "move_chain c m = Some m' \<Longrightarrow> hm_binCount m' = hm_binCount m"
proof (induction c arbitrary: m)
  case Nil
  then show ?case by simp
next
  case (Cons aux n)
  then show ?case by (auto split: bind_splits)
qed

lemma move_bins_binCount:
  "move_bins bs m = Some m' \<Longrightarrow> hm_binCount m' = hm_binCount m"
proof (induction bs arbitrary: m)
  case Nil
  then show ?case by simp
next
  case (Cons c bs)
  then show ?case using move_chain_binCount by (fastforce split: bind_splits)
qed

lemma HashMap_insert_wraps:
  assumes "hm_binCount m = 2 ^ 31" "occupation_above m MAX_OCCUPATION"
  shows "HashMap_insert key val m = None"
proof (cases "grow m")
  case None
  then show ?thesis using assms(2) by (simp add: HashMap_insert_def)
next
  case (Some g)
  have "hm_binCount m * 2 = 0" using assms(1) by simp
  then have "hm_binCount g = 0"
    using Some move_bins_binCount[of _ _ g] by (auto simp: grow_def Let_def split: if_splits)
  then have "bin_index g key = None" by (simp add: bin_index_def)
  then show ?thesis using assms(2) Some by (simp add: HashMap_insert_def)
qed








subsection \<open>A table above 80% that does not grow\<close>












section \<open>BinTree.h: the reference counts\<close>

text \<open>
  The handles that a program holds are counted in a multiset \<open>R\<close> of addresses: one
  occurrence for every \<^verbatim>\<open>BinTree\<close> object whose \<^verbatim>\<open>_root\<close> is that address. The child
  pointers of the nodes that are in use are counted in \<open>links\<close>. \<open>Inv h R\<close> says that every
  \<^verbatim>\<open>_refs\<close> is the number of handles and child pointers that point to the node, that
  everything pointed to is allocated, and that children are older than their parents (a
  node is built from trees that exist). Inside \<^verbatim>\<open>free\<close> a node whose count is 0 is still
  allocated for a moment; its child pointers no longer count.
\<close>

definition ptr_mset :: "ptr \<Rightarrow> addr multiset" where
  "ptr_mset p = (case p of None \<Rightarrow> {#} | Some a \<Rightarrow> {#a#})"

definition children :: "'a Node \<Rightarrow> addr multiset" where
  "children nd = ptr_mset (n_left nd) + ptr_mset (n_right nd)"

definition out_links :: "'a heap \<Rightarrow> addr \<Rightarrow> addr multiset" where
  "out_links h b =
     (case cells h b of
        None \<Rightarrow> {#}
      | Some nd \<Rightarrow> if 0 < n_refs nd then children nd else {#})"

definition links :: "'a heap \<Rightarrow> addr multiset" where
  "links h = (\<Sum>b<brk h. out_links h b)"

definition Inv :: "'a heap \<Rightarrow> addr multiset \<Rightarrow> bool" where
  "Inv h R =
     (dom (cells h) \<subseteq> {..<brk h}
      \<and> (\<forall>a nd. cells h a = Some nd \<longrightarrow> n_refs nd = int (count (R + links h) a))
      \<and> (\<forall>a. a \<in># R + links h \<longrightarrow> a \<in> dom (cells h))
      \<and> (\<forall>b nd c. cells h b = Some nd \<longrightarrow> c \<in># children nd \<longrightarrow> c < b))"

lemma ptr_mset_simps [simp]: "ptr_mset None = {#}" "ptr_mset (Some a) = {#a#}"
  by (simp_all add: ptr_mset_def)

lemma links_cong:
  assumes "brk h' = brk h" "\<And>b. b < brk h \<Longrightarrow> out_links h' b = out_links h b"
  shows "links h' = links h"
  unfolding links_def using assms by simp

lemma links_change_one:
  assumes "brk h' = brk h" "p < brk h"
    and "\<And>b. b < brk h \<Longrightarrow> b \<noteq> p \<Longrightarrow> out_links h' b = out_links h b"
  shows "links h' + out_links h p = links h + out_links h' p"
proof -
  have f: "finite {..<brk h}" "p \<in> {..<brk h}" using assms(2) by auto
  have "links h = out_links h p + (\<Sum>b\<in>{..<brk h} - {p}. out_links h b)"
    unfolding links_def by (rule sum.remove[OF f])
  moreover have "links h' = out_links h' p + (\<Sum>b\<in>{..<brk h} - {p}. out_links h' b)"
    unfolding links_def assms(1) by (rule sum.remove[OF f])
  moreover have "(\<Sum>b\<in>{..<brk h} - {p}. out_links h' b) = (\<Sum>b\<in>{..<brk h} - {p}. out_links h b)"
    by (rule sum.cong) (use assms(3) in auto)
  ultimately show ?thesis by (simp add: ac_simps)
qed

subsection \<open>Changing one count\<close>

definition set_refs :: "addr \<Rightarrow> int \<Rightarrow> 'a heap \<Rightarrow> 'a heap" where
  "set_refs p r h =
     (case cells h p of
        None \<Rightarrow> h
      | Some nd \<Rightarrow> h\<lparr>cells := (cells h)(p \<mapsto> nd\<lparr>n_refs := r\<rparr>)\<rparr>)"

lemma set_refs_simps:
  assumes "cells h p = Some nd"
  shows "brk (set_refs p r h) = brk h"
    and "cells (set_refs p r h) p = Some (nd\<lparr>n_refs := r\<rparr>)"
    and "a \<noteq> p \<Longrightarrow> cells (set_refs p r h) a = cells h a"
    and "dom (cells (set_refs p r h)) = dom (cells h)"
  using assms by (auto simp: set_refs_def)

lemma out_links_set_refs:
  assumes "cells h p = Some nd"
  shows "b \<noteq> p \<Longrightarrow> out_links (set_refs p r h) b = out_links h b"
    and "out_links (set_refs p r h) p = (if 0 < r then children nd else {#})"
  using assms by (auto simp: out_links_def set_refs_def children_def)

lemma rmRef_set_refs:
  "cells h p = Some nd \<Longrightarrow> 0 < n_refs nd \<Longrightarrow> rmRef p h = Some (set_refs p (n_refs nd - 1) h)"
  by (simp add: rmRef_def set_refs_def)

lemma addRef_set_refs:
  "cells h p = Some nd \<Longrightarrow> 0 \<le> n_refs nd \<Longrightarrow> addRef p h = Some (set_refs p (n_refs nd + 1) h)"
  by (simp add: addRef_def set_refs_def)

lemma links_set_refs:
  assumes "cells h p = Some nd" "p < brk h"
  shows "links (set_refs p r h) + out_links h p = links h + (if 0 < r then children nd else {#})"
  using links_change_one[of "set_refs p r h" h p]
    set_refs_simps(1)[OF assms(1)] out_links_set_refs[OF assms(1)] assms(2)
  by simp

lemma Inv_dom: "Inv h R \<Longrightarrow> cells h a = Some nd \<Longrightarrow> a < brk h"
  unfolding Inv_def by blast

lemma Inv_refs: "Inv h R \<Longrightarrow> cells h a = Some nd \<Longrightarrow> n_refs nd = int (count (R + links h) a)"
  unfolding Inv_def by blast

lemma Inv_ref_dom: "Inv h R \<Longrightarrow> a \<in># R + links h \<Longrightarrow> \<exists>nd. cells h a = Some nd"
  unfolding Inv_def by blast

lemma Inv_child: "Inv h R \<Longrightarrow> cells h b = Some nd \<Longrightarrow> c \<in># children nd \<Longrightarrow> c < b"
  unfolding Inv_def by blast

lemma Inv_set_refs_minus:
  assumes inv: "Inv h R" and c: "cells h p = Some nd"
    and T: "R' + links (set_refs p (n_refs nd - 1) h) + {#p#} = R + links h"
  shows "Inv (set_refs p (n_refs nd - 1) h) R'"
proof -
  let ?h' = "set_refs p (n_refs nd - 1) h"
  have sub: "R' + links ?h' \<subseteq># R + links h" using T by (metis mset_subset_eq_add_left)
  have cnt: "count (R' + links ?h') a = (if a = p then count (R + links h) a - 1 else count (R + links h) a)" for a
  proof -
    have "count (R' + links ?h' + {#p#}) a = count (R + links h) a" using T by simp
    then show ?thesis by (cases "a = p") auto
  qed
  have "p \<in># R' + links ?h' + {#p#}" by simp
  then have pin: "p \<in># R + links h" unfolding T .
  show ?thesis
    unfolding Inv_def
  proof (intro conjI allI impI)
    show "dom (cells ?h') \<subseteq> {..<brk ?h'}"
      using inv unfolding set_refs_simps[OF c] Inv_def by blast
  next
    fix a nd' assume a: "cells ?h' a = Some nd'"
    show "n_refs nd' = int (count (R' + links ?h') a)"
    proof (cases "a = p")
      case True
      then have "nd' = nd\<lparr>n_refs := n_refs nd - 1\<rparr>" using a set_refs_simps(2)[OF c] by simp
      then have r: "n_refs nd' = n_refs nd - 1" by simp
      define n where "n = count (R + links h) p"
      have n: "n_refs nd = int n" using inv c unfolding n_def Inv_def by blast
      have pos: "0 < n" using pin unfolding n_def by (rule iffD2[OF count_greater_zero_iff])
      have "count (R' + links ?h') p = n - 1" using cnt[of p] unfolding n_def by simp
      then show ?thesis using r n pos True by (simp only: of_nat_diff)
    next
      case False
      then have "cells h a = Some nd'" using a set_refs_simps(3)[OF c] by simp
      then have "n_refs nd' = int (count (R + links h) a)" using Inv_refs[OF inv] by blast
      then show ?thesis using cnt[of a] False by simp
    qed
  next
    fix a assume "a \<in># R' + links ?h'"
    then have "a \<in># R + links h" using sub by (meson mset_subset_eqD)
    then have "a \<in> dom (cells h)" using Inv_ref_dom[OF inv] by blast
    then show "a \<in> dom (cells ?h')" unfolding set_refs_simps(4)[OF c] .
  next
    fix b nd' ch assume b: "cells ?h' b = Some nd'" and ch: "ch \<in># children nd'"
    show "ch < b"
    proof (cases "b = p")
      case True
      then have "nd' = nd\<lparr>n_refs := n_refs nd - 1\<rparr>" using b set_refs_simps(2)[OF c] by simp
      then have "ch \<in># children nd" using ch by (simp add: children_def)
      then show ?thesis using Inv_child[OF inv c] True by blast
    next
      case False
      then have "cells h b = Some nd'" using b set_refs_simps(3)[OF c] by simp
      then show ?thesis using Inv_child[OF inv] ch by blast
    qed
  qed
qed

lemma Inv_set_refs_plus:
  assumes inv: "Inv h R" and c: "cells h p = Some nd"
    and T: "R' + links (set_refs p (n_refs nd + 1) h) = R + links h + {#p#}"
  shows "Inv (set_refs p (n_refs nd + 1) h) R'"
proof -
  let ?h' = "set_refs p (n_refs nd + 1) h"
  show ?thesis
    unfolding Inv_def
  proof (intro conjI allI impI)
    show "dom (cells ?h') \<subseteq> {..<brk ?h'}"
      using inv unfolding set_refs_simps[OF c] Inv_def by blast
  next
    fix a nd' assume a: "cells ?h' a = Some nd'"
    show "n_refs nd' = int (count (R' + links ?h') a)"
    proof (cases "a = p")
      case True
      then have "nd' = nd\<lparr>n_refs := n_refs nd + 1\<rparr>" using a set_refs_simps(2)[OF c] by simp
      moreover have "n_refs nd = int (count (R + links h) p)" using Inv_refs[OF inv c] .
      ultimately show ?thesis unfolding T using True by simp
    next
      case False
      then have "cells h a = Some nd'" using a set_refs_simps(3)[OF c] by simp
      then have "n_refs nd' = int (count (R + links h) a)" using Inv_refs[OF inv] by blast
      then show ?thesis unfolding T using False by simp
    qed
  next
    fix a assume "a \<in># R' + links ?h'"
    then have "a \<in># R + links h \<or> a = p" unfolding T by auto
    then have "a \<in> dom (cells h)" using Inv_ref_dom[OF inv] c by blast
    then show "a \<in> dom (cells ?h')" unfolding set_refs_simps(4)[OF c] .
  next
    fix b nd' ch assume b: "cells ?h' b = Some nd'" and ch: "ch \<in># children nd'"
    show "ch < b"
    proof (cases "b = p")
      case True
      then have "nd' = nd\<lparr>n_refs := n_refs nd + 1\<rparr>" using b set_refs_simps(2)[OF c] by simp
      then have "ch \<in># children nd" using ch by (simp add: children_def)
      then show ?thesis using Inv_child[OF inv c] True by blast
    next
      case False
      then have "cells h b = Some nd'" using b set_refs_simps(3)[OF c] by simp
      then show ?thesis using Inv_child[OF inv] ch by blast
    qed
  qed
qed

subsection \<open>What \<^verbatim>\<open>free(Node*)\<close> does\<close>

text \<open>
  \<open>shrinks h h'\<close>: the heap \<open>h'\<close> has lost nodes of \<open>h\<close> and changed counts, nothing else.
  \<open>free\<close> on a node whose count is above 1 only takes one off (\<open>drop_ref\<close>); on a node
  whose count is 1 (\<open>last_ref\<close>) it deletes the node after releasing both children.
\<close>

definition same_shape :: "'a Node \<Rightarrow> 'a Node \<Rightarrow> bool" where
  "same_shape nd nd' =
     (n_elem nd' = n_elem nd \<and> n_left nd' = n_left nd \<and> n_right nd' = n_right nd)"

definition shrinks :: "'a heap \<Rightarrow> 'a heap \<Rightarrow> bool" where
  "shrinks h h' =
     (brk h' = brk h
      \<and> (\<forall>a nd. cells h a = Some nd \<longrightarrow> n_refs nd = 0 \<longrightarrow> cells h' a = Some nd)
      \<and> (\<forall>a nd'. cells h' a = Some nd' \<longrightarrow>
            (\<exists>nd. cells h a = Some nd \<and> same_shape nd nd' \<and> (n_refs nd' = 0 \<longrightarrow> n_refs nd = 0))))"

lemma shrinks_refl: "shrinks h h"
  by (simp add: shrinks_def same_shape_def)

lemma shrinks_brk: "shrinks h h' \<Longrightarrow> brk h' = brk h"
  by (simp add: shrinks_def)

lemma shrinks_dead: "shrinks h h' \<Longrightarrow> cells h a = Some nd \<Longrightarrow> n_refs nd = 0 \<Longrightarrow> cells h' a = Some nd"
  unfolding shrinks_def by blast

lemma shrinks_survivor:
  "shrinks h h' \<Longrightarrow> cells h' a = Some nd' \<Longrightarrow>
     \<exists>nd. cells h a = Some nd \<and> same_shape nd nd' \<and> (n_refs nd' = 0 \<longrightarrow> n_refs nd = 0)"
  unfolding shrinks_def by blast

lemma same_shape_trans: "same_shape a b \<Longrightarrow> same_shape b c \<Longrightarrow> same_shape a c"
  by (simp add: same_shape_def)

lemma shrinks_trans:
  assumes "shrinks h1 h2" "shrinks h2 h3"
  shows "shrinks h1 h3"
  unfolding shrinks_def
proof (intro conjI allI impI)
  show "brk h3 = brk h1" using assms by (simp add: shrinks_def)
next
  fix a nd assume "cells h1 a = Some nd" "n_refs nd = 0"
  then show "cells h3 a = Some nd" using assms shrinks_dead by metis
next
  fix a nd3 assume "cells h3 a = Some nd3"
  then obtain nd2 where 2: "cells h2 a = Some nd2" "same_shape nd2 nd3" "n_refs nd3 = 0 \<longrightarrow> n_refs nd2 = 0"
    using shrinks_survivor[OF assms(2)] by blast
  then obtain nd1 where 1: "cells h1 a = Some nd1" "same_shape nd1 nd2" "n_refs nd2 = 0 \<longrightarrow> n_refs nd1 = 0"
    using shrinks_survivor[OF assms(1)] by blast
  show "\<exists>nd. cells h1 a = Some nd \<and> same_shape nd nd3 \<and> (n_refs nd3 = 0 \<longrightarrow> n_refs nd = 0)"
    using 1 2 same_shape_trans by blast
qed

lemma free_None: "free None h = Some h"
  by (subst free.simps) simp

lemma free_Some_live:
  assumes "cells h p = Some nd" "1 < n_refs nd"
  shows "free (Some p) h = Some (set_refs p (n_refs nd - 1) h)"
  using assms rmRef_set_refs[of h p nd] set_refs_simps(2)[OF assms(1), of "n_refs nd - 1"]
  by (subst free.simps) simp

lemma free_Some_last:
  assumes "cells h p = Some nd" "n_refs nd = 1"
    and "free (n_left nd) (set_refs p 0 h) = Some h2"
    and "cells h2 p = Some (nd\<lparr>n_refs := 0\<rparr>)"
    and "free (n_right nd) h2 = Some h3"
  shows "free (Some p) h = Some (h3\<lparr>cells := (cells h3)(p := None)\<rparr>)"
  using assms rmRef_set_refs[of h p nd] set_refs_simps(2)[OF assms(1), of 0]
  by (subst free.simps) simp

lemma Inv_delete_dead:
  assumes inv: "Inv h R" and c: "cells h p = Some nd" and dead: "n_refs nd = 0"
  shows "Inv (h\<lparr>cells := (cells h)(p := None)\<rparr>) R"
proof -
  let ?h' = "h\<lparr>cells := (cells h)(p := None)\<rparr>"
  have ol: "out_links ?h' b = out_links h b" for b
    using c dead by (simp add: out_links_def)
  have l: "links ?h' = links h" by (rule links_cong) (simp_all add: ol)
  have "count (R + links h) p = 0" using Inv_refs[OF inv c] dead by simp
  then have notin: "p \<notin># R + links h" by (rule iffD1[OF count_eq_zero_iff])
  show ?thesis
    unfolding Inv_def l
  proof (intro conjI allI impI)
    show "dom (cells ?h') \<subseteq> {..<brk ?h'}" using inv unfolding Inv_def by auto
  next
    fix a nd' assume "cells ?h' a = Some nd'"
    then have "cells h a = Some nd'" by (simp split: if_splits)
    then show "n_refs nd' = int (count (R + links h) a)" using Inv_refs[OF inv] by blast
  next
    fix a assume a: "a \<in># R + links h"
    then have "a \<noteq> p" using notin by blast
    moreover have "a \<in> dom (cells h)" using Inv_ref_dom[OF inv a] by blast
    ultimately show "a \<in> dom (cells ?h')" by simp
  next
    fix b nd' ch assume "cells ?h' b = Some nd'" "ch \<in># children nd'"
    moreover then have "cells h b = Some nd'" by (simp split: if_splits)
    ultimately show "ch < b" using Inv_child[OF inv] by blast
  qed
qed

definition last_ref :: "'a heap \<Rightarrow> addr \<Rightarrow> bool" where
  "last_ref h p = (\<exists>nd. cells h p = Some nd \<and> n_refs nd = 1)"

definition drop_ref :: "addr \<Rightarrow> 'a heap \<Rightarrow> 'a heap" where
  "drop_ref p h = (case cells h p of None \<Rightarrow> h | Some nd \<Rightarrow> set_refs p (n_refs nd - 1) h)"

lemma free_correct_Some:
  "Inv h R \<Longrightarrow> p \<in># R \<Longrightarrow>
     \<exists>h'. free (Some p) h = Some h' \<and> Inv h' (R - {#p#}) \<and> shrinks h h'
        \<and> (if last_ref h p then cells h' p = None else h' = drop_ref p h)"
proof (induction p arbitrary: h R rule: less_induct)
  case (less p)
  have child: "\<exists>h'. free c h0 = Some h' \<and> Inv h' (R0 - ptr_mset c) \<and> shrinks h0 h'"
    if "Inv h0 R0" "ptr_mset c \<subseteq># R0" "\<forall>a. c = Some a \<longrightarrow> a < p"
    for c and h0 :: "'a heap" and R0
  proof (cases c)
    case None
    then show ?thesis using that(1) by (simp add: free_None shrinks_refl)
  next
    case (Some a)
    then have "a \<in># R0" "a < p" using that(2,3) by auto
    then show ?thesis using less.IH[of a h0 R0] that(1) Some by auto
  qed
  have pin: "p \<in># R + links h" using less.prems(2) by simp
  obtain nd where c: "cells h p = Some nd" using Inv_ref_dom[OF less.prems(1) pin] by blast
  have refs: "n_refs nd = int (count (R + links h) p)" using Inv_refs[OF less.prems(1) c] .
  have "0 < count (R + links h) p" using pin by (rule iffD2[OF count_greater_zero_iff])
  then have pos: "0 < n_refs nd" unfolding refs by (rule iffD2[OF of_nat_0_less_iff])
  have pb: "p < brk h" using Inv_dom[OF less.prems(1) c] .
  have olp: "out_links h p = children nd" using c pos by (simp add: out_links_def)
  show ?case
  proof (cases "n_refs nd = 1")
    case False
    then have big: "1 < n_refs nd" using pos by simp
    let ?h1 = "set_refs p (n_refs nd - 1) h"
    have f: "free (Some p) h = Some ?h1" using free_Some_live[OF c big] .
    have "links ?h1 + out_links h p = links h + children nd"
      using links_set_refs[OF c pb, of "n_refs nd - 1"] big by simp
    then have l: "links ?h1 = links h" using olp by simp
    have "R - {#p#} + links ?h1 + {#p#} = R + links h" using less.prems(2) l by simp
    then have inv1: "Inv ?h1 (R - {#p#})" by (rule Inv_set_refs_minus[OF less.prems(1) c])
    have "shrinks h ?h1"
      unfolding shrinks_def
    proof (intro conjI allI impI)
      show "brk ?h1 = brk h" using set_refs_simps(1)[OF c] .
    next
      fix a nd0 assume a: "cells h a = Some nd0" "n_refs nd0 = 0"
      then have "a \<noteq> p" using c pos by auto
      then show "cells ?h1 a = Some nd0" using a set_refs_simps(3)[OF c] by simp
    next
      fix a nd' assume a: "cells ?h1 a = Some nd'"
      show "\<exists>nd. cells h a = Some nd \<and> same_shape nd nd' \<and> (n_refs nd' = 0 \<longrightarrow> n_refs nd = 0)"
      proof (cases "a = p")
        case True
        then have "nd' = nd\<lparr>n_refs := n_refs nd - 1\<rparr>" using a set_refs_simps(2)[OF c] by simp
        then show ?thesis using c True big by (simp add: same_shape_def)
      next
        case False
        then have "cells h a = Some nd'" using a set_refs_simps(3)[OF c] by simp
        then show ?thesis by (simp add: same_shape_def)
      qed
    qed
    moreover have "\<not> last_ref h p" using c False by (simp add: last_ref_def)
    moreover have "drop_ref p h = ?h1" using c by (simp add: drop_ref_def)
    ultimately show ?thesis using f inv1 by auto
  next
    case True
    let ?h1 = "set_refs p 0 h"
    let ?nd0 = "nd\<lparr>n_refs := 0\<rparr>"
    let ?R1 = "R - {#p#} + children nd"
    have c1: "cells ?h1 p = Some ?nd0" using set_refs_simps(2)[OF c] .
    have "links ?h1 + out_links h p = links h + {#}"
      using links_set_refs[OF c pb, of 0] by simp
    then have l: "links ?h1 + children nd = links h" using olp by simp
    have "?R1 + links ?h1 + {#p#} = R - {#p#} + {#p#} + (links ?h1 + children nd)"
      by (simp add: ac_simps)
    also have "\<dots> = R + links h" using less.prems(2) l by simp
    finally have "?R1 + links (set_refs p (n_refs nd - 1) h) + {#p#} = R + links h"
      using True by simp
    then have "Inv (set_refs p (n_refs nd - 1) h) ?R1"
      by (rule Inv_set_refs_minus[OF less.prems(1) c])
    then have inv1: "Inv ?h1 ?R1" using True by simp
    have chl: "\<forall>a. n_left nd = Some a \<longrightarrow> a < p" "\<forall>a. n_right nd = Some a \<longrightarrow> a < p"
      using Inv_child[OF less.prems(1) c] by (auto simp: children_def)
    have "ptr_mset (n_left nd) \<subseteq># ?R1" by (simp add: children_def)
    from child[OF inv1 this chl(1)] obtain h2 where
      h2: "free (n_left nd) ?h1 = Some h2" "Inv h2 (?R1 - ptr_mset (n_left nd))" "shrinks ?h1 h2"
      by blast
    have R2: "?R1 - ptr_mset (n_left nd) = R - {#p#} + ptr_mset (n_right nd)"
      by (simp add: children_def)
    have c2: "cells h2 p = Some ?nd0" using shrinks_dead[OF h2(3) c1] by simp
    have "ptr_mset (n_right nd) \<subseteq># R - {#p#} + ptr_mset (n_right nd)" by simp
    from child[OF h2(2)[unfolded R2] this chl(2)] obtain h3 where
      h3: "free (n_right nd) h2 = Some h3" "Inv h3 (R - {#p#})" "shrinks h2 h3"
      by auto
    have c3: "cells h3 p = Some ?nd0" using shrinks_dead[OF h3(3) c2] by simp
    let ?h4 = "h3\<lparr>cells := (cells h3)(p := None)\<rparr>"
    have f: "free (Some p) h = Some ?h4" using free_Some_last[OF c True h2(1) c2 h3(1)] .
    have inv4: "Inv ?h4 (R - {#p#})" using Inv_delete_dead[OF h3(2) c3] by simp
    have s13: "shrinks ?h1 h3" using shrinks_trans[OF h2(3) h3(3)] .
    have "shrinks h ?h4"
      unfolding shrinks_def
    proof (intro conjI allI impI)
      show "brk ?h4 = brk h" using shrinks_brk[OF s13] set_refs_simps(1)[OF c] by simp
    next
      fix a nd0 assume a: "cells h a = Some nd0" "n_refs nd0 = 0"
      then have ap: "a \<noteq> p" using c pos by auto
      then have "cells ?h1 a = Some nd0" using a set_refs_simps(3)[OF c] by simp
      then have "cells h3 a = Some nd0" using shrinks_dead[OF s13] a(2) by blast
      then show "cells ?h4 a = Some nd0" using ap by simp
    next
      fix a nd' assume a: "cells ?h4 a = Some nd'"
      then have ap: "a \<noteq> p" and a3: "cells h3 a = Some nd'" by (auto split: if_splits)
      from shrinks_survivor[OF s13 a3] obtain nd1 where
        1: "cells ?h1 a = Some nd1" "same_shape nd1 nd'" "n_refs nd' = 0 \<longrightarrow> n_refs nd1 = 0"
        by blast
      have "cells h a = Some nd1" using 1(1) ap set_refs_simps(3)[OF c] by simp
      then show "\<exists>nd. cells h a = Some nd \<and> same_shape nd nd' \<and> (n_refs nd' = 0 \<longrightarrow> n_refs nd = 0)"
        using 1 by blast
    qed
    moreover have "last_ref h p" using c True by (simp add: last_ref_def)
    moreover have "cells ?h4 p = None" by simp
    ultimately show ?thesis using f inv4 by auto
  qed
qed

lemma free_correct:
  assumes "Inv h R" "ptr_mset t \<subseteq># R"
  shows "\<exists>h'. free t h = Some h' \<and> Inv h' (R - ptr_mset t) \<and> shrinks h h'"
proof (cases t)
  case None
  then show ?thesis using assms(1) by (simp add: free_None shrinks_refl)
next
  case (Some p)
  then have "p \<in># R" using assms(2) by simp
  then show ?thesis using free_correct_Some[OF assms(1), of p] Some by auto
qed

subsection \<open>Heaps between two public calls\<close>

text \<open>
  Between two calls no node has count 0: \<open>wf_heap\<close>. \<open>extends h h'\<close>: every node of \<open>h\<close> is
  in \<open>h'\<close> with the same element and children.
\<close>

definition wf_heap :: "'a heap \<Rightarrow> addr multiset \<Rightarrow> bool" where
  "wf_heap h R = (Inv h R \<and> (\<forall>a nd. cells h a = Some nd \<longrightarrow> 0 < n_refs nd))"

definition extends :: "'a heap \<Rightarrow> 'a heap \<Rightarrow> bool" where
  "extends h h' = (\<forall>a nd. cells h a = Some nd \<longrightarrow> (\<exists>nd'. cells h' a = Some nd' \<and> same_shape nd nd'))"

lemma extends_refl: "extends h h"
  by (simp add: extends_def same_shape_def)

lemma extends_trans: "extends h1 h2 \<Longrightarrow> extends h2 h3 \<Longrightarrow> extends h1 h3"
  unfolding extends_def by (meson same_shape_trans)

lemma same_shape_sym: "same_shape a b \<Longrightarrow> same_shape b a"
  by (simp add: same_shape_def)

lemma shrinks_extends: "shrinks h h' \<Longrightarrow> extends h' h"
  unfolding extends_def using shrinks_survivor same_shape_sym by meson

lemma wf_heap_Inv: "wf_heap h R \<Longrightarrow> Inv h R"
  by (simp add: wf_heap_def)

lemma wf_heap_live: "wf_heap h R \<Longrightarrow> cells h a = Some nd \<Longrightarrow> 0 < n_refs nd"
  unfolding wf_heap_def by blast

lemma Inv_nonneg: "Inv h R \<Longrightarrow> cells h a = Some nd \<Longrightarrow> 0 \<le> n_refs nd"
  using Inv_refs by fastforce

lemma wf_heap_free:
  assumes "wf_heap h R" "ptr_mset t \<subseteq># R"
  shows "\<exists>h'. free t h = Some h' \<and> wf_heap h' (R - ptr_mset t) \<and> shrinks h h'"
proof -
  from free_correct[OF wf_heap_Inv[OF assms(1)] assms(2)] obtain h' where
    h': "free t h = Some h'" "Inv h' (R - ptr_mset t)" "shrinks h h'" by blast
  have "0 < n_refs nd'" if c: "cells h' a = Some nd'" for a nd'
  proof -
    from shrinks_survivor[OF h'(3) c] obtain nd where
      nd: "cells h a = Some nd" "n_refs nd' = 0 \<longrightarrow> n_refs nd = 0" by blast
    have "n_refs nd' \<noteq> 0" using nd wf_heap_live[OF assms(1) nd(1)] by auto
    then show ?thesis using Inv_nonneg[OF h'(2) c] by simp
  qed
  then show ?thesis using h' unfolding wf_heap_def by blast
qed

lemma extends_set_refs: "extends h (set_refs p r h)"
  unfolding extends_def
proof (intro allI impI)
  fix a nd assume a: "cells h a = Some nd"
  show "\<exists>nd'. cells (set_refs p r h) a = Some nd' \<and> same_shape nd nd'"
  proof (cases "a = p")
    case True
    then show ?thesis using a set_refs_simps(2)[OF a, of r] by (simp add: same_shape_def)
  next
    case False
    obtain x where "cells h p = Some x \<or> cells h p = None" by auto
    then show ?thesis using a False by (auto simp: set_refs_def same_shape_def split: option.splits)
  qed
qed

lemma set_refs_extends: "extends (set_refs p r h) h"
  unfolding extends_def
  by (auto simp: set_refs_def same_shape_def split: option.splits if_splits)

lemma wf_heap_addRef:
  assumes w: "wf_heap h R" and p: "p \<in># R + links h"
  shows "\<exists>h'. addRef p h = Some h' \<and> wf_heap h' (R + {#p#}) \<and> extends h h' \<and> extends h' h
           \<and> brk h' = brk h"
proof -
  have inv: "Inv h R" using wf_heap_Inv[OF w] .
  obtain nd where c: "cells h p = Some nd" using Inv_ref_dom[OF inv p] by blast
  have pos: "0 < n_refs nd" using wf_heap_live[OF w c] .
  let ?h' = "set_refs p (n_refs nd + 1) h"
  have a: "addRef p h = Some ?h'" using addRef_set_refs[OF c] pos by simp
  have "links ?h' + out_links h p = links h + children nd"
    using links_set_refs[OF c Inv_dom[OF inv c], of "n_refs nd + 1"] pos by simp
  moreover have "out_links h p = children nd" using c pos by (simp add: out_links_def)
  ultimately have l: "links ?h' = links h" by simp
  have "R + {#p#} + links ?h' = R + links h + {#p#}" using l by simp
  then have inv': "Inv ?h' (R + {#p#})" by (rule Inv_set_refs_plus[OF inv c])
  have "0 < n_refs nd'" if "cells ?h' b = Some nd'" for b nd'
  proof (cases "b = p")
    case True
    then show ?thesis using that set_refs_simps(2)[OF c, of "n_refs nd + 1"] pos by auto
  next
    case False
    then show ?thesis using that set_refs_simps(3)[OF c] wf_heap_live[OF w] by metis
  qed
  then have "wf_heap ?h' (R + {#p#})" using inv' unfolding wf_heap_def by blast
  then show ?thesis
    using a extends_set_refs set_refs_extends set_refs_simps(1)[OF c] by blast
qed

lemma wf_heap_addRef_ptr:
  assumes w: "wf_heap h R" and p: "ptr_mset t \<subseteq># R + links h"
  shows "\<exists>h'. addRef_ptr t h = Some h' \<and> wf_heap h' (R + ptr_mset t) \<and> extends h h' \<and> extends h' h
           \<and> brk h' = brk h"
proof (cases t)
  case None
  then show ?thesis using w by (simp add: addRef_ptr_def extends_refl)
next
  case (Some a)
  then have "a \<in># R + links h" using p by (simp del: union_iff)
  then show ?thesis using wf_heap_addRef[OF w] Some by (simp add: addRef_ptr_def)
qed

lemma Inv_addRef_live:
  assumes inv: "Inv h R" and c: "cells h p = Some nd" and pos: "0 < n_refs nd"
  shows "addRef p h = Some (set_refs p (n_refs nd + 1) h)"
    and "Inv (set_refs p (n_refs nd + 1) h) (R + {#p#})"
    and "links (set_refs p (n_refs nd + 1) h) = links h"
proof -
  let ?h' = "set_refs p (n_refs nd + 1) h"
  show "addRef p h = Some ?h'" using addRef_set_refs[OF c] pos by simp
  have "links ?h' + out_links h p = links h + children nd"
    using links_set_refs[OF c Inv_dom[OF inv c], of "n_refs nd + 1"] pos by simp
  moreover have "out_links h p = children nd" using c pos by (simp add: out_links_def)
  ultimately show l: "links ?h' = links h" by simp
  have "R + {#p#} + links ?h' = R + links h + {#p#}" using l by simp
  then show "Inv ?h' (R + {#p#})" by (rule Inv_set_refs_plus[OF inv c])
qed

lemma Inv_addRef_ptr_live:
  assumes inv: "Inv h R" and t: "\<forall>a. t = Some a \<longrightarrow> (\<exists>nd. cells h a = Some nd \<and> 0 < n_refs nd)"
  shows "\<exists>h'. addRef_ptr t h = Some h' \<and> Inv h' (R + ptr_mset t) \<and> links h' = links h
           \<and> brk h' = brk h \<and> extends h h' \<and> extends h' h
           \<and> (\<forall>a nd. cells h a = Some nd \<longrightarrow> (\<exists>nd'. cells h' a = Some nd' \<and> n_refs nd \<le> n_refs nd'))
           \<and> (\<forall>a nd. cells h a = Some nd \<longrightarrow> a \<notin># ptr_mset t \<longrightarrow> cells h' a = Some nd)
           \<and> (\<forall>a nd'. cells h' a = Some nd' \<longrightarrow> (\<exists>nd. cells h a = Some nd \<and> n_refs nd \<le> n_refs nd'))"
proof (cases t)
  case None
  then show ?thesis using inv by (auto simp: addRef_ptr_def extends_refl)
next
  case (Some p)
  then obtain nd where c: "cells h p = Some nd" and pos: "0 < n_refs nd" using t by blast
  let ?h' = "set_refs p (n_refs nd + 1) h"
  have mono: "\<exists>nd'. cells ?h' a = Some nd' \<and> n_refs nd0 \<le> n_refs nd'" if "cells h a = Some nd0" for a nd0
  proof (cases "a = p")
    case True
    then show ?thesis using that c set_refs_simps(2)[OF c, of "n_refs nd + 1"] by simp
  next
    case False
    then show ?thesis using that set_refs_simps(3)[OF c] by simp
  qed
  have keep: "cells ?h' a = Some nd0" if "cells h a = Some nd0" "a \<noteq> p" for a nd0
    using that set_refs_simps(3)[OF c] by simp
  have prev: "\<exists>nd0. cells h a = Some nd0 \<and> n_refs nd0 \<le> n_refs nd'" if "cells ?h' a = Some nd'" for a nd'
  proof (cases "a = p")
    case True
    then show ?thesis using that c set_refs_simps(2)[OF c, of "n_refs nd + 1"] by auto
  next
    case False
    then show ?thesis using that set_refs_simps(3)[OF c] by simp
  qed
  show ?thesis
    using Inv_addRef_live[OF inv c pos] Some extends_set_refs[of h p] set_refs_extends[of p _ h]
      set_refs_simps(1)[OF c] mono keep prev
    by (auto simp: addRef_ptr_def)
qed

definition alloc :: "'a Node \<Rightarrow> 'a heap \<Rightarrow> 'a heap" where
  "alloc nd h = h\<lparr>cells := (cells h)(brk h \<mapsto> nd), brk := Suc (brk h)\<rparr>"

lemma Inv_fresh: "Inv h R \<Longrightarrow> cells h (brk h) = None"
proof -
  assume "Inv h R"
  then have "dom (cells h) \<subseteq> {..<brk h}" by (simp add: Inv_def)
  then have "brk h \<notin> dom (cells h)" by auto
  then show ?thesis by auto
qed

lemma Inv_alloc:
  assumes inv: "Inv h R" and dead: "n_refs nd = 0"
    and ch: "\<forall>c. c \<in># children nd \<longrightarrow> c \<in># R + links h"
  shows "Inv (alloc nd h) R" and "links (alloc nd h) = links h"
proof -
  let ?h1 = "alloc nd h"
  have fresh: "cells h (brk h) = None" using Inv_fresh[OF inv] .
  have ol: "out_links ?h1 b = out_links h b" for b
    using fresh dead by (simp add: out_links_def alloc_def)
  show l: "links ?h1 = links h"
  proof -
    have b: "brk ?h1 = Suc (brk h)" by (simp add: alloc_def)
    have "links ?h1 = (\<Sum>b<Suc (brk h). out_links ?h1 b)" unfolding links_def b ..
    also have "\<dots> = (\<Sum>b<Suc (brk h). out_links h b)" by (simp only: ol)
    also have "\<dots> = links h + out_links h (brk h)" by (simp add: links_def)
    also have "out_links h (brk h) = {#}" using fresh by (simp add: out_links_def)
    finally show ?thesis by simp
  qed
  have notin: "brk h \<notin># R + links h"
    using Inv_ref_dom[OF inv, of "brk h"] fresh by auto
  show "Inv ?h1 R"
    unfolding Inv_def l
  proof (intro conjI allI impI)
    show "dom (cells ?h1) \<subseteq> {..<brk ?h1}"
      using inv unfolding Inv_def alloc_def by (auto simp: less_Suc_eq)
  next
    fix a nd' assume a: "cells ?h1 a = Some nd'"
    show "n_refs nd' = int (count (R + links h) a)"
    proof (cases "a = brk h")
      case True
      then have "nd' = nd" using a by (simp add: alloc_def)
      moreover have "count (R + links h) (brk h) = 0"
        using notin by (rule iffD2[OF count_eq_zero_iff])
      ultimately show ?thesis using dead True by simp
    next
      case False
      then have "cells h a = Some nd'" using a by (simp add: alloc_def)
      then show ?thesis using Inv_refs[OF inv] by blast
    qed
  next
    fix a assume "a \<in># R + links h"
    then have "a \<in> dom (cells h)" using Inv_ref_dom[OF inv] by blast
    then show "a \<in> dom (cells ?h1)" by (auto simp: alloc_def)
  next
    fix b nd' c assume b: "cells ?h1 b = Some nd'" and c: "c \<in># children nd'"
    show "c < b"
    proof (cases "b = brk h")
      case True
      then have "nd' = nd" using b by (simp add: alloc_def)
      then have "c \<in># R + links h" using ch c by blast
      then obtain x where "cells h c = Some x" using Inv_ref_dom[OF inv] by blast
      then show ?thesis using Inv_dom[OF inv] True by blast
    next
      case False
      then have "cells h b = Some nd'" using b by (simp add: alloc_def)
      then show ?thesis using Inv_child[OF inv] c by blast
    qed
  qed
qed

lemma extends_alloc: "cells h (brk h) = None \<Longrightarrow> extends h (alloc nd h)"
  unfolding extends_def alloc_def by (auto simp: same_shape_def)

lemma new_Node_alloc:
  "new_Node iz e dr h =
     do {
       h2 \<leftarrow> addRef_ptr iz (alloc \<lparr>n_elem = e, n_left = iz, n_right = dr, n_refs = 0\<rparr> h);
       h3 \<leftarrow> addRef_ptr dr h2;
       Some (brk h, h3)
     }"
  by (simp add: new_Node_def alloc_def Let_def)

lemma wf_heap_BinTree_node:
  assumes w: "wf_heap h R" and iz: "ptr_mset iz \<subseteq># R + links h" and dr: "ptr_mset dr \<subseteq># R + links h"
  shows "\<exists>h' r. BinTree_node iz e dr h = Some (Some (brk h), h') \<and> wf_heap h' (R + {#brk h#})
           \<and> extends h h' \<and> brk h' = Suc (brk h)
           \<and> cells h' (brk h) = Some \<lparr>n_elem = e, n_left = iz, n_right = dr, n_refs = r\<rparr>"
proof -
  let ?a = "brk h"
  let ?nd0 = "\<lparr>n_elem = e, n_left = iz, n_right = dr, n_refs = 0\<rparr>"
  let ?h1 = "alloc ?nd0 h"
  have inv: "Inv h R" using wf_heap_Inv[OF w] .
  have fresh: "cells h ?a = None" using Inv_fresh[OF inv] .
  have ch: "\<forall>c. c \<in># children ?nd0 \<longrightarrow> c \<in># R + links h"
    using iz dr by (auto simp: children_def dest: mset_subset_eqD)
  have inv1: "Inv ?h1 R" and l1: "links ?h1 = links h"
    using Inv_alloc[OF inv _ ch] by simp_all
  have c1a: "cells ?h1 ?a = Some ?nd0" by (simp add: alloc_def)
  have old1: "cells ?h1 b = cells h b" if "b \<noteq> ?a" for b using that by (simp add: alloc_def)
  have live: "\<exists>nd. cells h x = Some nd \<and> 0 < n_refs nd \<and> x \<noteq> ?a" if x: "x \<in># R + links h" for x
  proof -
    obtain nd where nd: "cells h x = Some nd" using Inv_ref_dom[OF inv x] by blast
    then have "x \<noteq> ?a" using fresh by auto
    then show ?thesis using nd wf_heap_live[OF w nd] by blast
  qed
  have izl: "\<forall>x. iz = Some x \<longrightarrow> (\<exists>nd. cells ?h1 x = Some nd \<and> 0 < n_refs nd)"
  proof (intro allI impI)
    fix x assume "iz = Some x"
    then have "x \<in># R + links h" using iz by (simp del: union_iff)
    then show "\<exists>nd. cells ?h1 x = Some nd \<and> 0 < n_refs nd" using live old1 by metis
  qed
  from Inv_addRef_ptr_live[OF inv1 izl] obtain h2 where
    h2: "addRef_ptr iz ?h1 = Some h2" "Inv h2 (R + ptr_mset iz)" "links h2 = links ?h1"
      "brk h2 = brk ?h1" "extends ?h1 h2"
      "\<forall>a nd. cells ?h1 a = Some nd \<longrightarrow> (\<exists>nd'. cells h2 a = Some nd' \<and> n_refs nd \<le> n_refs nd')"
      "\<forall>a nd. cells ?h1 a = Some nd \<longrightarrow> a \<notin># ptr_mset iz \<longrightarrow> cells h2 a = Some nd"
      "\<forall>a nd'. cells h2 a = Some nd' \<longrightarrow> (\<exists>nd. cells ?h1 a = Some nd \<and> n_refs nd \<le> n_refs nd')"
    by blast
  have drl: "\<forall>y. dr = Some y \<longrightarrow> (\<exists>nd. cells h2 y = Some nd \<and> 0 < n_refs nd)"
  proof (intro allI impI)
    fix y assume "dr = Some y"
    then have "y \<in># R + links h" using dr by (simp del: union_iff)
    then obtain nd where "cells ?h1 y = Some nd" "0 < n_refs nd" using live old1 by metis
    then show "\<exists>nd. cells h2 y = Some nd \<and> 0 < n_refs nd" using h2(6) by fastforce
  qed
  from Inv_addRef_ptr_live[OF h2(2) drl] obtain h3 where
    h3: "addRef_ptr dr h2 = Some h3" "Inv h3 (R + ptr_mset iz + ptr_mset dr)" "links h3 = links h2"
      "brk h3 = brk h2" "extends h2 h3"
      "\<forall>a nd. cells h2 a = Some nd \<longrightarrow> a \<notin># ptr_mset dr \<longrightarrow> cells h3 a = Some nd"
      "\<forall>a nd'. cells h3 a = Some nd' \<longrightarrow> (\<exists>nd. cells h2 a = Some nd \<and> n_refs nd \<le> n_refs nd')"
    by blast
  have na: "?a \<notin># ptr_mset iz" "?a \<notin># ptr_mset dr"
    using live iz dr by (cases iz; cases dr; fastforce simp del: union_iff)+
  have c3a: "cells h3 ?a = Some ?nd0" using c1a h2(7) h3(6) na by blast
  let ?h4 = "set_refs ?a (n_refs ?nd0 + 1) h3"
  have ar: "addRef ?a h3 = Some ?h4" using addRef_set_refs[OF c3a] by simp
  have b3: "brk h3 = Suc ?a" using h3(4) h2(4) by (simp add: alloc_def)
  have "links ?h4 + out_links h3 ?a = links h3 + children ?nd0"
    using links_set_refs[OF c3a, of "n_refs ?nd0 + 1"] b3 by simp
  moreover have "out_links h3 ?a = {#}" using c3a by (simp add: out_links_def)
  ultimately have l4: "links ?h4 = links h3 + ptr_mset iz + ptr_mset dr"
    by (simp add: children_def)
  have "R + {#?a#} + links ?h4 = R + ptr_mset iz + ptr_mset dr + links h3 + {#?a#}"
    using l4 by simp
  then have inv4: "Inv ?h4 (R + {#?a#})" by (rule Inv_set_refs_plus[OF h3(2) c3a])
  have c4a: "cells ?h4 ?a = Some (?nd0\<lparr>n_refs := n_refs ?nd0 + 1\<rparr>)"
    using set_refs_simps(2)[OF c3a] .
  have "0 < n_refs nd'" if c: "cells ?h4 b = Some nd'" for b nd'
  proof (cases "b = ?a")
    case True
    then show ?thesis using c c4a by auto
  next
    case False
    then have "cells h3 b = Some nd'" using c set_refs_simps(3)[OF c3a] by simp
    then obtain n2 where n2: "cells h2 b = Some n2" "n_refs n2 \<le> n_refs nd'" using h3(7) by blast
    then obtain n1 where n1: "cells ?h1 b = Some n1" "n_refs n1 \<le> n_refs n2" using h2(8) by blast
    then have "cells h b = Some n1" using old1[OF False] by simp
    then have "0 < n_refs n1" using wf_heap_live[OF w] by blast
    then show ?thesis using n1 n2 by simp
  qed
  then have w4: "wf_heap ?h4 (R + {#?a#})" using inv4 unfolding wf_heap_def by blast
  have e: "extends h ?h4"
    using extends_trans[OF extends_alloc[OF fresh] extends_trans[OF h2(5) extends_trans[OF h3(5) extends_set_refs]]] .
  have "BinTree_node iz e dr h = Some (Some ?a, ?h4)"
    using h2(1) h3(1) ar by (simp add: BinTree_node_def new_Node_alloc)
  moreover have "brk ?h4 = Suc ?a" using set_refs_simps(1)[OF c3a] b3 by simp
  ultimately show ?thesis using w4 e c4a by auto
qed

lemma wf_heap_BinTree_leaf:
  assumes w: "wf_heap h R"
  shows "\<exists>h' r. BinTree_leaf e h = Some (Some (brk h), h') \<and> wf_heap h' (R + {#brk h#})
           \<and> extends h h' \<and> brk h' = Suc (brk h)
           \<and> cells h' (brk h) = Some \<lparr>n_elem = e, n_left = None, n_right = None, n_refs = r\<rparr>"
  using wf_heap_BinTree_node[OF w, of None None e]
  by (simp add: BinTree_leaf_def BinTree_node_def)

section \<open>BinTree.h: the tree behind a handle\<close>

text \<open>
  \<open>repr h p t\<close>: in the heap \<open>h\<close> the pointer \<open>p\<close> is the root of the tree \<open>t\<close>. The
  traversals and counters of the source compute the usual functions of \<open>t\<close>, with counters
  in 32-bit arithmetic, and \<^verbatim>\<open>compareAux\<close> decides whether two pointers stand for the same
  tree.
\<close>

datatype 'a tree = Tip | Fork "'a tree" 'a "'a tree"

inductive repr :: "'a heap \<Rightarrow> ptr \<Rightarrow> 'a tree \<Rightarrow> bool" for h :: "'a heap" where
  repr_None: "repr h None Tip"
| repr_Some: "cells h a = Some nd \<Longrightarrow> repr h (n_left nd) l \<Longrightarrow> repr h (n_right nd) r \<Longrightarrow>
     repr h (Some a) (Fork l (n_elem nd) r)"

inductive_cases repr_NoneE: "repr h None t"
inductive_cases repr_SomeE: "repr h (Some a) t"

lemma repr_fun: "repr h p t \<Longrightarrow> repr h p t' \<Longrightarrow> t = t'"
proof (induction arbitrary: t' rule: repr.induct)
  case repr_None
  then show ?case by (auto elim: repr_NoneE)
next
  case (repr_Some a nd l r)
  from repr_Some.prems show ?case
  proof (rule repr_SomeE)
    fix nd' l' r'
    assume "t' = Fork l' (n_elem nd') r'" "cells h a = Some nd'" "repr h (n_left nd') l'"
      "repr h (n_right nd') r'"
    then show ?thesis using repr_Some by auto
  qed
qed

lemma repr_extends: "repr h p t \<Longrightarrow> extends h h' \<Longrightarrow> repr h' p t"
proof (induction rule: repr.induct)
  case repr_None
  show ?case by (rule repr.repr_None)
next
  case (repr_Some a nd l r)
  obtain nd' where nd': "cells h' a = Some nd'" "same_shape nd nd'"
    using repr_Some.prems repr_Some.hyps(1) unfolding extends_def by blast
  have "repr h' (Some a) (Fork l (n_elem nd') r)"
    using nd' repr_Some.IH repr_Some.prems by (intro repr.repr_Some) (auto simp: same_shape_def)
  then show ?case using nd'(2) by (simp add: same_shape_def)
qed

lemma repr_exists_Some:
  "Inv h R \<Longrightarrow> p \<in># R + links h \<Longrightarrow> \<exists>t. repr h (Some p) t"
proof (induction p rule: less_induct)
  case (less p)
  obtain nd where c: "cells h p = Some nd" using Inv_ref_dom[OF less.prems] by blast
  have "0 < count (R + links h) p" using less.prems(2) by (rule iffD2[OF count_greater_zero_iff])
  then have pos: "0 < n_refs nd" unfolding Inv_refs[OF less.prems(1) c] by (rule iffD2[OF of_nat_0_less_iff])
  have sub: "children nd \<subseteq># links h"
  proof -
    have "out_links h p = children nd" using c pos by (simp add: out_links_def)
    moreover have "links h = out_links h p + (\<Sum>b\<in>{..<brk h} - {p}. out_links h b)"
      unfolding links_def using Inv_dom[OF less.prems(1) c] by (intro sum.remove) auto
    ultimately show ?thesis by (metis mset_subset_eq_add_left)
  qed
  have kid: "\<exists>t. repr h q t" if "ptr_mset q \<subseteq># children nd" for q
  proof (cases q)
    case None
    then show ?thesis using repr.repr_None by auto
  next
    case (Some a)
    then have a: "a \<in># children nd" using that by simp
    then have "a < p" using Inv_child[OF less.prems(1) c] by blast
    moreover have "a \<in># R + links h" using a sub by (meson mset_subset_eqD union_iff)
    ultimately show ?thesis using less.IH less.prems(1) Some by blast
  qed
  obtain l r where "repr h (n_left nd) l" "repr h (n_right nd) r"
    using kid[of "n_left nd"] kid[of "n_right nd"] by (auto simp: children_def)
  then show ?case using repr.repr_Some[OF c] by blast
qed

lemma repr_exists:
  assumes "Inv h R" "ptr_mset p \<subseteq># R + links h"
  shows "\<exists>t. repr h p t"
proof (cases p)
  case None
  then show ?thesis using repr.repr_None by auto
next
  case (Some a)
  then have "a \<in># R + links h" using assms(2) by (simp del: union_iff)
  then show ?thesis using repr_exists_Some[OF assms(1)] Some by simp
qed

fun pre_order :: "'a tree \<Rightarrow> 'a list" where
  "pre_order Tip = []"
| "pre_order (Fork l x r) = x # pre_order l @ pre_order r"

fun in_order :: "'a tree \<Rightarrow> 'a list" where
  "in_order Tip = []"
| "in_order (Fork l x r) = in_order l @ x # in_order r"

fun post_order :: "'a tree \<Rightarrow> 'a list" where
  "post_order Tip = []"
| "post_order (Fork l x r) = post_order l @ post_order r @ [x]"

fun node_count :: "'a tree \<Rightarrow> 32 word" where
  "node_count Tip = 0"
| "node_count (Fork l x r) = 1 + node_count l + node_count r"

fun tree_depth :: "'a tree \<Rightarrow> 32 word" where
  "tree_depth Tip = 0"
| "tree_depth (Fork l x r) =
     (if sint (tree_depth l) > sint (tree_depth r) then 1 + tree_depth l else 1 + tree_depth r)"

fun leaf_count :: "'a tree \<Rightarrow> 32 word" where
  "leaf_count Tip = 0"
| "leaf_count (Fork l x r) = (if l = Tip \<and> r = Tip then 1 else leaf_count l + leaf_count r)"

lemma preOrderAux_repr: "repr h p t \<Longrightarrow> preOrderAux h p acc = Some (acc @ pre_order t)"
proof (induction arbitrary: acc rule: repr.induct)
  case repr_None
  then show ?case by (subst preOrderAux.simps) simp
next
  case (repr_Some a nd l r)
  then show ?case by (subst preOrderAux.simps) simp
qed

lemma inOrderAux_repr: "repr h p t \<Longrightarrow> inOrderAux h p acc = Some (acc @ in_order t)"
proof (induction arbitrary: acc rule: repr.induct)
  case repr_None
  then show ?case by (subst inOrderAux.simps) simp
next
  case (repr_Some a nd l r)
  then show ?case by (subst inOrderAux.simps) simp
qed

lemma postOrderAux_repr: "repr h p t \<Longrightarrow> postOrderAux h p acc = Some (acc @ post_order t)"
proof (induction arbitrary: acc rule: repr.induct)
  case repr_None
  then show ?case by (subst postOrderAux.simps) simp
next
  case (repr_Some a nd l r)
  then show ?case by (subst postOrderAux.simps) simp
qed

lemma nodeCountAux_repr: "repr h p t \<Longrightarrow> nodeCountAux h p = Some (node_count t)"
proof (induction rule: repr.induct)
  case repr_None
  then show ?case by (subst nodeCountAux.simps) simp
next
  case (repr_Some a nd l r)
  then show ?case by (subst nodeCountAux.simps) simp
qed

lemma depthAux_repr: "repr h p t \<Longrightarrow> depthAux h p = Some (tree_depth t)"
proof (induction rule: repr.induct)
  case repr_None
  then show ?case by (subst depthAux.simps) simp
next
  case (repr_Some a nd l r)
  then show ?case by (subst depthAux.simps) simp
qed

lemma repr_Tip_iff: "repr h p t \<Longrightarrow> (p = None) = (t = Tip)"
  by (induction rule: repr.induct) auto

lemma leafCountAux_repr: "repr h p t \<Longrightarrow> leafCountAux h p = Some (leaf_count t)"
proof (induction rule: repr.induct)
  case repr_None
  then show ?case by (subst leafCountAux.simps) simp
next
  case (repr_Some a nd l r)
  then show ?case
    using repr_Tip_iff[of h "n_left nd" l] repr_Tip_iff[of h "n_right nd" r]
    by (subst leafCountAux.simps) simp
qed

lemma compareAux_repr:
  "repr h p t \<Longrightarrow> repr h q t' \<Longrightarrow> compareAux h p q = Some (t = t')"
proof (induction arbitrary: q t' rule: repr.induct)
  case repr_None
  then show ?case
    using repr_Tip_iff[OF repr_None.prems]
    by (subst compareAux.simps) (cases q; auto)
next
  case (repr_Some a nd l r)
  show ?case
  proof (cases "q = Some a")
    case True
    then have "t' = Fork l (n_elem nd) r"
      using repr_fun[OF repr.repr_Some[OF repr_Some.hyps] repr_Some.prems[unfolded True]] by simp
    then show ?thesis using True by (subst compareAux.simps) simp
  next
    case False
    show ?thesis
    proof (cases q)
      case None
      then have "t' = Tip" using repr_Tip_iff[OF repr_Some.prems] by simp
      then show ?thesis using None by (subst compareAux.simps) simp
    next
      case (Some b)
      from repr_Some.prems[unfolded Some] show ?thesis
      proof (rule repr_SomeE)
        fix n2 l' r'
        assume q: "t' = Fork l' (n_elem n2) r'" "cells h b = Some n2" "repr h (n_left n2) l'"
          "repr h (n_right n2) r'"
        have "compareAux h (n_left nd) (n_left n2) = Some (l = l')"
             "compareAux h (n_right nd) (n_right n2) = Some (r = r')"
          using repr_Some.IH q by auto
        then show ?thesis
          using Some False q repr_Some.hyps(1)
          by (subst compareAux.simps) auto
      qed
    qed
  qed
qed

subsection \<open>The pre-order builder\<close>

text \<open>
  \<open>keeps R h h'\<close>: every tree held by a handle of \<open>R\<close> is the same tree in \<open>h'\<close>.
  \<open>parse_pre\<close> is the builder on trees as values; \<^verbatim>\<open>fromPreOrderInput\<close> builds in the heap
  what \<open>parse_pre\<close> returns, reads what it reads, and fails to return exactly when the
  input runs out.
\<close>

lemma repr_after_free:
  assumes "Inv h' R'" "shrinks h h'" "ptr_mset q \<subseteq># R' + links h'" "repr h q t"
  shows "repr h' q t"
proof -
  obtain t' where t': "repr h' q t'" using repr_exists[OF assms(1,3)] by blast
  then have "repr h q t'" using repr_extends shrinks_extends[OF assms(2)] by blast
  then have "t' = t" using repr_fun assms(4) by blast
  then show ?thesis using t' by simp
qed

definition keeps :: "addr multiset \<Rightarrow> 'a heap \<Rightarrow> 'a heap \<Rightarrow> bool" where
  "keeps R h h' = (\<forall>q t. ptr_mset q \<subseteq># R \<longrightarrow> repr h q t \<longrightarrow> repr h' q t)"

lemma keepsD: "keeps R h h' \<Longrightarrow> ptr_mset q \<subseteq># R \<Longrightarrow> repr h q t \<Longrightarrow> repr h' q t"
  unfolding keeps_def by blast

lemma keeps_refl: "keeps R h h"
  by (simp add: keeps_def)

lemma keeps_trans: "keeps R h1 h2 \<Longrightarrow> keeps R h2 h3 \<Longrightarrow> keeps R h1 h3"
  unfolding keeps_def by blast

lemma keeps_mono: "keeps R' h h' \<Longrightarrow> R \<subseteq># R' \<Longrightarrow> keeps R h h'"
  unfolding keeps_def by (meson subset_mset.order_trans)

lemma keeps_extends: "extends h h' \<Longrightarrow> keeps R h h'"
  unfolding keeps_def using repr_extends by blast

lemma keeps_free:
  assumes "wf_heap h R" "ptr_mset t \<subseteq># R" "free t h = Some h'"
  shows "keeps (R - ptr_mset t) h h'" and "wf_heap h' (R - ptr_mset t)"
proof -
  from wf_heap_free[OF assms(1,2)] assms(3) have w: "wf_heap h' (R - ptr_mset t)" and s: "shrinks h h'"
    by auto
  show "wf_heap h' (R - ptr_mset t)" using w .
  show "keeps (R - ptr_mset t) h h'"
    unfolding keeps_def
  proof (intro allI impI)
    fix q t' assume q: "ptr_mset q \<subseteq># R - ptr_mset t" "repr h q t'"
    then have "ptr_mset q \<subseteq># R - ptr_mset t + links h'" by (simp add: subset_mset.add_increasing2)
    then show "repr h' q t'" using repr_after_free[OF wf_heap_Inv[OF w] s _ q(2)] by blast
  qed
qed

partial_function (option) parse_pre :: "'a \<Rightarrow> 'a list \<Rightarrow> ('a tree \<times> 'a list) option" where
  "parse_pre emptyRep inp =
     (case inp of
        [] \<Rightarrow> None
      | e # inp1 \<Rightarrow>
          if e = emptyRep then Some (Tip, inp1)
          else
            do {
              (hi, inp2) \<leftarrow> parse_pre emptyRep inp1;
              (hd, inp3) \<leftarrow> parse_pre emptyRep inp2;
              Some (Fork hi e hd, inp3)
            })"

lemma fromPreOrderInput_refines:
  "wf_heap h R \<Longrightarrow>
     (case parse_pre e inp of
        None \<Rightarrow> fromPreOrderInput e inp h = None
      | Some (t, rest) \<Rightarrow>
          (\<exists>p h'. fromPreOrderInput e inp h = Some (p, rest, h') \<and> wf_heap h' (R + ptr_mset p)
             \<and> repr h' p t \<and> keeps R h h' \<and> length rest < length inp))"
proof (induction "length inp" arbitrary: inp h R rule: less_induct)
  case less
  show ?case
  proof (cases inp)
    case Nil
    then show ?thesis
      by (subst parse_pre.simps, subst fromPreOrderInput.simps) simp
  next
    case (Cons x inp1)
    show ?thesis
    proof (cases "x = e")
      case True
      then show ?thesis
        using Cons less.prems repr.repr_None
        by (subst parse_pre.simps, subst fromPreOrderInput.simps)
           (simp add: BinTree_empty_def keeps_refl)
    next
      case False
      have u1: "parse_pre e inp = do { (hi, inp2) \<leftarrow> parse_pre e inp1;
                  (hd, inp3) \<leftarrow> parse_pre e inp2; Some (Fork hi x hd, inp3) }"
        using Cons False by (subst parse_pre.simps) simp
      have u2: "fromPreOrderInput e inp h = do {
              (hi, inp2, h2) \<leftarrow> fromPreOrderInput e inp1 h;
              (hd, inp3, h3) \<leftarrow> fromPreOrderInput e inp2 h2;
              (t, h4) \<leftarrow> BinTree_node hi x hd h3;
              h5 \<leftarrow> destroy hd h4;
              h6 \<leftarrow> destroy hi h5;
              Some (t, inp3, h6) }"
        using Cons False by (subst fromPreOrderInput.simps) simp
      have IH1: "case parse_pre e inp1 of
        None \<Rightarrow> fromPreOrderInput e inp1 h = None
      | Some (t, rest) \<Rightarrow>
          (\<exists>p h'. fromPreOrderInput e inp1 h = Some (p, rest, h') \<and> wf_heap h' (R + ptr_mset p)
             \<and> repr h' p t \<and> keeps R h h' \<and> length rest < length inp1)"
        using less.hyps[of inp1 h R] less.prems Cons by simp
      show ?thesis
      proof (cases "parse_pre e inp1")
        case None
        then show ?thesis using IH1 u1 u2 by simp
      next
        case (Some a)
        obtain l inp2 where a: "a = (l, inp2)" by (cases a)
        from IH1 Some a obtain p1 h2 where
          1: "fromPreOrderInput e inp1 h = Some (p1, inp2, h2)" "wf_heap h2 (R + ptr_mset p1)"
            "repr h2 p1 l" "keeps R h h2" "length inp2 < length inp1"
          by auto
        have IH2: "case parse_pre e inp2 of
            None \<Rightarrow> fromPreOrderInput e inp2 h2 = None
          | Some (t, rest) \<Rightarrow>
              (\<exists>p h'. fromPreOrderInput e inp2 h2 = Some (p, rest, h')
                 \<and> wf_heap h' (R + ptr_mset p1 + ptr_mset p)
                 \<and> repr h' p t \<and> keeps (R + ptr_mset p1) h2 h' \<and> length rest < length inp2)"
          using less.hyps[of inp2 h2 "R + ptr_mset p1"] 1(2,5) Cons by simp
        show ?thesis
        proof (cases "parse_pre e inp2")
          case None
          then show ?thesis using IH2 u1 u2 Some a 1(1) by simp
        next
          case (Some b)
          obtain r inp3 where b: "b = (r, inp3)" by (cases b)
          from IH2 Some b obtain p2 h3 where
            2: "fromPreOrderInput e inp2 h2 = Some (p2, inp3, h3)"
              "wf_heap h3 (R + ptr_mset p1 + ptr_mset p2)" "repr h3 p2 r"
              "keeps (R + ptr_mset p1) h2 h3" "length inp3 < length inp2"
            by auto
          let ?R3 = "R + ptr_mset p1 + ptr_mset p2"
          have r1: "repr h3 p1 l" using keepsD[OF 2(4) _ 1(3)] by simp
          have "ptr_mset p1 \<subseteq># ?R3 + links h3" "ptr_mset p2 \<subseteq># ?R3 + links h3"
            by (simp_all add: subset_mset.add_increasing2)
          from wf_heap_BinTree_node[OF 2(2) this, of x] obtain h4 rf where
            4: "BinTree_node p1 x p2 h3 = Some (Some (brk h3), h4)" "wf_heap h4 (?R3 + {#brk h3#})"
              "extends h3 h4"
              "cells h4 (brk h3) = Some \<lparr>n_elem = x, n_left = p1, n_right = p2, n_refs = rf\<rparr>"
            by blast
          let ?a = "brk h3"
          have r4: "repr h4 (Some ?a) (Fork l x r)"
            using repr.repr_Some[OF 4(4), of l r] repr_extends[OF r1 4(3)] repr_extends[OF 2(3) 4(3)]
            by simp
          have s5: "ptr_mset p2 \<subseteq># ?R3 + {#?a#}" by simp
          from wf_heap_free[OF 4(2) s5] obtain h5 where 5: "free p2 h4 = Some h5" by blast
          have w5: "wf_heap h5 (R + ptr_mset p1 + {#?a#})" and k5: "keeps (R + ptr_mset p1 + {#?a#}) h4 h5"
            using keeps_free[OF 4(2) s5 5] by simp_all
          have s6: "ptr_mset p1 \<subseteq># R + ptr_mset p1 + {#?a#}" by simp
          from wf_heap_free[OF w5 s6] obtain h6 where 6: "free p1 h5 = Some h6" by blast
          have w6: "wf_heap h6 (R + {#?a#})" and k6: "keeps (R + {#?a#}) h5 h6"
            using keeps_free[OF w5 s6 6] by simp_all
          have f: "fromPreOrderInput e inp h = Some (Some ?a, inp3, h6)"
            using u2 1(1) 2(1) 4(1) 5 6 by (simp add: destroy_def)
          have p: "parse_pre e inp = Some (Fork l x r, inp3)"
            using u1 \<open>parse_pre e inp1 = Some a\<close> a Some b by simp
          have r6: "repr h6 (Some ?a) (Fork l x r)"
            using keepsD[OF k6 _ keepsD[OF k5 _ r4]] by simp
          have k: "keeps R h h6"
            using keeps_trans[OF 1(4) keeps_trans[OF keeps_mono[OF 2(4)]
                  keeps_trans[OF keeps_extends[OF 4(3)]
                    keeps_trans[OF keeps_mono[OF k5] keeps_mono[OF k6]]]]]
            by simp
          have "length inp3 < length inp" using 1(5) 2(5) Cons by simp
          then show ?thesis using f p w6 r6 k by simp
        qed
      qed
    qed
  qed
qed

section \<open>BinTree.h: a shared subtree outlives the tree it came from\<close>

lemma wf_heap_referenced: "wf_heap h R \<Longrightarrow> cells h a = Some nd \<Longrightarrow> a \<in># R + links h"
proof (rule ccontr)
  assume w: "wf_heap h R" and c: "cells h a = Some nd" and n: "a \<notin># R + links h"
  have "count (R + links h) a = 0" using n by (rule iffD1[OF not_in_iff])
  then have "n_refs nd = 0" unfolding Inv_refs[OF wf_heap_Inv[OF w] c] by (rule iffD2[OF of_nat_eq_0_iff])
  then show False using wf_heap_live[OF w c] by simp
qed

lemma children_linked:
  assumes "Inv h R" "cells h p = Some nd" "0 < n_refs nd"
  shows "children nd \<subseteq># links h"
proof -
  have "out_links h p = children nd" using assms(2,3) by (simp add: out_links_def)
  moreover have "links h = out_links h p + (\<Sum>b\<in>{..<brk h} - {p}. out_links h b)"
    unfolding links_def using Inv_dom[OF assms(1,2)] by (intro sum.remove) auto
  ultimately show ?thesis by (metis mset_subset_eq_add_left)
qed

lemma wf_heap_child:
  assumes w: "wf_heap h R" and c: "cells h p = Some nd"
  shows "ptr_mset (n_left nd) \<subseteq># R + links h" "ptr_mset (n_right nd) \<subseteq># R + links h"
proof -
  have s: "children nd \<subseteq># links h"
    using children_linked[OF wf_heap_Inv[OF w] c wf_heap_live[OF w c]] .
  have "ptr_mset (n_left nd) \<subseteq># children nd" "ptr_mset (n_right nd) \<subseteq># children nd"
    by (simp_all add: children_def)
  then show "ptr_mset (n_left nd) \<subseteq># R + links h" "ptr_mset (n_right nd) \<subseteq># R + links h"
    using s by (meson subset_mset.order_trans subset_mset.add_increasing mset_subset_eq_add_right empty_le)+
qed

lemma wf_heap_BinTree_from:
  assumes w: "wf_heap h R" and t: "ptr_mset t \<subseteq># R + links h"
  shows "\<exists>h1. BinTree_from t h = Some (t, h1) \<and> wf_heap h1 (R + ptr_mset t)
           \<and> extends h h1 \<and> extends h1 h \<and> brk h1 = brk h
           \<and> (\<forall>q ndq. t = Some q \<longrightarrow> cells h q = Some ndq \<longrightarrow>
                 cells h1 q = Some (ndq\<lparr>n_refs := n_refs ndq + 1\<rparr>))"
proof -
  from wf_heap_addRef_ptr[OF w t] obtain h1 where
    h1: "addRef_ptr t h = Some h1" "wf_heap h1 (R + ptr_mset t)" "extends h h1" "extends h1 h"
      "brk h1 = brk h" by blast
  have "cells h1 q = Some (ndq\<lparr>n_refs := n_refs ndq + 1\<rparr>)"
    if "t = Some q" "cells h q = Some ndq" for q ndq
  proof -
    have "0 \<le> n_refs ndq" using wf_heap_live[OF w that(2)] by simp
    then have "addRef q h = Some (set_refs q (n_refs ndq + 1) h)"
      using addRef_set_refs[OF that(2)] by simp
    then have "h1 = set_refs q (n_refs ndq + 1) h" using h1(1) that(1) by (simp add: addRef_ptr_def)
    then show ?thesis using set_refs_simps(2)[OF that(2)] by simp
  qed
  then show ?thesis using h1 by (simp add: BinTree_from_def)
qed

lemma wf_heap_left:
  assumes w: "wf_heap h R" and c: "cells h p = Some nd"
  shows "\<exists>h1. left (Some p) h = Some (Inr (n_left nd), h1) \<and> wf_heap h1 (R + ptr_mset (n_left nd))
           \<and> extends h h1 \<and> extends h1 h \<and> brk h1 = brk h
           \<and> (\<forall>q ndq. n_left nd = Some q \<longrightarrow> cells h q = Some ndq \<longrightarrow>
                 cells h1 q = Some (ndq\<lparr>n_refs := n_refs ndq + 1\<rparr>))"
  using wf_heap_BinTree_from[OF w wf_heap_child(1)[OF w c]] c by (auto simp: left_def)

lemma wf_heap_right:
  assumes w: "wf_heap h R" and c: "cells h p = Some nd"
  shows "\<exists>h1. right (Some p) h = Some (Inr (n_right nd), h1) \<and> wf_heap h1 (R + ptr_mset (n_right nd))
           \<and> extends h h1 \<and> extends h1 h \<and> brk h1 = brk h
           \<and> (\<forall>q ndq. n_right nd = Some q \<longrightarrow> cells h q = Some ndq \<longrightarrow>
                 cells h1 q = Some (ndq\<lparr>n_refs := n_refs ndq + 1\<rparr>))"
  using wf_heap_BinTree_from[OF w wf_heap_child(2)[OF w c]] c by (auto simp: right_def)

lemma wf_heap_destroy:
  assumes w: "wf_heap h R" and p: "p \<in># R"
  shows "\<exists>h'. destroy (Some p) h = Some h' \<and> wf_heap h' (R - {#p#}) \<and> shrinks h h'
           \<and> keeps (R - {#p#}) h h'
           \<and> (if last_ref h p then cells h' p = None else h' = drop_ref p h)"
proof -
  from free_correct_Some[OF wf_heap_Inv[OF w] p] obtain h' where
    h': "free (Some p) h = Some h'"
      "if last_ref h p then cells h' p = None else h' = drop_ref p h" by blast
  have "ptr_mset (Some p) \<subseteq># R" using p by simp
  from keeps_free[OF w this h'(1)] wf_heap_free[OF w this] h' show ?thesis
    by (auto simp: destroy_def)
qed

text \<open>
  \<open>with_ref t h\<close> is the heap \<open>h\<close> with one more reference counted on the node of the handle
  \<open>t\<close>, and \<open>h\<close> itself for the empty handle: what \<^verbatim>\<open>addRef\<close> leaves.
\<close>

definition with_ref :: "ptr \<Rightarrow> 'a heap \<Rightarrow> 'a heap" where
  "with_ref t h =
     (case t of
        None \<Rightarrow> h
      | Some a \<Rightarrow>
          (case cells h a of
             None \<Rightarrow> h
           | Some nd \<Rightarrow> h\<lparr>cells := (cells h)(a \<mapsto> nd\<lparr>n_refs := n_refs nd + 1\<rparr>)\<rparr>))"

lemma cells_with_ref:
  "cells (with_ref t h) a =
     map_option (\<lambda>nd. nd\<lparr>n_refs := n_refs nd + int (count (ptr_mset t) a)\<rparr>) (cells h a)"
  by (cases t; cases "cells h a") (auto simp: with_ref_def split: option.splits)

lemma brk_with_ref [simp]: "brk (with_ref t h) = brk h"
  by (auto simp: with_ref_def split: option.splits)

lemma addRef_with_ref:
  "cells h a = Some nd \<Longrightarrow> 0 \<le> n_refs nd \<Longrightarrow> addRef a h = Some (with_ref (Some a) h)"
  by (simp add: addRef_def with_ref_def)

lemma addRef_ptr_with_ref:
  assumes w: "wf_heap h R" and t: "ptr_mset t \<subseteq># R + links h"
  shows "addRef_ptr t h = Some (with_ref t h)" and "wf_heap (with_ref t h) (R + ptr_mset t)"
proof -
  show 1: "addRef_ptr t h = Some (with_ref t h)"
  proof (cases t)
    case None
    then show ?thesis by (simp add: addRef_ptr_def with_ref_def)
  next
    case (Some a)
    then have "a \<in># R + links h" using t by simp
    then obtain nd where c: "cells h a = Some nd" using Inv_ref_dom[OF wf_heap_Inv[OF w]] by blast
    have "0 \<le> n_refs nd" using wf_heap_live[OF w c] by simp
    then show ?thesis using Some addRef_with_ref[OF c] by (simp add: addRef_ptr_def)
  qed
  from wf_heap_addRef_ptr[OF w t] 1 show "wf_heap (with_ref t h) (R + ptr_mset t)" by auto
qed

lemma BinTree_node_with_ref:
  assumes w: "wf_heap h R" and iz: "ptr_mset iz \<subseteq># R + links h" and dr: "ptr_mset dr \<subseteq># R + links h"
  shows "BinTree_node iz e dr h =
           Some (Some (brk h),
             with_ref (Some (brk h)) (with_ref dr (with_ref iz
               (alloc \<lparr>n_elem = e, n_left = iz, n_right = dr, n_refs = 0\<rparr> h))))"
    and "cells (with_ref (Some (brk h)) (with_ref dr (with_ref iz
               (alloc \<lparr>n_elem = e, n_left = iz, n_right = dr, n_refs = 0\<rparr> h)))) (brk h)
          = Some \<lparr>n_elem = e, n_left = iz, n_right = dr, n_refs = 1\<rparr>"
    and "wf_heap (with_ref (Some (brk h)) (with_ref dr (with_ref iz
               (alloc \<lparr>n_elem = e, n_left = iz, n_right = dr, n_refs = 0\<rparr> h)))) (R + {#brk h#})"
proof -
  let ?nd0 = "\<lparr>n_elem = e, n_left = iz, n_right = dr, n_refs = 0\<rparr>"
  let ?h0 = "alloc ?nd0 h"
  let ?h1 = "with_ref iz ?h0"
  let ?h2 = "with_ref dr ?h1"
  let ?h3 = "with_ref (Some (brk h)) ?h2"
  have inv: "Inv h R" using wf_heap_Inv[OF w] .
  have fresh: "cells h (brk h) = None" using Inv_fresh[OF inv] .
  have c0: "cells ?h0 a = (if a = brk h then Some ?nd0 else cells h a)" for a
    by (simp add: alloc_def)
  have live: "\<exists>nd. cells h a = Some nd \<and> 0 < n_refs nd \<and> a \<noteq> brk h" if "a \<in># R + links h" for a
  proof -
    from that obtain nd where c: "cells h a = Some nd" using Inv_ref_dom[OF inv] by blast
    then show ?thesis using wf_heap_live[OF w c] fresh by auto
  qed
  have a1: "addRef_ptr iz ?h0 = Some ?h1"
  proof (cases iz)
    case None
    then show ?thesis by (simp add: addRef_ptr_def with_ref_def)
  next
    case (Some a)
    then obtain nd where "cells h a = Some nd" "0 < n_refs nd" "a \<noteq> brk h"
      using live[of a] iz by auto
    then show ?thesis using Some addRef_with_ref[of ?h0 a nd] c0 by (simp add: addRef_ptr_def)
  qed
  have a2: "addRef_ptr dr ?h1 = Some ?h2"
  proof (cases dr)
    case None
    then show ?thesis by (simp add: addRef_ptr_def with_ref_def)
  next
    case (Some a)
    then obtain nd where nd: "cells h a = Some nd" "0 < n_refs nd" "a \<noteq> brk h"
      using live[of a] dr by auto
    have "cells ?h1 a = Some (nd\<lparr>n_refs := n_refs nd + int (count (ptr_mset iz) a)\<rparr>)"
      using nd c0 by (simp add: cells_with_ref)
    from addRef_with_ref[OF this] nd(2) show ?thesis using Some by (simp add: addRef_ptr_def)
  qed
  have c2: "cells ?h2 (brk h) = Some ?nd0"
  proof -
    have "count (ptr_mset iz) (brk h) = 0" "count (ptr_mset dr) (brk h) = 0"
      using live iz dr by (cases iz; cases dr; auto)+
    then show ?thesis using c0 by (simp add: cells_with_ref)
  qed
  have a3: "addRef (brk h) ?h2 = Some ?h3" using addRef_with_ref[OF c2] by simp
  show n: "BinTree_node iz e dr h = Some (Some (brk h), ?h3)"
    using a1 a2 a3 by (simp add: BinTree_node_def new_Node_alloc)
  show "cells ?h3 (brk h) = Some \<lparr>n_elem = e, n_left = iz, n_right = dr, n_refs = 1\<rparr>"
    using c2 by (simp add: cells_with_ref[of "Some (brk h)"])
  from wf_heap_BinTree_node[OF w iz dr, of e] n show "wf_heap ?h3 (R + {#brk h#})" by auto
qed

lemma left_with_ref:
  assumes w: "wf_heap h R" and c: "cells h p = Some nd"
  shows "left (Some p) h = Some (Inr (n_left nd), with_ref (n_left nd) h)"
    and "right (Some p) h = Some (Inr (n_right nd), with_ref (n_right nd) h)"
  using addRef_ptr_with_ref(1)[OF w wf_heap_child(1)[OF w c]]
    addRef_ptr_with_ref(1)[OF w wf_heap_child(2)[OF w c]] c
  by (simp_all add: left_def right_def BinTree_from_def)

lemma new_handles:
  assumes w: "wf_heap h R"
  shows "\<forall>t. ptr_mset t \<subseteq># R + links h \<longrightarrow>
           BinTree_from t h = Some (t, with_ref t h) \<and> BinTree_copy t h = Some (t, with_ref t h)
           \<and> wf_heap (with_ref t h) (R + ptr_mset t)"
  using addRef_ptr_with_ref[OF w] by (simp add: BinTree_from_def BinTree_copy_def)

lemma released_handles:
  assumes w: "wf_heap h R"
  shows "\<forall>t. ptr_mset t \<subseteq># R \<longrightarrow>
           (\<exists>h'. destroy t h = Some h' \<and> wf_heap h' (R - ptr_mset t) \<and> shrinks h h'
              \<and> (\<forall>a. t = Some a \<longrightarrow>
                    (if last_ref h a then cells h' a = None else h' = drop_ref a h)))"
proof (intro allI impI)
  fix t :: ptr
  assume t: "ptr_mset t \<subseteq># R"
  show "\<exists>h'. destroy t h = Some h' \<and> wf_heap h' (R - ptr_mset t) \<and> shrinks h h'
              \<and> (\<forall>a. t = Some a \<longrightarrow>
                    (if last_ref h a then cells h' a = None else h' = drop_ref a h))"
  proof (cases t)
    case None
    then show ?thesis using w by (simp add: destroy_def free_None shrinks_refl)
  next
    case (Some a)
    then have "a \<in># R" using t by simp
    from wf_heap_destroy[OF w this] show ?thesis using Some by auto
  qed
qed

lemma assigned_handles:
  assumes w: "wf_heap h R"
  shows "\<forall>t u. ptr_mset t + ptr_mset u \<subseteq># R \<longrightarrow>
           (\<exists>h'. destroy t h = Some h' \<and> assign False t u h = Some (u, with_ref u h')
              \<and> wf_heap (with_ref u h') (R - ptr_mset t + ptr_mset u))"
proof (intro allI impI)
  fix t u :: ptr
  assume tu: "ptr_mset t + ptr_mset u \<subseteq># R"
  then have t: "ptr_mset t \<subseteq># R" by (metis mset_subset_eq_add_left subset_mset.order_trans)
  from wf_heap_free[OF w t] obtain h' where h': "free t h = Some h'" "wf_heap h' (R - ptr_mset t)"
    by blast
  have "ptr_mset u \<subseteq># R - ptr_mset t"
    using tu by (metis add_diff_cancel_left' subset_mset.diff_add_assoc2 mset_subset_eq_add_right
        subset_mset.le_diff_conv2 t union_commute)
  then have "ptr_mset u \<subseteq># R - ptr_mset t + links h'" by (simp add: subset_mset.add_increasing2)
  from addRef_ptr_with_ref[OF h'(2) this] h'(1)
  show "\<exists>h'. destroy t h = Some h' \<and> assign False t u h = Some (u, with_ref u h')
              \<and> wf_heap (with_ref u h') (R - ptr_mset t + ptr_mset u)"
    by (simp add: destroy_def assign_def)
qed

lemma built_handles:
  assumes w: "wf_heap h R"
  shows "\<forall>t x u. ptr_mset t \<subseteq># R + links h \<and> ptr_mset u \<subseteq># R + links h \<longrightarrow>
           BinTree_node t x u h =
             Some (Some (brk h),
               with_ref (Some (brk h)) (with_ref u (with_ref t
                 (alloc \<lparr>n_elem = x, n_left = t, n_right = u, n_refs = 0\<rparr> h))))
           \<and> cells (with_ref (Some (brk h)) (with_ref u (with_ref t
                 (alloc \<lparr>n_elem = x, n_left = t, n_right = u, n_refs = 0\<rparr> h)))) (brk h)
               = Some \<lparr>n_elem = x, n_left = t, n_right = u, n_refs = 1\<rparr>
           \<and> wf_heap (with_ref (Some (brk h)) (with_ref u (with_ref t
                 (alloc \<lparr>n_elem = x, n_left = t, n_right = u, n_refs = 0\<rparr> h)))) (R + {#brk h#})"
  using BinTree_node_with_ref[OF w] by blast

lemma built_leaves:
  assumes w: "wf_heap h R"
  shows "\<forall>x. BinTree_leaf x h =
             Some (Some (brk h),
               with_ref (Some (brk h)) (alloc \<lparr>n_elem = x, n_left = None, n_right = None, n_refs = 0\<rparr> h))"
proof
  fix x
  have "ptr_mset None \<subseteq># R + links h" by simp
  from BinTree_node_with_ref(1)[OF w this this, of x]
  show "BinTree_leaf x h =
             Some (Some (brk h),
               with_ref (Some (brk h)) (alloc \<lparr>n_elem = x, n_left = None, n_right = None, n_refs = 0\<rparr> h))"
    by (simp add: BinTree_leaf_def BinTree_node_def with_ref_def)
qed

text \<open>
  C1. In a heap \<open>h\<close> whose counts are right for the handles \<open>R\<close> (the count of every node is
  the number of handles and of child pointers of nodes in use on it, and is positive),
  every operation that makes a handle adds exactly one to the count of the node it
  aliases and changes nothing else: \<^verbatim>\<open>left()\<close> and \<^verbatim>\<open>right()\<close> on the child,
  \<^verbatim>\<open>BinTree(Node*)\<close> and the copy constructor on the node of their argument, the assignment
  on the node of its right-hand side after releasing the left-hand side (and nothing at
  all for a self-assignment), and the constructors from an element on the new node, whose
  count is 1, after one reference more on each child. Releasing a handle (the
  destructor) takes one off the count of its node and deletes the node exactly when that
  was its last reference, only deleting nodes or lowering counts. After each of these the
  counts are right for the new multiset of handles.

  In particular, let \<open>t1\<close> be a handle on the node \<open>p\<close> whose left child is the node \<open>q\<close>.
  Then \<^verbatim>\<open>BinTree t2 = t1.left()\<close> returns a handle on \<open>q\<close> and adds one to the count of \<open>q\<close>;
  destroying \<open>t1\<close> takes one off the count of \<open>p\<close>, and deletes \<open>p\<close> exactly when that was
  its last reference; afterwards the counts are right for the remaining handles, a node
  of the heap is still allocated exactly when a handle or a node in use points to it,
  \<open>t2\<close> stands for the same tree as before, and \<^verbatim>\<open>t2.elem()\<close>, \<^verbatim>\<open>t2.left()\<close> and
  \<^verbatim>\<open>t2.right()\<close> return the element and the children that \<open>q\<close> had, each adding one to the
  count of the child it returns.
\<close>

theorem shared_subtree_survives:
  assumes w: "wf_heap h R" and p: "p \<in># R" and cp: "cells h p = Some nd"
    and l: "n_left nd = Some q" and cq: "cells h q = Some ndq" and T: "repr h (Some q) T"
  shows "\<exists>h1 h2. left (Some p) h = Some (Inr (Some q), h1)
          \<and> h1 = with_ref (Some q) h
          \<and> cells h1 q = Some (ndq\<lparr>n_refs := n_refs ndq + 1\<rparr>)
          \<and> wf_heap h1 (R + {#q#})
          \<and> destroy (Some p) h1 = Some h2
          \<and> wf_heap h2 (R + {#q#} - {#p#})
          \<and> shrinks h1 h2
          \<and> (if last_ref h1 p then cells h2 p = None else h2 = drop_ref p h1)
          \<and> (\<forall>a. a \<in> dom (cells h1) \<longrightarrow>
                (a \<in> dom (cells h2) \<longleftrightarrow> a \<in># R + {#q#} - {#p#} + links h2))
          \<and> repr h2 (Some q) T
          \<and> elem h2 (Some q) = Some (Inr (n_elem ndq))
          \<and> left (Some q) h2 = Some (Inr (n_left ndq), with_ref (n_left ndq) h2)
          \<and> right (Some q) h2 = Some (Inr (n_right ndq), with_ref (n_right ndq) h2)
          \<and> (\<exists>h3. left (Some q) h2 = Some (Inr (n_left ndq), h3))
          \<and> (\<exists>h3. right (Some q) h2 = Some (Inr (n_right ndq), h3))
          \<and> right (Some p) h = Some (Inr (n_right nd), with_ref (n_right nd) h)
          \<and> wf_heap (with_ref (n_right nd) h) (R + ptr_mset (n_right nd))
          \<and> (\<forall>t. ptr_mset t \<subseteq># R + links h \<longrightarrow>
                BinTree_from t h = Some (t, with_ref t h)
                \<and> BinTree_copy t h = Some (t, with_ref t h)
                \<and> wf_heap (with_ref t h) (R + ptr_mset t))
          \<and> (\<forall>t u. ptr_mset t + ptr_mset u \<subseteq># R \<longrightarrow>
                (\<exists>h'. destroy t h = Some h' \<and> assign False t u h = Some (u, with_ref u h')
                   \<and> wf_heap (with_ref u h') (R - ptr_mset t + ptr_mset u)))
          \<and> (\<forall>t. assign True t t h = Some (t, h))
          \<and> (\<forall>t x u. ptr_mset t \<subseteq># R + links h \<and> ptr_mset u \<subseteq># R + links h \<longrightarrow>
                BinTree_node t x u h =
                  Some (Some (brk h),
                    with_ref (Some (brk h)) (with_ref u (with_ref t
                      (alloc \<lparr>n_elem = x, n_left = t, n_right = u, n_refs = 0\<rparr> h))))
                \<and> cells (with_ref (Some (brk h)) (with_ref u (with_ref t
                      (alloc \<lparr>n_elem = x, n_left = t, n_right = u, n_refs = 0\<rparr> h)))) (brk h)
                    = Some \<lparr>n_elem = x, n_left = t, n_right = u, n_refs = 1\<rparr>
                \<and> wf_heap (with_ref (Some (brk h)) (with_ref u (with_ref t
                      (alloc \<lparr>n_elem = x, n_left = t, n_right = u, n_refs = 0\<rparr> h)))) (R + {#brk h#}))
          \<and> (\<forall>x. BinTree_leaf x h =
                  Some (Some (brk h),
                    with_ref (Some (brk h))
                      (alloc \<lparr>n_elem = x, n_left = None, n_right = None, n_refs = 0\<rparr> h)))
          \<and> (\<forall>t. ptr_mset t \<subseteq># R \<longrightarrow>
                (\<exists>h'. destroy t h = Some h' \<and> wf_heap h' (R - ptr_mset t) \<and> shrinks h h'
                   \<and> (\<forall>a. t = Some a \<longrightarrow>
                         (if last_ref h a then cells h' a = None else h' = drop_ref a h))))"
proof -
  let ?h1 = "with_ref (Some q) h"
  have l1: "left (Some p) h = Some (Inr (Some q), ?h1)" using left_with_ref(1)[OF w cp] l by simp
  have c1: "cells ?h1 q = Some (ndq\<lparr>n_refs := n_refs ndq + 1\<rparr>)"
    using cq by (simp add: cells_with_ref)
  from wf_heap_left[OF w cp] l l1 have w1: "wf_heap ?h1 (R + {#q#})" and e1: "extends h ?h1"
    by auto
  have p1: "p \<in># R + {#q#}" using p by simp
  from wf_heap_destroy[OF w1 p1] obtain h2 where
    h2: "destroy (Some p) ?h1 = Some h2" "wf_heap h2 (R + {#q#} - {#p#})" "shrinks ?h1 h2"
      "keeps (R + {#q#} - {#p#}) ?h1 h2"
      "if last_ref ?h1 p then cells h2 p = None else h2 = drop_ref p ?h1"
    by blast
  let ?R2 = "R + {#q#} - {#p#}"
  have q2: "q \<in># ?R2"
  proof (cases "q = p")
    case True
    then show ?thesis using p by simp
  next
    case False
    then show ?thesis by simp
  qed
  have inv2: "Inv h2 ?R2" using wf_heap_Inv[OF h2(2)] .
  have kept: "\<forall>a. a \<in> dom (cells ?h1) \<longrightarrow> (a \<in> dom (cells h2) \<longleftrightarrow> a \<in># ?R2 + links h2)"
    using Inv_ref_dom[OF inv2] wf_heap_referenced[OF h2(2)] by blast
  have "ptr_mset (Some q) \<subseteq># ?R2" using q2 by simp
  then have r2: "repr h2 (Some q) T"
    using keepsD[OF h2(4) _ repr_extends[OF T e1]] by blast
  obtain nd2 where c2: "cells h2 q = Some nd2"
    using Inv_ref_dom[OF inv2, of q] q2 by auto
  from shrinks_survivor[OF h2(3) c2] c1 have sh: "same_shape ndq nd2"
    by (auto simp: same_shape_def)
  have e: "elem h2 (Some q) = Some (Inr (n_elem ndq))"
    using c2 sh by (simp add: elem_def same_shape_def)
  have lq: "left (Some q) h2 = Some (Inr (n_left ndq), with_ref (n_left ndq) h2)"
    and rq: "right (Some q) h2 = Some (Inr (n_right ndq), with_ref (n_right ndq) h2)"
    using left_with_ref[OF h2(2) c2] sh by (simp_all add: same_shape_def)
  have lq': "\<exists>h3. left (Some q) h2 = Some (Inr (n_left ndq), h3)"
    and rq': "\<exists>h3. right (Some q) h2 = Some (Inr (n_right ndq), h3)"
    using lq rq by blast+
  have rp: "right (Some p) h = Some (Inr (n_right nd), with_ref (n_right nd) h)"
    using left_with_ref(2)[OF w cp] .
  have wr: "wf_heap (with_ref (n_right nd) h) (R + ptr_mset (n_right nd))"
    using addRef_ptr_with_ref(2)[OF w wf_heap_child(2)[OF w cp]] .
  have same: "\<forall>t. assign True t t h = Some (t, h)" by (simp add: assign_def)
  show ?thesis
    apply (rule exI[of _ ?h1], rule exI[of _ h2])
    apply (intro conjI l1 refl c1 w1 h2(1) h2(2) h2(3) h2(5) kept r2 e lq rq lq' rq' rp wr
        new_handles[OF w] assigned_handles[OF w] same built_handles[OF w] built_leaves[OF w]
        released_handles[OF w])
    done
qed

text \<open>
  The heap that the pre-order builder leaves for the input \<^verbatim>\<open>1 2 0 0 3 0 0\<close>: the root is
  the node 2 and its left child is the node 0. After \<^verbatim>\<open>left()\<close> and the destruction of
  the root handle, the root node is gone and the node 0 still holds 2.
\<close>

lemma wf_heap_empty_heap: "wf_heap empty_heap {#}"
  by (simp add: wf_heap_def Inv_def empty_heap_def links_def out_links_def)

definition ex_heap :: "int heap" where
  "ex_heap = \<lparr>cells = [0 \<mapsto> \<lparr>n_elem = 2, n_left = None, n_right = None, n_refs = 1\<rparr>,
                       1 \<mapsto> \<lparr>n_elem = 3, n_left = None, n_right = None, n_refs = 1\<rparr>,
                       2 \<mapsto> \<lparr>n_elem = 1, n_left = Some 0, n_right = Some 1, n_refs = 1\<rparr>],
             brk = 3\<rparr>"

lemma parse_pre_example:
  "parse_pre (0::int) [1, 2, 0, 0, 3, 0, 0] = Some (Fork (Fork Tip 2 Tip) 1 (Fork Tip 3 Tip), [])"
  by (simp add: parse_pre.simps)

lemma wf_heap_ex_heap: "wf_heap ex_heap {#2#}"
  using fromPreOrderInput_refines[OF wf_heap_empty_heap, of "0::int" "[1, 2, 0, 0, 3, 0, 0]"]
    fromPreOrderInput_example[of 0]
  by (simp add: parse_pre_example ex_heap_def)

theorem shared_subtree_survives_witness:
  "\<exists>h1 h2. left (Some 2) ex_heap = Some (Inr (Some 0), h1)
      \<and> cells h1 0 = Some \<lparr>n_elem = 2, n_left = None, n_right = None, n_refs = 2\<rparr>
      \<and> destroy (Some 2) h1 = Some h2
      \<and> cells h2 2 = None
      \<and> elem h2 (Some 0) = Some (Inr 2)
      \<and> left (Some 0) h2 = Some (Inr None, h2)
      \<and> right (Some 0) h2 = Some (Inr None, h2)
      \<and> right (Some 2) ex_heap = Some (Inr (Some 1), with_ref (Some 1) ex_heap)
      \<and> BinTree_copy (Some 2) ex_heap = Some (Some 2, with_ref (Some 2) ex_heap)
      \<and> cells (with_ref (Some 2) ex_heap) 2
           = Some \<lparr>n_elem = 1, n_left = Some 0, n_right = Some 1, n_refs = 2\<rparr>
      \<and> assign False None (Some 2) ex_heap = Some (Some 2, with_ref (Some 2) ex_heap)
      \<and> (\<exists>h'. BinTree_node (Some 2) 7 None ex_heap = Some (Some 3, h')
            \<and> cells h' 3 = Some \<lparr>n_elem = 7, n_left = Some 2, n_right = None, n_refs = 1\<rparr>
            \<and> cells h' 2 = Some \<lparr>n_elem = 1, n_left = Some 0, n_right = Some 1, n_refs = 2\<rparr>)
      \<and> (\<exists>h'. destroy (Some 2) ex_heap = Some h' \<and> cells h' 2 = None)"
proof -
  have c2: "cells ex_heap 2 = Some \<lparr>n_elem = 1, n_left = Some 0, n_right = Some 1, n_refs = 1\<rparr>"
    and c0: "cells ex_heap 0 = Some \<lparr>n_elem = 2, n_left = None, n_right = None, n_refs = 1\<rparr>"
    and bk: "brk ex_heap = 3"
    by (simp_all add: ex_heap_def)
  have r: "repr ex_heap (Some 0) (Fork Tip 2 Tip)"
    using repr.repr_Some[OF c0] by (simp add: repr.repr_None)
  have in2: "2 \<in># {#2::nat#}" by simp
  note th = shared_subtree_survives[OF wf_heap_ex_heap in2 c2 _ c0 r, simplified]
  let ?h1 = "with_ref (Some 0) ex_heap"
  have c1: "cells ?h1 0 = Some \<lparr>n_elem = 2, n_left = None, n_right = None, n_refs = 2\<rparr>"
    and c12: "cells ?h1 2 = cells ex_heap 2"
    using c0 c2 by (simp_all add: cells_with_ref)
  have lr: "last_ref ?h1 2" using c12 c2 by (simp add: last_ref_def)
  have lr0: "last_ref ex_heap 2" using c2 by (simp add: last_ref_def)
  have l1: "left (Some 2) ex_heap = Some (Inr (Some 0), ?h1)" using th by (rule conjunct1)
  from th lr obtain h2 where a: "destroy (Some 2) ?h1 = Some h2" "cells h2 2 = None"
    "elem h2 (Some 0) = Some (Inr 2)"
    "left (Some 0) h2 = Some (Inr None, with_ref None h2)"
    "right (Some 0) h2 = Some (Inr None, with_ref None h2)"
    by auto
  have rp: "right (Some 2) ex_heap = Some (Inr (Some 1), with_ref (Some 1) ex_heap)"
    using th by auto
  have cp: "BinTree_copy (Some 2) ex_heap = Some (Some 2, with_ref (Some 2) ex_heap)"
    using th by auto
  have cc: "cells (with_ref (Some 2) ex_heap) 2
           = Some \<lparr>n_elem = 1, n_left = Some 0, n_right = Some 1, n_refs = 2\<rparr>"
    using c2 by (simp add: cells_with_ref)
  have A: "\<forall>t u. ptr_mset t + ptr_mset u \<subseteq># {#2#} \<longrightarrow>
                 (\<exists>h'. destroy t ex_heap = Some h' \<and>
                       assign False t u ex_heap = Some (u, with_ref u h') \<and>
                       wf_heap (with_ref u h') ({#2#} - ptr_mset t + ptr_mset u))"
    using th by (elim exE conjE) assumption
  have N: "\<forall>t x u.
              ptr_mset t \<subseteq># add_mset 2 (links ex_heap) \<and>
              ptr_mset u \<subseteq># add_mset 2 (links ex_heap) \<longrightarrow>
              BinTree_node t x u ex_heap =
              Some (Some (brk ex_heap),
                with_ref (Some (brk ex_heap)) (with_ref u (with_ref t
                  (alloc \<lparr>n_elem = x, n_left = t, n_right = u, n_refs = 0\<rparr> ex_heap)))) \<and>
              cells (with_ref (Some (brk ex_heap)) (with_ref u (with_ref t
                  (alloc \<lparr>n_elem = x, n_left = t, n_right = u, n_refs = 0\<rparr> ex_heap))))
               (brk ex_heap) =
              Some \<lparr>n_elem = x, n_left = t, n_right = u, n_refs = 1\<rparr> \<and>
              wf_heap (with_ref (Some (brk ex_heap)) (with_ref u (with_ref t
                  (alloc \<lparr>n_elem = x, n_left = t, n_right = u, n_refs = 0\<rparr> ex_heap))))
               {#brk ex_heap, 2#}"
    using th by (elim exE conjE) assumption
  have D: "\<forall>t. ptr_mset t \<subseteq># {#2#} \<longrightarrow>
               (\<exists>h'. destroy t ex_heap = Some h' \<and>
                     wf_heap h' ({#2#} - ptr_mset t) \<and>
                     shrinks ex_heap h' \<and>
                     (\<forall>a. t = Some a \<longrightarrow>
                          (if last_ref ex_heap a then cells h' a = None
                           else h' = drop_ref a ex_heap)))"
    using th by (elim exE conjE) assumption
  have d0: "destroy None ex_heap = Some ex_heap" by (simp add: destroy_def free_None)
  have as: "assign False None (Some 2) ex_heap = Some (Some 2, with_ref (Some 2) ex_heap)"
    using A[rule_format, of None "Some 2"] d0 by auto
  let ?h' = "with_ref (Some 3) (with_ref None (with_ref (Some 2)
               (alloc \<lparr>n_elem = 7, n_left = Some 2, n_right = None, n_refs = 0\<rparr> ex_heap)))"
  have n1: "BinTree_node (Some 2) 7 None ex_heap = Some (Some 3, ?h')"
    and n2: "cells ?h' 3 = Some \<lparr>n_elem = 7, n_left = Some 2, n_right = None, n_refs = 1\<rparr>"
    using N[rule_format, of "Some 2" None 7] unfolding bk by simp_all
  have n3: "cells ?h' 2 = Some \<lparr>n_elem = 1, n_left = Some 0, n_right = Some 1, n_refs = 2\<rparr>"
    using c2 bk by (simp add: cells_with_ref alloc_def)
  have nd: "\<exists>h'. BinTree_node (Some 2) 7 None ex_heap = Some (Some 3, h')
            \<and> cells h' 3 = Some \<lparr>n_elem = 7, n_left = Some 2, n_right = None, n_refs = 1\<rparr>
            \<and> cells h' 2 = Some \<lparr>n_elem = 1, n_left = Some 0, n_right = Some 1, n_refs = 2\<rparr>"
    using n1 n2 n3 by blast
  have ds: "\<exists>h'. destroy (Some 2) ex_heap = Some h' \<and> cells h' 2 = None"
    using D[rule_format, of "Some 2"] lr0 by auto
  have wn: "with_ref None h2 = h2" by (simp add: with_ref_def)
  show ?thesis using l1 c1 a rp cp cc as nd ds unfolding wn by blast
qed

section \<open>BinTree.h: writing a tree and reading it back\<close>

text \<open>
  Modelled from the spec: the repository has no function that writes a tree with a
  sentinel for the empty subtrees (\<^verbatim>\<open>preOrder()\<close> lists the elements only, and
  \<^verbatim>\<open>operator<<\<close> prints an indented picture). \<open>serialize\<close> is the pre-order token output
  that the round trip speaks of: the root element, then the left subtree, then the right
  one, and the sentinel for every empty subtree. It follows \<^verbatim>\<open>preOrderAux\<close>.
\<close>

partial_function (option) serializeAux ::
  "'a heap \<Rightarrow> ptr \<Rightarrow> 'a \<Rightarrow> 'a list \<Rightarrow> 'a list option" where
  "serializeAux h root emptyRep acc =
     (case root of
        None \<Rightarrow> Some (acc @ [emptyRep])
      | Some a \<Rightarrow>
          do {
            nd \<leftarrow> cells h a;
            acc1 \<leftarrow> serializeAux h (n_left nd) emptyRep (acc @ [n_elem nd]);
            serializeAux h (n_right nd) emptyRep acc1
          })"

definition serialize :: "'a heap \<Rightarrow> ptr \<Rightarrow> 'a \<Rightarrow> 'a list option" where
  "serialize h t emptyRep = serializeAux h t emptyRep []"

fun tokens :: "'a \<Rightarrow> 'a tree \<Rightarrow> 'a list" where
  "tokens e Tip = [e]"
| "tokens e (Fork l x r) = x # tokens e l @ tokens e r"

lemma serializeAux_repr: "repr h p t \<Longrightarrow> serializeAux h p e acc = Some (acc @ tokens e t)"
proof (induction arbitrary: acc rule: repr.induct)
  case repr_None
  show ?case by (subst serializeAux.simps) simp
next
  case (repr_Some a nd l r)
  show ?case by (subst serializeAux.simps) (simp add: repr_Some)
qed

lemma length_tokens: "length (tokens e t) = 2 * length (pre_order t) + 1"
  by (induction t) simp_all

lemma parse_pre_tokens:
  "e \<notin> set (pre_order t) \<Longrightarrow> parse_pre e (tokens e t @ rest) = Some (t, rest)"
proof (induction t arbitrary: rest)
  case Tip
  show ?case by (subst parse_pre.simps) simp
next
  case (Fork l x r)
  have l: "parse_pre e (tokens e l @ tokens e r @ rest) = Some (l, tokens e r @ rest)"
    using Fork.IH(1)[of "tokens e r @ rest"] Fork.prems by simp
  have r: "parse_pre e (tokens e r @ rest) = Some (r, rest)"
    using Fork.IH(2)[of rest] Fork.prems by simp
  have "x \<noteq> e" using Fork.prems by auto
  then show ?case by (subst parse_pre.simps) (simp add: l r)
qed

text \<open>
  C3. Let \<open>t\<close> be a handle in a heap whose counts are right, \<open>es\<close> its elements
  (\<^verbatim>\<open>preOrder()\<close>) and \<open>emptyRep\<close> a sentinel that is not among them. The token stream of
  \<open>t\<close> has \<open>2 * length es + 1\<close> tokens; \<^verbatim>\<open>fromPreOrderInput(emptyRep)\<close> on an input that
  starts with these tokens returns, reads exactly these tokens (what follows them is left
  on the input), and the tree it returns is \<^verbatim>\<open>==\<close> to \<open>t\<close>, with the same elements. The
  counts are right afterwards, with the new handle.
\<close>

theorem preorder_round_trip:
  assumes w: "wf_heap h R" and t: "ptr_mset t \<subseteq># R" and es: "preOrder h t = Some es"
    and s: "emptyRep \<notin> set es"
  shows "\<exists>toks p h'. serialize h t emptyRep = Some toks
           \<and> length toks = 2 * length es + 1
           \<and> fromPreOrderInput emptyRep (toks @ rest) h = Some (p, rest, h')
           \<and> equal h' p t = Some True
           \<and> equal h' t p = Some True
           \<and> preOrder h' p = Some es
           \<and> wf_heap h' (R + ptr_mset p)"
proof -
  have "ptr_mset t \<subseteq># R + links h" using t by (simp add: subset_mset.add_increasing2)
  from repr_exists[OF wf_heap_Inv[OF w] this] obtain T where T: "repr h t T" by blast
  have pe: "pre_order T = es" using preOrderAux_repr[OF T, of "[]"] es by (simp add: preOrder_def)
  have ser: "serialize h t emptyRep = Some (tokens emptyRep T)"
    using serializeAux_repr[OF T, of emptyRep "[]"] by (simp add: serialize_def)
  have pp: "parse_pre emptyRep (tokens emptyRep T @ rest) = Some (T, rest)"
    using parse_pre_tokens[of emptyRep T rest] s pe by simp
  from fromPreOrderInput_refines[OF w, of emptyRep "tokens emptyRep T @ rest"] pp
  obtain p h' where b: "fromPreOrderInput emptyRep (tokens emptyRep T @ rest) h = Some (p, rest, h')"
    "wf_heap h' (R + ptr_mset p)" "repr h' p T" "keeps R h h'"
    by auto
  have T': "repr h' t T" using keepsD[OF b(4) t T] .
  have e1: "equal h' p t = Some True" using compareAux_repr[OF b(3) T'] by (simp add: equal_def)
  have e2: "equal h' t p = Some True" using compareAux_repr[OF T' b(3)] by (simp add: equal_def)
  have po: "preOrder h' p = Some es" using preOrderAux_repr[OF b(3), of "[]"] pe by (simp add: preOrder_def)
  show ?thesis using ser length_tokens[of emptyRep T] pe b(1,2) e1 e2 po by simp
qed

lemma preOrder_ex_heap: "preOrder ex_heap (Some 2) = Some [1, 2, 3]"
  by (simp add: preOrder_def preOrderAux.simps ex_heap_def)

theorem preorder_round_trip_witness:
  "\<exists>toks p h'. serialize ex_heap (Some 2) 0 = Some toks
           \<and> length toks = 7
           \<and> fromPreOrderInput 0 (toks @ [9]) ex_heap = Some (p, [9], h')
           \<and> equal h' p (Some 2) = Some True"
  using preorder_round_trip[OF wf_heap_ex_heap _ preOrder_ex_heap, of 0 "[9]"] by auto

section \<open>BinTree.h: equality\<close>

text \<open>
  \<open>same_roots\<close> is the right-hand side of the claim: both trees are empty, or both are not
  and their roots hold equal elements and their left and right subtrees are equal.
  \<open>change_at ds y t\<close> is \<open>t\<close> with the element at the end of the path \<open>ds\<close> replaced by \<open>y\<close>.
  Elements are compared with the equality of their type.
\<close>

datatype dir = GoLeft | GoRight

fun elem_at :: "dir list \<Rightarrow> 'a tree \<Rightarrow> 'a option" where
  "elem_at ds Tip = None"
| "elem_at [] (Fork l x r) = Some x"
| "elem_at (GoLeft # ds) (Fork l x r) = elem_at ds l"
| "elem_at (GoRight # ds) (Fork l x r) = elem_at ds r"

fun change_at :: "dir list \<Rightarrow> 'a \<Rightarrow> 'a tree \<Rightarrow> 'a tree" where
  "change_at ds y Tip = Tip"
| "change_at [] y (Fork l x r) = Fork l y r"
| "change_at (GoLeft # ds) y (Fork l x r) = Fork (change_at ds y l) x r"
| "change_at (GoRight # ds) y (Fork l x r) = Fork l x (change_at ds y r)"

lemma change_at_differs: "elem_at ds t = Some x \<Longrightarrow> y \<noteq> x \<Longrightarrow> change_at ds y t \<noteq> t"
  by (induction ds y t rule: change_at.induct) auto

definition same_roots :: "'a heap \<Rightarrow> ptr \<Rightarrow> ptr \<Rightarrow> bool" where
  "same_roots h t1 t2 =
     (case (t1, t2) of
        (None, None) \<Rightarrow> True
      | (Some a, Some b) \<Rightarrow>
          (case (cells h a, cells h b) of
             (Some n1, Some n2) \<Rightarrow>
               n_elem n1 = n_elem n2
               \<and> equal h (n_left n1) (n_left n2) = Some True
               \<and> equal h (n_right n1) (n_right n2) = Some True
           | _ \<Rightarrow> False)
      | _ \<Rightarrow> False)"

lemma equal_repr: "repr h p t \<Longrightarrow> repr h q t' \<Longrightarrow> equal h p q = Some (t = t')"
  by (simp add: equal_def compareAux_repr)

lemma same_roots_repr:
  assumes "repr h p t" "repr h q t'"
  shows "same_roots h p q = (t = t')"
  using assms(1)
proof (cases rule: repr.cases)
  case repr_None
  then show ?thesis using repr_Tip_iff[OF assms(2)] by (cases q) (auto simp: same_roots_def)
next
  case (repr_Some a n1 l r)
  show ?thesis
  proof (cases q)
    case None
    then show ?thesis using repr_Tip_iff[OF assms(2)] repr_Some by (auto simp: same_roots_def)
  next
    case (Some b)
    from assms(2)[unfolded Some] show ?thesis
    proof (rule repr_SomeE)
      fix n2 l' r'
      assume q: "t' = Fork l' (n_elem n2) r'" "cells h b = Some n2" "repr h (n_left n2) l'"
        "repr h (n_right n2) r'"
      have "equal h (n_left n1) (n_left n2) = Some (l = l')"
        "equal h (n_right n1) (n_right n2) = Some (r = r')"
        using equal_repr repr_Some q by blast+
      then show ?thesis using repr_Some q Some by (auto simp: same_roots_def)
    qed
  qed
qed

text \<open>
  C6. For two handles that stand for the trees \<open>T1\<close> and \<open>T2\<close>, \<^verbatim>\<open>t1 == t2\<close> returns
  whether both are empty or both have equal root elements and equal left and equal right
  subtrees; that is, whether \<open>T1 = T2\<close>, wherever the nodes are. \<^verbatim>\<open>!=\<close> is its negation,
  \<^verbatim>\<open>t1 == t1\<close> is true, and a tree that differs from \<open>T1\<close> in one element is not equal
  to it.
\<close>

theorem equality_is_structural:
  assumes "repr h t1 T1" and "repr h t2 T2"
  shows "equal h t1 t2 = Some (same_roots h t1 t2)
       \<and> equal h t1 t2 = Some (T1 = T2)
       \<and> not_equal h t1 t2 = Some (T1 \<noteq> T2)
       \<and> equal h t1 t1 = Some True
       \<and> (\<forall>ds x y. elem_at ds T1 = Some x \<and> y \<noteq> x \<and> T2 = change_at ds y T1 \<longrightarrow>
             equal h t1 t2 = Some False)"
proof -
  have e: "equal h t1 t2 = Some (T1 = T2)" using equal_repr[OF assms] .
  have "equal h t1 t1 = Some True" using equal_repr[OF assms(1) assms(1)] by simp
  moreover have "T2 \<noteq> T1" if "elem_at ds T1 = Some x" "y \<noteq> x" "T2 = change_at ds y T1" for ds x y
    using change_at_differs[OF that(1,2)] that(3) by simp
  ultimately show ?thesis using e same_roots_repr[OF assms] by (auto simp: not_equal_def)
qed

definition three_trees :: "int heap" where
  "three_trees =
     \<lparr>cells = [0 \<mapsto> \<lparr>n_elem = 2, n_left = None, n_right = None, n_refs = 1\<rparr>,
               1 \<mapsto> \<lparr>n_elem = 3, n_left = None, n_right = None, n_refs = 1\<rparr>,
               2 \<mapsto> \<lparr>n_elem = 1, n_left = Some 0, n_right = Some 1, n_refs = 1\<rparr>,
               3 \<mapsto> \<lparr>n_elem = 2, n_left = None, n_right = None, n_refs = 1\<rparr>,
               4 \<mapsto> \<lparr>n_elem = 3, n_left = None, n_right = None, n_refs = 1\<rparr>,
               5 \<mapsto> \<lparr>n_elem = 1, n_left = Some 3, n_right = Some 4, n_refs = 1\<rparr>,
               6 \<mapsto> \<lparr>n_elem = 2, n_left = None, n_right = None, n_refs = 1\<rparr>,
               7 \<mapsto> \<lparr>n_elem = 4, n_left = None, n_right = None, n_refs = 1\<rparr>,
               8 \<mapsto> \<lparr>n_elem = 1, n_left = Some 6, n_right = Some 7, n_refs = 1\<rparr>],
      brk = 9\<rparr>"

lemma repr_leaf:
  "cells h a = Some nd \<Longrightarrow> n_left nd = None \<Longrightarrow> n_right nd = None \<Longrightarrow> n_elem nd = x \<Longrightarrow>
   repr h (Some a) (Fork Tip x Tip)"
  using repr.repr_Some[of h a nd Tip Tip] by (simp add: repr.repr_None)

lemma repr_fork:
  "cells h a = Some nd \<Longrightarrow> n_left nd = Some b \<Longrightarrow> n_right nd = Some c \<Longrightarrow> n_elem nd = x \<Longrightarrow>
   repr h (Some b) l \<Longrightarrow> repr h (Some c) r \<Longrightarrow> repr h (Some a) (Fork l x r)"
  using repr.repr_Some[of h a nd l r] by simp

lemma repr_three_trees:
  "repr three_trees (Some 2) (Fork (Fork Tip 2 Tip) 1 (Fork Tip 3 Tip))"
  "repr three_trees (Some 5) (Fork (Fork Tip 2 Tip) 1 (Fork Tip 3 Tip))"
  "repr three_trees (Some 8) (Fork (Fork Tip 2 Tip) 1 (Fork Tip 4 Tip))"
  by (rule repr_fork[where b = 0 and c = 1] repr_fork[where b = 3 and c = 4]
        repr_fork[where b = 6 and c = 7] repr_leaf | simp add: three_trees_def)+

theorem equality_is_structural_witness:
  "equal three_trees (Some 2) (Some 5) = Some True
   \<and> equal three_trees (Some 2) (Some 2) = Some True
   \<and> equal three_trees (Some 2) (Some 8) = Some False
   \<and> not_equal three_trees (Some 2) (Some 8) = Some True"
  using equality_is_structural[OF repr_three_trees(1) repr_three_trees(2), THEN conjunct2]
    equality_is_structural[OF repr_three_trees(1) repr_three_trees(3), THEN conjunct2]
  by simp

section \<open>BinTree.h: the traversal by levels and the in-order builder\<close>

text \<open>
  \<open>bfs\<close> is the loop of \<^verbatim>\<open>levels()\<close> on trees as values: the queue holds trees, and only
  those that are not empty are added (\<open>kids\<close>). \<open>parse_in\<close> is \<^verbatim>\<open>fromInOrderInput\<close> on
  trees as values.
\<close>

definition kids :: "'a tree \<Rightarrow> 'a tree list" where
  "kids t = (if t = Tip then [] else [t])"

function bfs :: "'a tree list \<Rightarrow> 'a list" where
  "bfs [] = []"
| "bfs (Tip # ts) = bfs ts"
| "bfs (Fork l x r # ts) = x # bfs (ts @ kids l @ kids r)"
  by pat_completeness auto
termination
  by (relation "measure (\<lambda>ts. sum_list (map (\<lambda>t. 2 * size t + 1) ts))") (auto simp: kids_def)

definition levels_of :: "'a tree \<Rightarrow> 'a list" where
  "levels_of t = bfs (kids t)"

lemma push_if_kids:
  "repr h p t \<Longrightarrow> list_all2 (\<lambda>a t. repr h (Some a) t) (push_if p) (kids t)"
  using repr_Tip_iff[of h p t] by (cases p) (auto simp: push_if_def kids_def)

lemma levels_loop_repr:
  "list_all2 (\<lambda>a t. repr h (Some a) t) pending ts \<Longrightarrow>
   levels_loop h pending ret = Some (ret @ bfs ts)"
proof (induction ts arbitrary: pending ret rule: bfs.induct)
  case 1
  then show ?case by (subst levels_loop.simps) simp
next
  case (2 ts)
  then obtain a rest where "pending = a # rest" "repr h (Some a) Tip"
    by (auto simp: list_all2_Cons2)
  then show ?case by (auto elim: repr_SomeE)
next
  case (3 l x r ts)
  from "3.prems" obtain a rest where p: "pending = a # rest" "repr h (Some a) (Fork l x r)"
    "list_all2 (\<lambda>a t. repr h (Some a) t) rest ts"
    by (auto simp: list_all2_Cons2)
  from p(2) obtain nd where nd: "cells h a = Some nd" "n_elem nd = x" "repr h (n_left nd) l"
    "repr h (n_right nd) r"
    by (auto elim: repr_SomeE)
  have "list_all2 (\<lambda>a t. repr h (Some a) t) (rest @ push_if (n_left nd) @ push_if (n_right nd))
          (ts @ kids l @ kids r)"
    using p(3) push_if_kids[OF nd(3)] push_if_kids[OF nd(4)] by (intro list_all2_appendI)
  from "3.IH"[OF this, of "ret @ [x]"] show ?case
    using p(1) nd(1,2) by (subst levels_loop.simps) simp
qed

lemma levels_repr: "repr h p t \<Longrightarrow> levels h p = Some (levels_of t)"
proof (cases p)
  case None
  assume "repr h p t"
  then have "t = Tip" using repr_Tip_iff None by blast
  then show ?thesis using None by (simp add: levels_def levels_of_def kids_def)
next
  case (Some a)
  assume r: "repr h p t"
  then have "t \<noteq> Tip" using repr_Tip_iff Some by blast
  then have "list_all2 (\<lambda>a t. repr h (Some a) t) [a] (kids t)" using r Some by (simp add: kids_def)
  from levels_loop_repr[OF this, of "[]"] show ?thesis using Some by (simp add: levels_def levels_of_def)
qed

lemma build_and_release:
  assumes w: "wf_heap h3 (R + ptr_mset p1 + ptr_mset p2)" and r1: "repr h3 p1 l" and r2: "repr h3 p2 r"
  shows "\<exists>h4 h5 h6. BinTree_node p1 x p2 h3 = Some (Some (brk h3), h4)
           \<and> destroy p2 h4 = Some h5 \<and> destroy p1 h5 = Some h6
           \<and> wf_heap h6 (R + {#brk h3#}) \<and> repr h6 (Some (brk h3)) (Fork l x r) \<and> keeps R h3 h6"
proof -
  let ?R3 = "R + ptr_mset p1 + ptr_mset p2"
  have "ptr_mset p1 \<subseteq># ?R3 + links h3" "ptr_mset p2 \<subseteq># ?R3 + links h3"
    by (simp_all add: subset_mset.add_increasing2)
  from wf_heap_BinTree_node[OF w this, of x] obtain h4 rf where
    4: "BinTree_node p1 x p2 h3 = Some (Some (brk h3), h4)" "wf_heap h4 (?R3 + {#brk h3#})"
      "extends h3 h4"
      "cells h4 (brk h3) = Some \<lparr>n_elem = x, n_left = p1, n_right = p2, n_refs = rf\<rparr>"
    by blast
  let ?a = "brk h3"
  have r4: "repr h4 (Some ?a) (Fork l x r)"
    using repr.repr_Some[OF 4(4), of l r] repr_extends[OF r1 4(3)] repr_extends[OF r2 4(3)]
    by simp
  have s5: "ptr_mset p2 \<subseteq># ?R3 + {#?a#}" by simp
  from wf_heap_free[OF 4(2) s5] obtain h5 where 5: "free p2 h4 = Some h5" by blast
  have w5: "wf_heap h5 (R + ptr_mset p1 + {#?a#})" and k5: "keeps (R + ptr_mset p1 + {#?a#}) h4 h5"
    using keeps_free[OF 4(2) s5 5] by simp_all
  have s6: "ptr_mset p1 \<subseteq># R + ptr_mset p1 + {#?a#}" by simp
  from wf_heap_free[OF w5 s6] obtain h6 where 6: "free p1 h5 = Some h6" by blast
  have w6: "wf_heap h6 (R + {#?a#})" and k6: "keeps (R + {#?a#}) h5 h6"
    using keeps_free[OF w5 s6 6] by simp_all
  have r6: "repr h6 (Some ?a) (Fork l x r)"
    using keepsD[OF k6 _ keepsD[OF k5 _ r4]] by simp
  have k: "keeps R h3 h6"
    using keeps_trans[OF keeps_extends[OF 4(3)]
                    keeps_trans[OF keeps_mono[OF k5] keeps_mono[OF k6]]]
    by simp
  show ?thesis using 4(1) 5 6 w6 r6 k by (simp add: destroy_def)
qed

partial_function (option) parse_in :: "'a token list \<Rightarrow> ('a tree \<times> 'a token list) option" where
  "parse_in inp =
     (case inp of
        Sym c # inp1 \<Rightarrow>
          if c = CHR ''.'' then Some (Tip, inp1)
          else if c \<noteq> CHR ''('' then None
          else
            do {
              (left, inp2) \<leftarrow> parse_in inp1;
              (case inp2 of
                 Val e # inp3 \<Rightarrow>
                   do {
                     (right, inp4) \<leftarrow> parse_in inp3;
                     (case inp4 of
                        Sym c2 # inp5 \<Rightarrow>
                          if c2 \<noteq> CHR '')'' then None else Some (Fork left e right, inp5)
                      | _ \<Rightarrow> None)
                   }
               | _ \<Rightarrow> None)
            }
      | _ \<Rightarrow> None)"

lemma fromInOrderInput_refines:
  "wf_heap h R \<Longrightarrow>
     (case parse_in inp of
        None \<Rightarrow> fromInOrderInput inp h = None
      | Some (t, rest) \<Rightarrow>
          (\<exists>p h'. fromInOrderInput inp h = Some (p, rest, h') \<and> wf_heap h' (R + ptr_mset p)
             \<and> repr h' p t \<and> keeps R h h' \<and> length rest < length inp))"
proof (induction "length inp" arbitrary: inp h R rule: less_induct)
  case less
  let ?goal = "case parse_in inp of
        None \<Rightarrow> fromInOrderInput inp h = None
      | Some (t, rest) \<Rightarrow>
          (\<exists>p h'. fromInOrderInput inp h = Some (p, rest, h') \<and> wf_heap h' (R + ptr_mset p)
             \<and> repr h' p t \<and> keeps R h h' \<and> length rest < length inp)"
  have stuck: ?goal if "parse_in inp = None" "fromInOrderInput inp h = None"
    using that by simp
  show ?case
  proof (cases inp)
    case Nil
    then show ?thesis by (subst parse_in.simps, subst fromInOrderInput.simps) simp
  next
    case (Cons tok inp1)
    show ?thesis
    proof (cases tok)
      case (Val v)
      then show ?thesis using Cons by (subst parse_in.simps, subst fromInOrderInput.simps) simp
    next
      case (Sym c)
      consider "c = CHR ''.''" | "c \<noteq> CHR ''.''" "c \<noteq> CHR ''(''" | "c = CHR ''(''" by auto
      then show ?thesis
      proof cases
        case 1
        then show ?thesis
          using Cons Sym less.prems repr.repr_None
          by (subst parse_in.simps, subst fromInOrderInput.simps)
             (simp add: BinTree_empty_def keeps_refl)
      next
        case 2
        then show ?thesis using Cons Sym
          by (subst parse_in.simps, subst fromInOrderInput.simps) simp
      next
        case 3
        have u1: "parse_in inp = do {
              (left, inp2) \<leftarrow> parse_in inp1;
              (case inp2 of
                 Val e # inp3 \<Rightarrow>
                   do {
                     (right, inp4) \<leftarrow> parse_in inp3;
                     (case inp4 of
                        Sym c2 # inp5 \<Rightarrow>
                          if c2 \<noteq> CHR '')'' then None else Some (Fork left e right, inp5)
                      | _ \<Rightarrow> None)
                   }
               | _ \<Rightarrow> None) }"
          using Cons Sym 3 by (subst parse_in.simps) simp
        have u2: "fromInOrderInput inp h = do {
              (left, inp2, h2) \<leftarrow> fromInOrderInput inp1 h;
              (case inp2 of
                 Val e # inp3 \<Rightarrow>
                   do {
                     (right, inp4, h4) \<leftarrow> fromInOrderInput inp3 h2;
                     (case inp4 of
                        Sym c2 # inp5 \<Rightarrow>
                          if c2 \<noteq> CHR '')'' then None
                          else
                            do {
                              (result, h5) \<leftarrow> BinTree_node left e right h4;
                              h6 \<leftarrow> destroy right h5;
                              h7 \<leftarrow> destroy left h6;
                              Some (result, inp5, h7)
                            }
                      | _ \<Rightarrow> None)
                   }
               | _ \<Rightarrow> None) }"
          using Cons Sym 3 by (subst fromInOrderInput.simps) simp
        have IH1: "case parse_in inp1 of
            None \<Rightarrow> fromInOrderInput inp1 h = None
          | Some (t, rest) \<Rightarrow>
              (\<exists>p h'. fromInOrderInput inp1 h = Some (p, rest, h') \<and> wf_heap h' (R + ptr_mset p)
                 \<and> repr h' p t \<and> keeps R h h' \<and> length rest < length inp1)"
          using less.hyps[of inp1 h R] less.prems Cons by simp
        show ?thesis
        proof (cases "parse_in inp1")
          case None
          then show ?thesis using IH1 u1 u2 by simp
        next
          case (Some a)
          obtain l inp2 where a: "a = (l, inp2)" by (cases a)
          from IH1 Some a obtain p1 h2 where
            1: "fromInOrderInput inp1 h = Some (p1, inp2, h2)" "wf_heap h2 (R + ptr_mset p1)"
              "repr h2 p1 l" "keeps R h h2" "length inp2 < length inp1"
            by auto
          have P1: "parse_in inp = (case inp2 of
                 Val e # inp3 \<Rightarrow>
                   do {
                     (right, inp4) \<leftarrow> parse_in inp3;
                     (case inp4 of
                        Sym c2 # inp5 \<Rightarrow>
                          if c2 \<noteq> CHR '')'' then None else Some (Fork l e right, inp5)
                      | _ \<Rightarrow> None)
                   }
               | _ \<Rightarrow> None)"
            using u1 Some a by simp
          have F1: "fromInOrderInput inp h = (case inp2 of
                 Val e # inp3 \<Rightarrow>
                   do {
                     (right, inp4, h4) \<leftarrow> fromInOrderInput inp3 h2;
                     (case inp4 of
                        Sym c2 # inp5 \<Rightarrow>
                          if c2 \<noteq> CHR '')'' then None
                          else
                            do {
                              (result, h5) \<leftarrow> BinTree_node p1 e right h4;
                              h6 \<leftarrow> destroy right h5;
                              h7 \<leftarrow> destroy p1 h6;
                              Some (result, inp5, h7)
                            }
                      | _ \<Rightarrow> None)
                   }
               | _ \<Rightarrow> None)"
            using u2 1(1) by simp
          show ?thesis
          proof (cases inp2)
            case Nil
            then show ?thesis using P1 F1 by simp
          next
            case c2: (Cons tok2 inp3)
            show ?thesis
            proof (cases tok2)
              case (Sym c')
              then show ?thesis using P1 F1 c2 by simp
            next
              case (Val e)
              have IH2: "case parse_in inp3 of
                  None \<Rightarrow> fromInOrderInput inp3 h2 = None
                | Some (t, rest) \<Rightarrow>
                    (\<exists>p h'. fromInOrderInput inp3 h2 = Some (p, rest, h')
                       \<and> wf_heap h' (R + ptr_mset p1 + ptr_mset p)
                       \<and> repr h' p t \<and> keeps (R + ptr_mset p1) h2 h' \<and> length rest < length inp3)"
                using less.hyps[of inp3 h2 "R + ptr_mset p1"] 1(2,5) Cons c2 by simp
              show ?thesis
              proof (cases "parse_in inp3")
                case None
                then show ?thesis using IH2 P1 F1 c2 Val by simp
              next
                case (Some b)
                obtain r inp4 where b: "b = (r, inp4)" by (cases b)
                from IH2 Some b obtain p2 h4 where
                  2: "fromInOrderInput inp3 h2 = Some (p2, inp4, h4)"
                    "wf_heap h4 (R + ptr_mset p1 + ptr_mset p2)" "repr h4 p2 r"
                    "keeps (R + ptr_mset p1) h2 h4" "length inp4 < length inp3"
                  by auto
                have P2: "parse_in inp = (case inp4 of
                        Sym c2 # inp5 \<Rightarrow>
                          if c2 \<noteq> CHR '')'' then None else Some (Fork l e r, inp5)
                      | _ \<Rightarrow> None)"
                  using P1 c2 Val Some b by simp
                have F2: "fromInOrderInput inp h = (case inp4 of
                        Sym c2 # inp5 \<Rightarrow>
                          if c2 \<noteq> CHR '')'' then None
                          else
                            do {
                              (result, h5) \<leftarrow> BinTree_node p1 e p2 h4;
                              h6 \<leftarrow> destroy p2 h5;
                              h7 \<leftarrow> destroy p1 h6;
                              Some (result, inp5, h7)
                            }
                      | _ \<Rightarrow> None)"
                  using F1 c2 Val 2(1) by simp
                show ?thesis
                proof (cases inp4)
                  case Nil
                  then show ?thesis using P2 F2 by simp
                next
                  case c4: (Cons tok4 inp5)
                  show ?thesis
                  proof (cases tok4)
                    case v4: (Val v)
                    then show ?thesis using P2 F2 c4 by simp
                  next
                    case s4: (Sym c'')
                    show ?thesis
                    proof (cases "c'' = CHR '')''")
                      case False
                      then show ?thesis using P2 F2 c4 s4 by simp
                    next
                      case True
                      have r1: "repr h4 p1 l" using keepsD[OF 2(4) _ 1(3)] by simp
                      from build_and_release[OF 2(2) r1 2(3), of e] obtain h5 h6 h7 where
                        3: "BinTree_node p1 e p2 h4 = Some (Some (brk h4), h5)"
                          "destroy p2 h5 = Some h6" "destroy p1 h6 = Some h7"
                          "wf_heap h7 (R + {#brk h4#})" "repr h7 (Some (brk h4)) (Fork l e r)"
                          "keeps R h4 h7"
                        by blast
                      have f: "fromInOrderInput inp h = Some (Some (brk h4), inp5, h7)"
                        using F2 c4 s4 True 3(1,2,3) by simp
                      have p: "parse_in inp = Some (Fork l e r, inp5)"
                        using P2 c4 s4 True by simp
                      have k: "keeps R h h7"
                        using keeps_trans[OF 1(4) keeps_trans[OF keeps_mono[OF 2(4)] 3(6)]] by simp
                      have "length inp5 < length inp" using 1(5) 2(5) Cons c2 c4 by simp
                      then show ?thesis using f p 3(4,5) k by simp
                    qed
                  qed
                qed
              qed
            qed
          qed
        qed
      qed
    qed
  qed
qed

section \<open>BinTreeSmart.h: binary tree with shared pointers\<close>

text \<open>
  \<^verbatim>\<open>Link\<close> is \<^verbatim>\<open>std::shared_ptr<Node>\<close>: an optional address, compared by address. A node
  has no counter of its own; the library deletes it when the last \<^verbatim>\<open>Link\<close> to it is gone,
  so a \<^verbatim>\<open>Link\<close> never points to a deleted node and no operation can tell whether a node
  that nothing points to is still there. The heap of this class therefore only grows:
  \<^verbatim>\<open>std::make_shared\<close> stores the node at a new address. The class declares no destructor,
  copy constructor or assignment: the implicit ones copy or release the \<^verbatim>\<open>Link\<close>.
\<close>

record 'a SNode =
  sn_elem :: 'a
  sn_left :: ptr
  sn_right :: ptr

record 'a sheap =
  snodes :: "addr \<rightharpoonup> 'a SNode"
  sbrk :: addr

definition empty_sheap :: "'a sheap" where
  "empty_sheap = \<lparr>snodes = Map.empty, sbrk = 0\<rparr>"

definition make_shared :: "'a SNode \<Rightarrow> 'a sheap \<Rightarrow> ptr \<times> 'a sheap" where
  "make_shared nd h = (Some (sbrk h), h\<lparr>snodes := (snodes h)(sbrk h \<mapsto> nd), sbrk := Suc (sbrk h)\<rparr>)"

text \<open>
  The constructors. A \<^verbatim>\<open>BinTreeSmart\<close> object has the single field \<^verbatim>\<open>_root\<close>; the protected
  \<^verbatim>\<open>BinTreeSmart(Link raiz)\<close> stores its argument.
\<close>

definition BinTreeSmart_empty :: ptr where
  "BinTreeSmart_empty = None"

definition BinTreeSmart_node :: "ptr \<Rightarrow> 'a \<Rightarrow> ptr \<Rightarrow> 'a sheap \<Rightarrow> ptr \<times> 'a sheap" where
  "BinTreeSmart_node l e r h = make_shared \<lparr>sn_elem = e, sn_left = l, sn_right = r\<rparr> h"

definition BinTreeSmart_leaf :: "'a \<Rightarrow> 'a sheap \<Rightarrow> ptr \<times> 'a sheap" where
  "BinTreeSmart_leaf e h = make_shared \<lparr>sn_elem = e, sn_left = None, sn_right = None\<rparr> h"

definition BinTreeSmart_from :: "ptr \<Rightarrow> ptr" where
  "BinTreeSmart_from raiz = raiz"

text \<open>
  The observers, traversals, counters, comparison and builders have the bodies of their
  namesakes in \<^verbatim>\<open>BinTree.h\<close>, with \<^verbatim>\<open>Link\<close> for \<^verbatim>\<open>Node*\<close>; \<^verbatim>\<open>left()\<close> and \<^verbatim>\<open>right()\<close>
  change nothing in the heap.
\<close>

definition Smart_empty :: "ptr \<Rightarrow> bool" where
  "Smart_empty t = (t = None)"

definition Smart_elem :: "'a sheap \<Rightarrow> ptr \<Rightarrow> (exn + 'a) option" where
  "Smart_elem h t =
     (case t of
        None \<Rightarrow> Some (Inl EmptyTreeException)
      | Some a \<Rightarrow> do { nd \<leftarrow> snodes h a; Some (Inr (sn_elem nd)) })"

definition Smart_left :: "'a sheap \<Rightarrow> ptr \<Rightarrow> (exn + ptr) option" where
  "Smart_left h t =
     (case t of
        None \<Rightarrow> Some (Inl EmptyTreeException)
      | Some a \<Rightarrow> do { nd \<leftarrow> snodes h a; Some (Inr (BinTreeSmart_from (sn_left nd))) })"

definition Smart_right :: "'a sheap \<Rightarrow> ptr \<Rightarrow> (exn + ptr) option" where
  "Smart_right h t =
     (case t of
        None \<Rightarrow> Some (Inl EmptyTreeException)
      | Some a \<Rightarrow> do { nd \<leftarrow> snodes h a; Some (Inr (BinTreeSmart_from (sn_right nd))) })"

partial_function (option) Smart_preOrderAux :: "'a sheap \<Rightarrow> ptr \<Rightarrow> 'a list \<Rightarrow> 'a list option" where
  "Smart_preOrderAux h root acc =
     (case root of
        None \<Rightarrow> Some acc
      | Some a \<Rightarrow>
          do {
            nd \<leftarrow> snodes h a;
            acc1 \<leftarrow> Smart_preOrderAux h (sn_left nd) (acc @ [sn_elem nd]);
            Smart_preOrderAux h (sn_right nd) acc1
          })"

partial_function (option) Smart_inOrderAux :: "'a sheap \<Rightarrow> ptr \<Rightarrow> 'a list \<Rightarrow> 'a list option" where
  "Smart_inOrderAux h root acc =
     (case root of
        None \<Rightarrow> Some acc
      | Some a \<Rightarrow>
          do {
            nd \<leftarrow> snodes h a;
            acc1 \<leftarrow> Smart_inOrderAux h (sn_left nd) acc;
            Smart_inOrderAux h (sn_right nd) (acc1 @ [sn_elem nd])
          })"

partial_function (option) Smart_postOrderAux :: "'a sheap \<Rightarrow> ptr \<Rightarrow> 'a list \<Rightarrow> 'a list option" where
  "Smart_postOrderAux h root acc =
     (case root of
        None \<Rightarrow> Some acc
      | Some a \<Rightarrow>
          do {
            nd \<leftarrow> snodes h a;
            acc1 \<leftarrow> Smart_postOrderAux h (sn_left nd) acc;
            acc2 \<leftarrow> Smart_postOrderAux h (sn_right nd) acc1;
            Some (acc2 @ [sn_elem nd])
          })"

definition Smart_preOrder :: "'a sheap \<Rightarrow> ptr \<Rightarrow> 'a list option" where
  "Smart_preOrder h t = Smart_preOrderAux h t []"

definition Smart_inOrder :: "'a sheap \<Rightarrow> ptr \<Rightarrow> 'a list option" where
  "Smart_inOrder h t = Smart_inOrderAux h t []"

definition Smart_postOrder :: "'a sheap \<Rightarrow> ptr \<Rightarrow> 'a list option" where
  "Smart_postOrder h t = Smart_postOrderAux h t []"

partial_function (option) Smart_levels_loop ::
    "'a sheap \<Rightarrow> addr list \<Rightarrow> 'a list \<Rightarrow> 'a list option" where
  "Smart_levels_loop h pending ret =
     (case pending of
        [] \<Rightarrow> Some ret
      | current # rest \<Rightarrow>
          do {
            nd \<leftarrow> snodes h current;
            Smart_levels_loop h (rest @ push_if (sn_left nd) @ push_if (sn_right nd))
              (ret @ [sn_elem nd])
          })"

definition Smart_levels :: "'a sheap \<Rightarrow> ptr \<Rightarrow> 'a list option" where
  "Smart_levels h t = (case t of None \<Rightarrow> Some [] | Some a \<Rightarrow> Smart_levels_loop h [a] [])"

partial_function (option) Smart_nodeCountAux :: "'a sheap \<Rightarrow> ptr \<Rightarrow> 32 word option" where
  "Smart_nodeCountAux h root =
     (case root of
        None \<Rightarrow> Some 0
      | Some a \<Rightarrow>
          do {
            nd \<leftarrow> snodes h a;
            l \<leftarrow> Smart_nodeCountAux h (sn_left nd);
            r \<leftarrow> Smart_nodeCountAux h (sn_right nd);
            Some (1 + l + r)
          })"

partial_function (option) Smart_depthAux :: "'a sheap \<Rightarrow> ptr \<Rightarrow> 32 word option" where
  "Smart_depthAux h root =
     (case root of
        None \<Rightarrow> Some 0
      | Some a \<Rightarrow>
          do {
            nd \<leftarrow> snodes h a;
            leftDepth \<leftarrow> Smart_depthAux h (sn_left nd);
            rightDepth \<leftarrow> Smart_depthAux h (sn_right nd);
            Some (if sint leftDepth > sint rightDepth then 1 + leftDepth else 1 + rightDepth)
          })"

partial_function (option) Smart_leafCountAux :: "'a sheap \<Rightarrow> ptr \<Rightarrow> 32 word option" where
  "Smart_leafCountAux h root =
     (case root of
        None \<Rightarrow> Some 0
      | Some a \<Rightarrow>
          do {
            nd \<leftarrow> snodes h a;
            if sn_left nd = None \<and> sn_right nd = None then Some 1
            else do {
              l \<leftarrow> Smart_leafCountAux h (sn_left nd);
              r \<leftarrow> Smart_leafCountAux h (sn_right nd);
              Some (l + r)
            }
          })"

definition Smart_nodeCount :: "'a sheap \<Rightarrow> ptr \<Rightarrow> 32 word option" where
  "Smart_nodeCount h t = Smart_nodeCountAux h t"

definition Smart_depth :: "'a sheap \<Rightarrow> ptr \<Rightarrow> 32 word option" where
  "Smart_depth h t = Smart_depthAux h t"

definition Smart_leafCount :: "'a sheap \<Rightarrow> ptr \<Rightarrow> 32 word option" where
  "Smart_leafCount h t = Smart_leafCountAux h t"

partial_function (option) Smart_compareAux :: "'a sheap \<Rightarrow> ptr \<Rightarrow> ptr \<Rightarrow> bool option" where
  "Smart_compareAux h r1 r2 =
     (if r1 = r2 then Some True
      else
        (case r1 of
           None \<Rightarrow> Some False
         | Some a1 \<Rightarrow>
             (case r2 of
                None \<Rightarrow> Some False
              | Some a2 \<Rightarrow>
                  do {
                    n1 \<leftarrow> snodes h a1;
                    n2 \<leftarrow> snodes h a2;
                    if sn_elem n1 = sn_elem n2 then
                      do {
                        l \<leftarrow> Smart_compareAux h (sn_left n1) (sn_left n2);
                        if l then Smart_compareAux h (sn_right n1) (sn_right n2) else Some False
                      }
                    else Some False
                  })))"

definition Smart_equal :: "'a sheap \<Rightarrow> ptr \<Rightarrow> ptr \<Rightarrow> bool option" where
  "Smart_equal h t rhs = Smart_compareAux h t rhs"

definition Smart_not_equal :: "'a sheap \<Rightarrow> ptr \<Rightarrow> ptr \<Rightarrow> bool option" where
  "Smart_not_equal h t rhs = map_option Not (Smart_equal h t rhs)"

partial_function (option) Smart_fromPreOrderInput ::
    "'a \<Rightarrow> 'a list \<Rightarrow> 'a sheap \<Rightarrow> (ptr \<times> 'a list \<times> 'a sheap) option" where
  "Smart_fromPreOrderInput emptyRep inp h =
     (case inp of
        [] \<Rightarrow> None
      | e # inp1 \<Rightarrow>
          if e = emptyRep then Some (BinTreeSmart_empty, inp1, h)
          else
            do {
              (hi, inp2, h2) \<leftarrow> Smart_fromPreOrderInput emptyRep inp1 h;
              (hd, inp3, h3) \<leftarrow> Smart_fromPreOrderInput emptyRep inp2 h2;
              (case BinTreeSmart_node hi e hd h3 of (t, h4) \<Rightarrow> Some (t, inp3, h4))
            })"

partial_function (option) Smart_fromInOrderInput ::
    "'a token list \<Rightarrow> 'a sheap \<Rightarrow> (ptr \<times> 'a token list \<times> 'a sheap) option" where
  "Smart_fromInOrderInput inp h =
     (case inp of
        Sym c # inp1 \<Rightarrow>
          if c = CHR ''.'' then Some (BinTreeSmart_empty, inp1, h)
          else if c \<noteq> CHR ''('' then None
          else
            do {
              (left, inp2, h2) \<leftarrow> Smart_fromInOrderInput inp1 h;
              (case inp2 of
                 Val e # inp3 \<Rightarrow>
                   do {
                     (right, inp4, h4) \<leftarrow> Smart_fromInOrderInput inp3 h2;
                     (case inp4 of
                        Sym c2 # inp5 \<Rightarrow>
                          if c2 \<noteq> CHR '')'' then None
                          else
                            (case BinTreeSmart_node left e right h4 of
                               (result, h5) \<Rightarrow> Some (result, inp5, h5))
                      | _ \<Rightarrow> None)
                   }
               | _ \<Rightarrow> None)
            }
      | _ \<Rightarrow> None)"

section \<open>Programs over the public operations of the two tree classes\<close>

text \<open>
  A program is a sequence of statements over tree variables, which are numbered in the
  order of their declaration. \<open>NewEmpty\<close>, \<open>NewLeaf\<close>, \<open>NewNode\<close>, \<open>Copy\<close>, \<open>GetLeft\<close>,
  \<open>GetRight\<close> and the two builders declare a new variable, initialised from the
  constructor or from the value returned; \<open>Assign i j\<close> is \<^verbatim>\<open>vi = vj\<close>; \<open>Drop i\<close> ends the
  life of the variable \<open>i\<close> (the later variables move down by one). The builders are
  given what \<^verbatim>\<open>std::cin\<close> holds when they are called. Every statement has an observation:
  the value returned, the exception thrown, what is left on the input, \<open>Done\<close> for a
  statement that returns nothing, and \<open>NoReturn\<close> when the statement neither returns nor
  throws, or names a variable that does not exist; the run ends there.
\<close>

datatype 'a cmd =
    NewEmpty | NewLeaf 'a | NewNode nat 'a nat
  | Copy nat | Assign nat nat | Drop nat
  | GetElem nat | GetLeft nat | GetRight nat | IsEmpty nat
  | PreOrder nat | InOrder nat | PostOrder nat | Levels nat
  | NodeCount nat | Depth nat | LeafCount nat
  | Equal nat nat | NotEqual nat nat
  | FromPreOrderInput 'a "'a list" | FromInOrderInput "'a token list"

datatype 'a obs =
    Done | Threw exn | GotElem 'a | GotBool bool | GotList "'a list" | GotCount "32 word"
  | Rest "'a list" | RestTokens "'a token list" | NoReturn

definition remove_at :: "nat \<Rightarrow> 'b list \<Rightarrow> 'b list" where
  "remove_at i xs = take i xs @ drop (Suc i) xs"

text \<open>The statements on \<^verbatim>\<open>BinTree<T>\<close>. \<open>left()\<close> that throws has built no object.\<close>

fun BinTree_step :: "'a cmd \<Rightarrow> ptr list \<Rightarrow> 'a heap \<Rightarrow> ('a obs \<times> ptr list \<times> 'a heap) option" where
  "BinTree_step NewEmpty vs h = Some (Done, vs @ [BinTree_empty], h)"
| "BinTree_step (NewLeaf x) vs h =
     do { (t, h') \<leftarrow> BinTree_leaf x h; Some (Done, vs @ [t], h') }"
| "BinTree_step (NewNode i x j) vs h =
     (if i < length vs \<and> j < length vs
      then do { (t, h') \<leftarrow> BinTree_node (vs ! i) x (vs ! j) h; Some (Done, vs @ [t], h') }
      else None)"
| "BinTree_step (Copy i) vs h =
     (if i < length vs
      then do { (t, h') \<leftarrow> BinTree_copy (vs ! i) h; Some (Done, vs @ [t], h') }
      else None)"
| "BinTree_step (Assign i j) vs h =
     (if i < length vs \<and> j < length vs
      then do { (t, h') \<leftarrow> assign (i = j) (vs ! i) (vs ! j) h; Some (Done, vs[i := t], h') }
      else None)"
| "BinTree_step (Drop i) vs h =
     (if i < length vs
      then do { h' \<leftarrow> destroy (vs ! i) h; Some (Done, remove_at i vs, h') }
      else None)"
| "BinTree_step (GetElem i) vs h =
     (if i < length vs
      then do { r \<leftarrow> elem h (vs ! i);
                Some (case r of Inl e \<Rightarrow> Threw e | Inr x \<Rightarrow> GotElem x, vs, h) }
      else None)"
| "BinTree_step (GetLeft i) vs h =
     (if i < length vs
      then do { (r, h') \<leftarrow> left (vs ! i) h;
                Some (case r of Inl e \<Rightarrow> (Threw e, vs, h') | Inr t \<Rightarrow> (Done, vs @ [t], h')) }
      else None)"
| "BinTree_step (GetRight i) vs h =
     (if i < length vs
      then do { (r, h') \<leftarrow> right (vs ! i) h;
                Some (case r of Inl e \<Rightarrow> (Threw e, vs, h') | Inr t \<Rightarrow> (Done, vs @ [t], h')) }
      else None)"
| "BinTree_step (IsEmpty i) vs h =
     (if i < length vs then Some (GotBool (empty (vs ! i)), vs, h) else None)"
| "BinTree_step (PreOrder i) vs h =
     (if i < length vs then do { xs \<leftarrow> preOrder h (vs ! i); Some (GotList xs, vs, h) } else None)"
| "BinTree_step (InOrder i) vs h =
     (if i < length vs then do { xs \<leftarrow> inOrder h (vs ! i); Some (GotList xs, vs, h) } else None)"
| "BinTree_step (PostOrder i) vs h =
     (if i < length vs then do { xs \<leftarrow> postOrder h (vs ! i); Some (GotList xs, vs, h) } else None)"
| "BinTree_step (Levels i) vs h =
     (if i < length vs then do { xs \<leftarrow> levels h (vs ! i); Some (GotList xs, vs, h) } else None)"
| "BinTree_step (NodeCount i) vs h =
     (if i < length vs then do { n \<leftarrow> nodeCount h (vs ! i); Some (GotCount n, vs, h) } else None)"
| "BinTree_step (Depth i) vs h =
     (if i < length vs then do { n \<leftarrow> depth h (vs ! i); Some (GotCount n, vs, h) } else None)"
| "BinTree_step (LeafCount i) vs h =
     (if i < length vs then do { n \<leftarrow> leafCount h (vs ! i); Some (GotCount n, vs, h) } else None)"
| "BinTree_step (Equal i j) vs h =
     (if i < length vs \<and> j < length vs
      then do { b \<leftarrow> equal h (vs ! i) (vs ! j); Some (GotBool b, vs, h) }
      else None)"
| "BinTree_step (NotEqual i j) vs h =
     (if i < length vs \<and> j < length vs
      then do { b \<leftarrow> not_equal h (vs ! i) (vs ! j); Some (GotBool b, vs, h) }
      else None)"
| "BinTree_step (FromPreOrderInput emptyRep inp) vs h =
     do { (t, rest, h') \<leftarrow> fromPreOrderInput emptyRep inp h; Some (Rest rest, vs @ [t], h') }"
| "BinTree_step (FromInOrderInput inp) vs h =
     do { (t, rest, h') \<leftarrow> fromInOrderInput inp h; Some (RestTokens rest, vs @ [t], h') }"

fun BinTree_steps :: "'a cmd list \<Rightarrow> ptr list \<Rightarrow> 'a heap \<Rightarrow> 'a obs list" where
  "BinTree_steps [] vs h = []"
| "BinTree_steps (c # cs) vs h =
     (case BinTree_step c vs h of
        None \<Rightarrow> [NoReturn]
      | Some (ob, vs', h') \<Rightarrow> ob # BinTree_steps cs vs' h')"

definition BinTree_run :: "'a cmd list \<Rightarrow> 'a obs list" where
  "BinTree_run cs = BinTree_steps cs [] empty_heap"

text \<open>The same statements on trees as values.\<close>

fun tree_step :: "'a cmd \<Rightarrow> 'a tree list \<Rightarrow> ('a obs \<times> 'a tree list) option" where
  "tree_step NewEmpty ts = Some (Done, ts @ [Tip])"
| "tree_step (NewLeaf x) ts = Some (Done, ts @ [Fork Tip x Tip])"
| "tree_step (NewNode i x j) ts =
     (if i < length ts \<and> j < length ts then Some (Done, ts @ [Fork (ts ! i) x (ts ! j)]) else None)"
| "tree_step (Copy i) ts = (if i < length ts then Some (Done, ts @ [ts ! i]) else None)"
| "tree_step (Assign i j) ts =
     (if i < length ts \<and> j < length ts then Some (Done, ts[i := ts ! j]) else None)"
| "tree_step (Drop i) ts = (if i < length ts then Some (Done, remove_at i ts) else None)"
| "tree_step (GetElem i) ts =
     (if i < length ts
      then Some (case ts ! i of Tip \<Rightarrow> Threw EmptyTreeException | Fork l x r \<Rightarrow> GotElem x, ts)
      else None)"
| "tree_step (GetLeft i) ts =
     (if i < length ts
      then Some (case ts ! i of Tip \<Rightarrow> (Threw EmptyTreeException, ts) | Fork l x r \<Rightarrow> (Done, ts @ [l]))
      else None)"
| "tree_step (GetRight i) ts =
     (if i < length ts
      then Some (case ts ! i of Tip \<Rightarrow> (Threw EmptyTreeException, ts) | Fork l x r \<Rightarrow> (Done, ts @ [r]))
      else None)"
| "tree_step (IsEmpty i) ts = (if i < length ts then Some (GotBool (ts ! i = Tip), ts) else None)"
| "tree_step (PreOrder i) ts = (if i < length ts then Some (GotList (pre_order (ts ! i)), ts) else None)"
| "tree_step (InOrder i) ts = (if i < length ts then Some (GotList (in_order (ts ! i)), ts) else None)"
| "tree_step (PostOrder i) ts = (if i < length ts then Some (GotList (post_order (ts ! i)), ts) else None)"
| "tree_step (Levels i) ts = (if i < length ts then Some (GotList (levels_of (ts ! i)), ts) else None)"
| "tree_step (NodeCount i) ts = (if i < length ts then Some (GotCount (node_count (ts ! i)), ts) else None)"
| "tree_step (Depth i) ts = (if i < length ts then Some (GotCount (tree_depth (ts ! i)), ts) else None)"
| "tree_step (LeafCount i) ts = (if i < length ts then Some (GotCount (leaf_count (ts ! i)), ts) else None)"
| "tree_step (Equal i j) ts =
     (if i < length ts \<and> j < length ts then Some (GotBool (ts ! i = ts ! j), ts) else None)"
| "tree_step (NotEqual i j) ts =
     (if i < length ts \<and> j < length ts then Some (GotBool (ts ! i \<noteq> ts ! j), ts) else None)"
| "tree_step (FromPreOrderInput emptyRep inp) ts =
     do { (t, rest) \<leftarrow> parse_pre emptyRep inp; Some (Rest rest, ts @ [t]) }"
| "tree_step (FromInOrderInput inp) ts =
     do { (t, rest) \<leftarrow> parse_in inp; Some (RestTokens rest, ts @ [t]) }"

fun tree_steps :: "'a cmd list \<Rightarrow> 'a tree list \<Rightarrow> 'a obs list" where
  "tree_steps [] ts = []"
| "tree_steps (c # cs) ts =
     (case tree_step c ts of
        None \<Rightarrow> [NoReturn]
      | Some (ob, ts') \<Rightarrow> ob # tree_steps cs ts')"

text \<open>
  \<open>handles vs\<close> counts the variables that point to each node. \<open>models h vs ts\<close>: the counts
  of the heap are right for the variables, and the variables stand for the trees \<open>ts\<close>.
\<close>

definition handles :: "ptr list \<Rightarrow> addr multiset" where
  "handles vs = sum_list (map ptr_mset vs)"

definition models :: "'a heap \<Rightarrow> ptr list \<Rightarrow> 'a tree list \<Rightarrow> bool" where
  "models h vs ts = (wf_heap h (handles vs) \<and> list_all2 (repr h) vs ts)"

lemma handles_append [simp]: "handles (vs @ ws) = handles vs + handles ws"
  by (simp add: handles_def)

lemma handles_single [simp]: "handles [p] = ptr_mset p"
  by (simp add: handles_def)

lemma handles_Cons [simp]: "handles (p # vs) = ptr_mset p + handles vs"
  by (simp add: handles_def)

lemma handles_Nil [simp]: "handles [] = {#}"
  by (simp add: handles_def)

lemma handles_split: "i < length vs \<Longrightarrow> handles vs = ptr_mset (vs ! i) + handles (remove_at i vs)"
  using id_take_nth_drop[of i vs] handles_append[of "take i vs" "vs ! i # drop (Suc i) vs"]
  by (simp add: remove_at_def)

lemma handles_remove_at: "i < length vs \<Longrightarrow> handles (remove_at i vs) = handles vs - ptr_mset (vs ! i)"
  using handles_split[of i vs] by simp

lemma handles_mem: "p \<in> set vs \<Longrightarrow> ptr_mset p \<subseteq># handles vs"
proof (induction vs)
  case Nil
  then show ?case by simp
next
  case (Cons a vs)
  then show ?case by (auto simp: subset_mset.add_increasing subset_mset.add_increasing2)
qed

lemma handles_nth: "i < length vs \<Longrightarrow> ptr_mset (vs ! i) \<subseteq># handles vs"
  by (simp add: handles_mem)

lemma remove_at_update: "i < length vs \<Longrightarrow> remove_at i (vs[i := t]) = remove_at i vs"
  by (simp add: remove_at_def)

lemma handles_update:
  "i < length vs \<Longrightarrow> handles (vs[i := t]) = handles vs - ptr_mset (vs ! i) + ptr_mset t"
  using handles_split[of i "vs[i := t]"] handles_remove_at[of i vs] by (simp add: remove_at_update)

lemma set_remove_at: "set (remove_at i vs) \<subseteq> set vs"
  by (auto simp: remove_at_def dest: in_set_takeD in_set_dropD)

lemma repr_list_keeps:
  assumes "list_all2 (repr h) vs ts" "keeps Q h h'" "\<forall>p\<in>set vs. ptr_mset p \<subseteq># Q"
  shows "list_all2 (repr h') vs ts"
  using assms(1,3)
proof (induction rule: list_all2_induct)
  case Nil
  then show ?case by simp
next
  case (Cons x xs y ys)
  then show ?case using keepsD[OF assms(2)] by simp
qed

lemma repr_list_extends: "list_all2 (repr h) vs ts \<Longrightarrow> extends h h' \<Longrightarrow> list_all2 (repr h') vs ts"
  using list_all2_mono[of "repr h" vs ts "repr h'"] repr_extends[of h _ _ h'] by blast

lemma models_length: "models h vs ts \<Longrightarrow> length vs = length ts"
  using list_all2_lengthD[of "repr h" vs ts] by (simp add: models_def)

lemma models_nth: "models h vs ts \<Longrightarrow> i < length vs \<Longrightarrow> repr h (vs ! i) (ts ! i)"
  using list_all2_nthD[of "repr h" vs ts i] by (simp add: models_def)

lemma models_wf: "models h vs ts \<Longrightarrow> wf_heap h (handles vs)"
  by (simp add: models_def)

lemma models_push:
  assumes "wf_heap h' (handles vs + ptr_mset p)" "list_all2 (repr h') vs ts" "repr h' p t"
  shows "models h' (vs @ [p]) (ts @ [t])"
  using assms by (simp add: models_def list_all2_appendI)

text \<open>
  The statements on \<^verbatim>\<open>BinTreeSmart<T>\<close>. Copying, assigning and ending a variable copy and
  release a \<^verbatim>\<open>Link\<close>.
\<close>

fun Smart_step :: "'a cmd \<Rightarrow> ptr list \<Rightarrow> 'a sheap \<Rightarrow> ('a obs \<times> ptr list \<times> 'a sheap) option" where
  "Smart_step NewEmpty vs h = Some (Done, vs @ [BinTreeSmart_empty], h)"
| "Smart_step (NewLeaf x) vs h =
     (case BinTreeSmart_leaf x h of (t, h') \<Rightarrow> Some (Done, vs @ [t], h'))"
| "Smart_step (NewNode i x j) vs h =
     (if i < length vs \<and> j < length vs
      then (case BinTreeSmart_node (vs ! i) x (vs ! j) h of (t, h') \<Rightarrow> Some (Done, vs @ [t], h'))
      else None)"
| "Smart_step (Copy i) vs h = (if i < length vs then Some (Done, vs @ [vs ! i], h) else None)"
| "Smart_step (Assign i j) vs h =
     (if i < length vs \<and> j < length vs then Some (Done, vs[i := vs ! j], h) else None)"
| "Smart_step (Drop i) vs h = (if i < length vs then Some (Done, remove_at i vs, h) else None)"
| "Smart_step (GetElem i) vs h =
     (if i < length vs
      then do { r \<leftarrow> Smart_elem h (vs ! i);
                Some (case r of Inl e \<Rightarrow> Threw e | Inr x \<Rightarrow> GotElem x, vs, h) }
      else None)"
| "Smart_step (GetLeft i) vs h =
     (if i < length vs
      then do { r \<leftarrow> Smart_left h (vs ! i);
                Some (case r of Inl e \<Rightarrow> (Threw e, vs, h) | Inr t \<Rightarrow> (Done, vs @ [t], h)) }
      else None)"
| "Smart_step (GetRight i) vs h =
     (if i < length vs
      then do { r \<leftarrow> Smart_right h (vs ! i);
                Some (case r of Inl e \<Rightarrow> (Threw e, vs, h) | Inr t \<Rightarrow> (Done, vs @ [t], h)) }
      else None)"
| "Smart_step (IsEmpty i) vs h =
     (if i < length vs then Some (GotBool (Smart_empty (vs ! i)), vs, h) else None)"
| "Smart_step (PreOrder i) vs h =
     (if i < length vs then do { xs \<leftarrow> Smart_preOrder h (vs ! i); Some (GotList xs, vs, h) } else None)"
| "Smart_step (InOrder i) vs h =
     (if i < length vs then do { xs \<leftarrow> Smart_inOrder h (vs ! i); Some (GotList xs, vs, h) } else None)"
| "Smart_step (PostOrder i) vs h =
     (if i < length vs then do { xs \<leftarrow> Smart_postOrder h (vs ! i); Some (GotList xs, vs, h) } else None)"
| "Smart_step (Levels i) vs h =
     (if i < length vs then do { xs \<leftarrow> Smart_levels h (vs ! i); Some (GotList xs, vs, h) } else None)"
| "Smart_step (NodeCount i) vs h =
     (if i < length vs then do { n \<leftarrow> Smart_nodeCount h (vs ! i); Some (GotCount n, vs, h) } else None)"
| "Smart_step (Depth i) vs h =
     (if i < length vs then do { n \<leftarrow> Smart_depth h (vs ! i); Some (GotCount n, vs, h) } else None)"
| "Smart_step (LeafCount i) vs h =
     (if i < length vs then do { n \<leftarrow> Smart_leafCount h (vs ! i); Some (GotCount n, vs, h) } else None)"
| "Smart_step (Equal i j) vs h =
     (if i < length vs \<and> j < length vs
      then do { b \<leftarrow> Smart_equal h (vs ! i) (vs ! j); Some (GotBool b, vs, h) }
      else None)"
| "Smart_step (NotEqual i j) vs h =
     (if i < length vs \<and> j < length vs
      then do { b \<leftarrow> Smart_not_equal h (vs ! i) (vs ! j); Some (GotBool b, vs, h) }
      else None)"
| "Smart_step (FromPreOrderInput emptyRep inp) vs h =
     do { (t, rest, h') \<leftarrow> Smart_fromPreOrderInput emptyRep inp h; Some (Rest rest, vs @ [t], h') }"
| "Smart_step (FromInOrderInput inp) vs h =
     do { (t, rest, h') \<leftarrow> Smart_fromInOrderInput inp h; Some (RestTokens rest, vs @ [t], h') }"

fun Smart_steps :: "'a cmd list \<Rightarrow> ptr list \<Rightarrow> 'a sheap \<Rightarrow> 'a obs list" where
  "Smart_steps [] vs h = []"
| "Smart_steps (c # cs) vs h =
     (case Smart_step c vs h of
        None \<Rightarrow> [NoReturn]
      | Some (ob, vs', h') \<Rightarrow> ob # Smart_steps cs vs' h')"

definition Smart_run :: "'a cmd list \<Rightarrow> 'a obs list" where
  "Smart_run cs = Smart_steps cs [] empty_sheap"


subsection \<open>The \<^verbatim>\<open>BinTree\<close> program computes on the trees\<close>

lemma elem_repr:
  "repr h p t \<Longrightarrow>
   elem h p = Some (case t of Tip \<Rightarrow> Inl EmptyTreeException | Fork l x r \<Rightarrow> Inr x)"
  by (induction rule: repr.induct) (simp_all add: elem_def)

lemma left_repr:
  assumes w: "wf_heap h R" and r: "repr h p t"
  shows "case t of
           Tip \<Rightarrow> left p h = Some (Inl EmptyTreeException, h)
         | Fork l x r \<Rightarrow> (\<exists>q h'. left p h = Some (Inr q, h') \<and> wf_heap h' (R + ptr_mset q)
               \<and> extends h h' \<and> repr h' q l)"
  using r
proof (cases rule: repr.cases)
  case repr_None
  then show ?thesis by (simp add: left_def)
next
  case (repr_Some a nd l r)
  from wf_heap_left[OF w repr_Some(3)] obtain h1 where
    "left (Some a) h = Some (Inr (n_left nd), h1)" "wf_heap h1 (R + ptr_mset (n_left nd))"
    "extends h h1" by blast
  then show ?thesis using repr_Some repr_extends by auto
qed

lemma right_repr:
  assumes w: "wf_heap h R" and r: "repr h p t"
  shows "case t of
           Tip \<Rightarrow> right p h = Some (Inl EmptyTreeException, h)
         | Fork l x r \<Rightarrow> (\<exists>q h'. right p h = Some (Inr q, h') \<and> wf_heap h' (R + ptr_mset q)
               \<and> extends h h' \<and> repr h' q r)"
  using r
proof (cases rule: repr.cases)
  case repr_None
  then show ?thesis by (simp add: right_def)
next
  case (repr_Some a nd l r)
  from wf_heap_right[OF w repr_Some(3)] obtain h1 where
    "right (Some a) h = Some (Inr (n_right nd), h1)" "wf_heap h1 (R + ptr_mset (n_right nd))"
    "extends h h1" by blast
  then show ?thesis using repr_Some repr_extends by auto
qed

definition sim :: "('a obs \<times> ptr list \<times> 'a heap) option \<Rightarrow> ('a obs \<times> 'a tree list) option \<Rightarrow> bool" where
  "sim a b =
     (case b of
        None \<Rightarrow> a = None
      | Some (ob, ts') \<Rightarrow> (\<exists>vs' h'. a = Some (ob, vs', h') \<and> models h' vs' ts'))"

lemma sim_same:
  "models h vs ts \<Longrightarrow> a = Some (ob, vs, h) \<Longrightarrow> sim a (Some (ob, ts))"
  by (simp add: sim_def)

lemma sim_NewEmpty: "models h vs ts \<Longrightarrow> sim (BinTree_step NewEmpty vs h) (tree_step NewEmpty ts)"
  by (simp add: sim_def models_def BinTree_empty_def list_all2_appendI repr.repr_None)

lemma sim_NewNode:
  assumes m: "models h vs ts"
  shows "sim (BinTree_step (NewNode i x j) vs h) (tree_step (NewNode i x j) ts)"
proof (cases "i < length vs \<and> j < length vs")
  case False
  then show ?thesis using models_length[OF m] by (auto simp: sim_def)
next
  case True
  let ?R = "handles vs"
  have s: "ptr_mset (vs ! i) \<subseteq># ?R + links h" "ptr_mset (vs ! j) \<subseteq># ?R + links h"
    using True handles_nth by (simp_all add: subset_mset.add_increasing2)
  from wf_heap_BinTree_node[OF models_wf[OF m] s, of x] obtain h' rf where
    n: "BinTree_node (vs ! i) x (vs ! j) h = Some (Some (brk h), h')"
      "wf_heap h' (?R + {#brk h#})" "extends h h'"
      "cells h' (brk h) = Some \<lparr>n_elem = x, n_left = vs ! i, n_right = vs ! j, n_refs = rf\<rparr>"
    by blast
  have l: "list_all2 (repr h') vs ts" using repr_list_extends[OF _ n(3)] m by (simp add: models_def)
  have "repr h' (Some (brk h)) (Fork (ts ! i) x (ts ! j))"
    using repr.repr_Some[OF n(4), of "ts ! i" "ts ! j"]
      repr_extends[OF models_nth[OF m] n(3)] True by simp
  from models_push[OF _ l this] n(2) have "models h' (vs @ [Some (brk h)]) (ts @ [Fork (ts ! i) x (ts ! j)])"
    by simp
  then show ?thesis using True models_length[OF m] n(1) by (simp add: sim_def)
qed

lemma sim_NewLeaf:
  assumes m: "models h vs ts"
  shows "sim (BinTree_step (NewLeaf x) vs h) (tree_step (NewLeaf x) ts)"
proof -
  let ?R = "handles vs"
  from wf_heap_BinTree_leaf[OF models_wf[OF m], of x] obtain h' rf where
    n: "BinTree_leaf x h = Some (Some (brk h), h')"
      "wf_heap h' (?R + {#brk h#})" "extends h h'"
      "cells h' (brk h) = Some \<lparr>n_elem = x, n_left = None, n_right = None, n_refs = rf\<rparr>"
    by blast
  have l: "list_all2 (repr h') vs ts" using repr_list_extends[OF _ n(3)] m by (simp add: models_def)
  have "repr h' (Some (brk h)) (Fork Tip x Tip)"
    using repr.repr_Some[OF n(4), of Tip Tip] by (simp add: repr.repr_None)
  from models_push[OF _ l this] n(2) have "models h' (vs @ [Some (brk h)]) (ts @ [Fork Tip x Tip])"
    by simp
  then show ?thesis using n(1) by (simp add: sim_def)
qed

lemma sim_Copy:
  assumes m: "models h vs ts"
  shows "sim (BinTree_step (Copy i) vs h) (tree_step (Copy i) ts)"
proof (cases "i < length vs")
  case False
  then show ?thesis using models_length[OF m] by (simp add: sim_def)
next
  case True
  let ?R = "handles vs"
  have s: "ptr_mset (vs ! i) \<subseteq># ?R + links h"
    using True handles_nth by (simp_all add: subset_mset.add_increasing2)
  from wf_heap_addRef_ptr[OF models_wf[OF m] s] obtain h' where
    n: "addRef_ptr (vs ! i) h = Some h'" "wf_heap h' (?R + ptr_mset (vs ! i))" "extends h h'"
    by blast
  have l: "list_all2 (repr h') vs ts" using repr_list_extends[OF _ n(3)] m by (simp add: models_def)
  have "repr h' (vs ! i) (ts ! i)" using repr_extends[OF models_nth[OF m True] n(3)] .
  from models_push[OF n(2) l this]
  show ?thesis using True models_length[OF m] n(1) by (simp add: sim_def BinTree_copy_def)
qed

lemma sim_Drop:
  assumes m: "models h vs ts"
  shows "sim (BinTree_step (Drop i) vs h) (tree_step (Drop i) ts)"
proof (cases "i < length vs")
  case False
  then show ?thesis using models_length[OF m] by (simp add: sim_def)
next
  case True
  let ?R = "handles vs"
  from wf_heap_free[OF models_wf[OF m] handles_nth[OF True]] obtain h' where
    f: "free (vs ! i) h = Some h'" by blast
  have k: "keeps (handles (remove_at i vs)) h h'" and w: "wf_heap h' (handles (remove_at i vs))"
    using keeps_free[OF models_wf[OF m] handles_nth[OF True] f] handles_remove_at[OF True] by simp_all
  have "list_all2 (repr h) (remove_at i vs) (remove_at i ts)"
    using m unfolding models_def remove_at_def
    by (intro list_all2_appendI list_all2_takeI list_all2_dropI) simp_all
  from repr_list_keeps[OF this k] have "list_all2 (repr h') (remove_at i vs) (remove_at i ts)"
    using handles_mem by blast
  then have "models h' (remove_at i vs) (remove_at i ts)" using w by (simp add: models_def)
  then show ?thesis using True models_length[OF m] f by (simp add: sim_def destroy_def)
qed

lemma handles_two:
  assumes "i < length vs" "j < length vs" "i \<noteq> j"
  shows "ptr_mset (vs ! j) \<subseteq># handles vs - ptr_mset (vs ! i)"
proof -
  have "vs ! j \<in> set (remove_at i vs)"
  proof (cases "j < i")
    case True
    then have "vs ! j = take i vs ! j" by simp
    moreover have "j < length (take i vs)" using True assms by simp
    ultimately have "vs ! j \<in> set (take i vs)" by (metis nth_mem)
    then show ?thesis by (simp add: remove_at_def)
  next
    case False
    then have ij: "i < j" using assms(3) by simp
    then have "vs ! j = drop (Suc i) vs ! (j - Suc i)" using assms by simp
    moreover have "j - Suc i < length (drop (Suc i) vs)" using ij assms by simp
    ultimately have "vs ! j \<in> set (drop (Suc i) vs)" by (metis nth_mem)
    then show ?thesis by (simp add: remove_at_def)
  qed
  from handles_mem[OF this] show ?thesis using handles_remove_at[OF assms(1)] by simp
qed

lemma sim_Assign:
  assumes m: "models h vs ts"
  shows "sim (BinTree_step (Assign i j) vs h) (tree_step (Assign i j) ts)"
proof (cases "i < length vs \<and> j < length vs")
  case False
  then show ?thesis using models_length[OF m] by (auto simp: sim_def)
next
  case True
  show ?thesis
  proof (cases "i = j")
    case same: True
    have "vs[i := vs ! i] = vs" "ts[i := ts ! i] = ts" by simp_all
    then show ?thesis using True same models_length[OF m] m by (simp add: sim_def assign_def)
  next
    case False
    let ?R = "handles vs"
    let ?Q = "?R - ptr_mset (vs ! i)"
    have i: "i < length vs" and j: "j < length vs" using True by simp_all
    from wf_heap_free[OF models_wf[OF m] handles_nth[OF i]] obtain h1 where
      f: "free (vs ! i) h = Some h1" by blast
    have k: "keeps ?Q h h1" and w: "wf_heap h1 ?Q"
      using keeps_free[OF models_wf[OF m] handles_nth[OF i] f] by simp_all
    have sj: "ptr_mset (vs ! j) \<subseteq># ?Q" using handles_two[OF i j False] .
    then have "ptr_mset (vs ! j) \<subseteq># ?Q + links h1" by (simp add: subset_mset.add_increasing2)
    from wf_heap_addRef_ptr[OF w this] obtain h2 where
      a: "addRef_ptr (vs ! j) h1 = Some h2" "wf_heap h2 (?Q + ptr_mset (vs ! j))" "extends h1 h2"
      by blast
    have k2: "keeps ?Q h h2" using keeps_trans[OF k keeps_extends[OF a(3)]] .
    have l0: "list_all2 (repr h) (vs[i := vs ! j]) (ts[i := ts ! j])"
      using m models_nth[OF m j] by (simp add: models_def list_all2_update_cong)
    have "ptr_mset p \<subseteq># ?Q" if "p \<in> set (vs[i := vs ! j])" for p
    proof -
      from that obtain n where n: "n < length vs" "p = vs[i := vs ! j] ! n"
        by (metis in_set_conv_nth length_list_update)
      show ?thesis
      proof (cases "n = i")
        case True
        then show ?thesis using n i sj by simp
      next
        case False
        then show ?thesis using n handles_two[OF i n(1)] by simp
      qed
    qed
    with repr_list_keeps[OF l0 k2] have "list_all2 (repr h2) (vs[i := vs ! j]) (ts[i := ts ! j])"
      by blast
    then have "models h2 (vs[i := vs ! j]) (ts[i := ts ! j])"
      using a(2) handles_update[OF i, of "vs ! j"] by (simp add: models_def)
    then show ?thesis using True False models_length[OF m] f a(1) by (simp add: sim_def assign_def)
  qed
qed

lemma sim_GetLeft:
  assumes m: "models h vs ts"
  shows "sim (BinTree_step (GetLeft i) vs h) (tree_step (GetLeft i) ts)"
proof (cases "i < length vs")
  case False
  then show ?thesis using models_length[OF m] by (simp add: sim_def)
next
  case True
  note lr = left_repr[OF models_wf[OF m] models_nth[OF m True]]
  show ?thesis
  proof (cases "ts ! i")
    case Tip
    then show ?thesis using lr True models_length[OF m] m by (simp add: sim_def)
  next
    case (Fork l x r)
    with lr obtain q h' where q: "left (vs ! i) h = Some (Inr q, h')"
      "wf_heap h' (handles vs + ptr_mset q)" "extends h h'" "repr h' q l" by auto
    have "list_all2 (repr h') vs ts" using repr_list_extends[OF _ q(3)] m by (simp add: models_def)
    from models_push[OF q(2) this q(4)]
    show ?thesis using q(1) Fork True models_length[OF m] by (simp add: sim_def)
  qed
qed

lemma sim_GetRight:
  assumes m: "models h vs ts"
  shows "sim (BinTree_step (GetRight i) vs h) (tree_step (GetRight i) ts)"
proof (cases "i < length vs")
  case False
  then show ?thesis using models_length[OF m] by (simp add: sim_def)
next
  case True
  note lr = right_repr[OF models_wf[OF m] models_nth[OF m True]]
  show ?thesis
  proof (cases "ts ! i")
    case Tip
    then show ?thesis using lr True models_length[OF m] m by (simp add: sim_def)
  next
    case (Fork l x r)
    with lr obtain q h' where q: "right (vs ! i) h = Some (Inr q, h')"
      "wf_heap h' (handles vs + ptr_mset q)" "extends h h'" "repr h' q r" by auto
    have "list_all2 (repr h') vs ts" using repr_list_extends[OF _ q(3)] m by (simp add: models_def)
    from models_push[OF q(2) this q(4)]
    show ?thesis using q(1) Fork True models_length[OF m] by (simp add: sim_def)
  qed
qed

lemma sim_FromPreOrderInput:
  assumes m: "models h vs ts"
  shows "sim (BinTree_step (FromPreOrderInput e inp) vs h) (tree_step (FromPreOrderInput e inp) ts)"
proof (cases "parse_pre e inp")
  case None
  then show ?thesis using fromPreOrderInput_refines[OF models_wf[OF m], of e inp] by (simp add: sim_def)
next
  case (Some a)
  obtain t rest where a: "a = (t, rest)" by (cases a)
  from fromPreOrderInput_refines[OF models_wf[OF m], of e inp] Some a obtain p h' where
    b: "fromPreOrderInput e inp h = Some (p, rest, h')" "wf_heap h' (handles vs + ptr_mset p)"
      "repr h' p t" "keeps (handles vs) h h'" by auto
  have "list_all2 (repr h') vs ts"
    using repr_list_keeps[OF _ b(4)] m handles_mem by (auto simp: models_def)
  from models_push[OF b(2) this b(3)] show ?thesis using Some a b(1) by (simp add: sim_def)
qed

lemma sim_FromInOrderInput:
  assumes m: "models h vs ts"
  shows "sim (BinTree_step (FromInOrderInput inp) vs h) (tree_step (FromInOrderInput inp) ts)"
proof (cases "parse_in inp")
  case None
  then show ?thesis using fromInOrderInput_refines[OF models_wf[OF m], of inp] by (simp add: sim_def)
next
  case (Some a)
  obtain t rest where a: "a = (t, rest)" by (cases a)
  from fromInOrderInput_refines[OF models_wf[OF m], of inp] Some a obtain p h' where
    b: "fromInOrderInput inp h = Some (p, rest, h')" "wf_heap h' (handles vs + ptr_mset p)"
      "repr h' p t" "keeps (handles vs) h h'" by auto
  have "list_all2 (repr h') vs ts"
    using repr_list_keeps[OF _ b(4)] m handles_mem by (auto simp: models_def)
  from models_push[OF b(2) this b(3)] show ?thesis using Some a b(1) by (simp add: sim_def)
qed

lemma sim_observers:
  assumes m: "models h vs ts"
  shows "sim (BinTree_step (GetElem i) vs h) (tree_step (GetElem i) ts)"
    and "sim (BinTree_step (IsEmpty i) vs h) (tree_step (IsEmpty i) ts)"
    and "sim (BinTree_step (PreOrder i) vs h) (tree_step (PreOrder i) ts)"
    and "sim (BinTree_step (InOrder i) vs h) (tree_step (InOrder i) ts)"
    and "sim (BinTree_step (PostOrder i) vs h) (tree_step (PostOrder i) ts)"
    and "sim (BinTree_step (Levels i) vs h) (tree_step (Levels i) ts)"
    and "sim (BinTree_step (NodeCount i) vs h) (tree_step (NodeCount i) ts)"
    and "sim (BinTree_step (Depth i) vs h) (tree_step (Depth i) ts)"
    and "sim (BinTree_step (LeafCount i) vs h) (tree_step (LeafCount i) ts)"
    and "sim (BinTree_step (Equal i j) vs h) (tree_step (Equal i j) ts)"
    and "sim (BinTree_step (NotEqual i j) vs h) (tree_step (NotEqual i j) ts)"
proof -
  note len = models_length[OF m]
  have r: "repr h (vs ! n) (ts ! n)" if "n < length ts" for n using models_nth[OF m] that len by simp
  show "sim (BinTree_step (GetElem i) vs h) (tree_step (GetElem i) ts)"
    using len m elem_repr[OF r[of i]] by (cases "ts ! i") (simp_all add: sim_def)
  show "sim (BinTree_step (IsEmpty i) vs h) (tree_step (IsEmpty i) ts)"
    using len m repr_Tip_iff[OF r[of i]] by (simp add: sim_def empty_def)
  show "sim (BinTree_step (PreOrder i) vs h) (tree_step (PreOrder i) ts)"
    using len m preOrderAux_repr[OF r[of i], of "[]"] by (simp add: sim_def preOrder_def)
  show "sim (BinTree_step (InOrder i) vs h) (tree_step (InOrder i) ts)"
    using len m inOrderAux_repr[OF r[of i], of "[]"] by (simp add: sim_def inOrder_def)
  show "sim (BinTree_step (PostOrder i) vs h) (tree_step (PostOrder i) ts)"
    using len m postOrderAux_repr[OF r[of i], of "[]"] by (simp add: sim_def postOrder_def)
  show "sim (BinTree_step (Levels i) vs h) (tree_step (Levels i) ts)"
    using len m levels_repr[OF r[of i]] by (simp add: sim_def)
  show "sim (BinTree_step (NodeCount i) vs h) (tree_step (NodeCount i) ts)"
    using len m nodeCountAux_repr[OF r[of i]] by (simp add: sim_def nodeCount_def)
  show "sim (BinTree_step (Depth i) vs h) (tree_step (Depth i) ts)"
    using len m depthAux_repr[OF r[of i]] by (simp add: sim_def depth_def)
  show "sim (BinTree_step (LeafCount i) vs h) (tree_step (LeafCount i) ts)"
    using len m leafCountAux_repr[OF r[of i]] by (simp add: sim_def leafCount_def)
  show "sim (BinTree_step (Equal i j) vs h) (tree_step (Equal i j) ts)"
    using len m equal_repr[OF r[of i] r[of j]] by (simp add: sim_def)
  show "sim (BinTree_step (NotEqual i j) vs h) (tree_step (NotEqual i j) ts)"
    using len m equal_repr[OF r[of i] r[of j]] by (simp add: sim_def not_equal_def)
qed

lemma BinTree_step_sim:
  "models h vs ts \<Longrightarrow> sim (BinTree_step c vs h) (tree_step c ts)"
  by (cases c)
     (simp_all only: sim_NewEmpty sim_NewLeaf sim_NewNode sim_Copy sim_Assign sim_Drop sim_GetLeft
        sim_GetRight sim_FromPreOrderInput sim_FromInOrderInput sim_observers)

lemma BinTree_steps_sim:
  "models h vs ts \<Longrightarrow> BinTree_steps cs vs h = tree_steps cs ts"
proof (induction cs arbitrary: h vs ts)
  case Nil
  show ?case by simp
next
  case (Cons c cs)
  note s = BinTree_step_sim[OF Cons.prems, of c]
  show ?case
  proof (cases "tree_step c ts")
    case None
    then show ?thesis using s by (simp add: sim_def)
  next
    case (Some a)
    obtain ob ts' where a: "a = (ob, ts')" by (cases a)
    from s Some a obtain vs' h' where "BinTree_step c vs h = Some (ob, vs', h')" "models h' vs' ts'"
      by (auto simp: sim_def)
    then show ?thesis using Some a Cons.IH by simp
  qed
qed

lemma models_empty: "models empty_heap [] []"
  by (simp add: models_def wf_heap_empty_heap)

lemma BinTree_run_tree: "BinTree_run cs = tree_steps cs []"
  unfolding BinTree_run_def by (rule BinTree_steps_sim[OF models_empty])

subsection \<open>The \<^verbatim>\<open>BinTreeSmart\<close> program computes on the trees\<close>

text \<open>
  \<open>srepr h p t\<close>: in the heap \<open>h\<close> of shared nodes the \<^verbatim>\<open>Link\<close> \<open>p\<close> is the root of \<open>t\<close>.
\<close>

inductive srepr :: "'a sheap \<Rightarrow> ptr \<Rightarrow> 'a tree \<Rightarrow> bool" for h :: "'a sheap" where
  srepr_None: "srepr h None Tip"
| srepr_Some: "snodes h a = Some nd \<Longrightarrow> srepr h (sn_left nd) l \<Longrightarrow> srepr h (sn_right nd) r \<Longrightarrow>
     srepr h (Some a) (Fork l (sn_elem nd) r)"

inductive_cases srepr_NoneE: "srepr h None t"
inductive_cases srepr_SomeE: "srepr h (Some a) t"

definition sextends :: "'a sheap \<Rightarrow> 'a sheap \<Rightarrow> bool" where
  "sextends h h' = (\<forall>a nd. snodes h a = Some nd \<longrightarrow> snodes h' a = Some nd)"

definition sinv :: "'a sheap \<Rightarrow> bool" where
  "sinv h = (\<forall>a nd. snodes h a = Some nd \<longrightarrow> a < sbrk h)"

definition smodels :: "'a sheap \<Rightarrow> ptr list \<Rightarrow> 'a tree list \<Rightarrow> bool" where
  "smodels h vs ts = (sinv h \<and> list_all2 (srepr h) vs ts)"

lemma sextends_refl: "sextends h h"
  by (simp add: sextends_def)

lemma sextends_trans: "sextends h1 h2 \<Longrightarrow> sextends h2 h3 \<Longrightarrow> sextends h1 h3"
  by (simp add: sextends_def)

lemma srepr_fun: "srepr h p t \<Longrightarrow> srepr h p t' \<Longrightarrow> t = t'"
proof (induction arbitrary: t' rule: srepr.induct)
  case srepr_None
  then show ?case by (auto elim: srepr_NoneE)
next
  case (srepr_Some a nd l r)
  from srepr_Some.prems show ?case
  proof (rule srepr_SomeE)
    fix nd' l' r'
    assume "t' = Fork l' (sn_elem nd') r'" "snodes h a = Some nd'" "srepr h (sn_left nd') l'"
      "srepr h (sn_right nd') r'"
    then show ?thesis using srepr_Some by auto
  qed
qed

lemma srepr_extends: "srepr h p t \<Longrightarrow> sextends h h' \<Longrightarrow> srepr h' p t"
proof (induction rule: srepr.induct)
  case srepr_None
  show ?case by (rule srepr.srepr_None)
next
  case (srepr_Some a nd l r)
  have "snodes h' a = Some nd" using srepr_Some.prems srepr_Some.hyps(1) unfolding sextends_def by blast
  then show ?case using srepr_Some.IH srepr_Some.prems by (intro srepr.srepr_Some) auto
qed

lemma srepr_Tip_iff: "srepr h p t \<Longrightarrow> (p = None) = (t = Tip)"
  by (induction rule: srepr.induct) auto

lemma make_shared_ok:
  assumes "sinv h"
  shows "\<exists>h'. make_shared nd h = (Some (sbrk h), h') \<and> sinv h' \<and> sextends h h'
           \<and> snodes h' (sbrk h) = Some nd"
proof -
  let ?h' = "h\<lparr>snodes := (snodes h)(sbrk h \<mapsto> nd), sbrk := Suc (sbrk h)\<rparr>"
  have "sinv ?h'" using assms by (auto simp: sinv_def less_Suc_eq)
  moreover have "sextends h ?h'" using assms by (auto simp: sinv_def sextends_def)
  ultimately show ?thesis by (simp add: make_shared_def)
qed

lemma BinTreeSmart_node_ok:
  assumes "sinv h" "srepr h p1 l" "srepr h p2 r"
  shows "\<exists>p h'. BinTreeSmart_node p1 x p2 h = (p, h') \<and> sinv h' \<and> sextends h h'
           \<and> srepr h' p (Fork l x r)"
proof -
  from make_shared_ok[OF assms(1), of "\<lparr>sn_elem = x, sn_left = p1, sn_right = p2\<rparr>"]
  obtain h' where h': "make_shared \<lparr>sn_elem = x, sn_left = p1, sn_right = p2\<rparr> h = (Some (sbrk h), h')"
    "sinv h'" "sextends h h'"
    "snodes h' (sbrk h) = Some \<lparr>sn_elem = x, sn_left = p1, sn_right = p2\<rparr>" by blast
  have "srepr h' (Some (sbrk h)) (Fork l x r)"
    using srepr.srepr_Some[OF h'(4), of l r] srepr_extends[OF assms(2) h'(3)]
      srepr_extends[OF assms(3) h'(3)] by simp
  then show ?thesis using h' by (simp add: BinTreeSmart_node_def)
qed

lemma Smart_preOrderAux_repr: "srepr h p t \<Longrightarrow> Smart_preOrderAux h p acc = Some (acc @ pre_order t)"
proof (induction arbitrary: acc rule: srepr.induct)
  case srepr_None
  then show ?case by (subst Smart_preOrderAux.simps) simp
next
  case (srepr_Some a nd l r)
  then show ?case by (subst Smart_preOrderAux.simps) simp
qed

lemma Smart_inOrderAux_repr: "srepr h p t \<Longrightarrow> Smart_inOrderAux h p acc = Some (acc @ in_order t)"
proof (induction arbitrary: acc rule: srepr.induct)
  case srepr_None
  then show ?case by (subst Smart_inOrderAux.simps) simp
next
  case (srepr_Some a nd l r)
  then show ?case by (subst Smart_inOrderAux.simps) simp
qed

lemma Smart_postOrderAux_repr: "srepr h p t \<Longrightarrow> Smart_postOrderAux h p acc = Some (acc @ post_order t)"
proof (induction arbitrary: acc rule: srepr.induct)
  case srepr_None
  then show ?case by (subst Smart_postOrderAux.simps) simp
next
  case (srepr_Some a nd l r)
  then show ?case by (subst Smart_postOrderAux.simps) simp
qed

lemma Smart_nodeCountAux_repr: "srepr h p t \<Longrightarrow> Smart_nodeCountAux h p = Some (node_count t)"
proof (induction rule: srepr.induct)
  case srepr_None
  then show ?case by (subst Smart_nodeCountAux.simps) simp
next
  case (srepr_Some a nd l r)
  then show ?case by (subst Smart_nodeCountAux.simps) simp
qed

lemma Smart_depthAux_repr: "srepr h p t \<Longrightarrow> Smart_depthAux h p = Some (tree_depth t)"
proof (induction rule: srepr.induct)
  case srepr_None
  then show ?case by (subst Smart_depthAux.simps) simp
next
  case (srepr_Some a nd l r)
  then show ?case by (subst Smart_depthAux.simps) simp
qed

lemma Smart_leafCountAux_repr: "srepr h p t \<Longrightarrow> Smart_leafCountAux h p = Some (leaf_count t)"
proof (induction rule: srepr.induct)
  case srepr_None
  then show ?case by (subst Smart_leafCountAux.simps) simp
next
  case (srepr_Some a nd l r)
  then show ?case
    using srepr_Tip_iff[of h "sn_left nd" l] srepr_Tip_iff[of h "sn_right nd" r]
    by (subst Smart_leafCountAux.simps) simp
qed

lemma Smart_compareAux_repr:
  "srepr h p t \<Longrightarrow> srepr h q t' \<Longrightarrow> Smart_compareAux h p q = Some (t = t')"
proof (induction arbitrary: q t' rule: srepr.induct)
  case srepr_None
  then show ?case
    using srepr_Tip_iff[OF srepr_None.prems]
    by (subst Smart_compareAux.simps) (cases q; auto)
next
  case (srepr_Some a nd l r)
  show ?case
  proof (cases "q = Some a")
    case True
    then have "t' = Fork l (sn_elem nd) r"
      using srepr_fun[OF srepr.srepr_Some[OF srepr_Some.hyps] srepr_Some.prems[unfolded True]] by simp
    then show ?thesis using True by (subst Smart_compareAux.simps) simp
  next
    case False
    show ?thesis
    proof (cases q)
      case None
      then have "t' = Tip" using srepr_Tip_iff[OF srepr_Some.prems] by simp
      then show ?thesis using None by (subst Smart_compareAux.simps) simp
    next
      case (Some b)
      from srepr_Some.prems[unfolded Some] show ?thesis
      proof (rule srepr_SomeE)
        fix n2 l' r'
        assume q: "t' = Fork l' (sn_elem n2) r'" "snodes h b = Some n2" "srepr h (sn_left n2) l'"
          "srepr h (sn_right n2) r'"
        have "Smart_compareAux h (sn_left nd) (sn_left n2) = Some (l = l')"
             "Smart_compareAux h (sn_right nd) (sn_right n2) = Some (r = r')"
          using srepr_Some.IH q by auto
        then show ?thesis
          using Some False q srepr_Some.hyps(1)
          by (subst Smart_compareAux.simps) auto
      qed
    qed
  qed
qed

lemma Smart_push_if_kids:
  "srepr h p t \<Longrightarrow> list_all2 (\<lambda>a t. srepr h (Some a) t) (push_if p) (kids t)"
  using srepr_Tip_iff[of h p t] by (cases p) (auto simp: push_if_def kids_def)

lemma Smart_levels_loop_repr:
  "list_all2 (\<lambda>a t. srepr h (Some a) t) pending ts \<Longrightarrow>
   Smart_levels_loop h pending ret = Some (ret @ bfs ts)"
proof (induction ts arbitrary: pending ret rule: bfs.induct)
  case 1
  then show ?case by (subst Smart_levels_loop.simps) simp
next
  case (2 ts)
  then obtain a rest where "pending = a # rest" "srepr h (Some a) Tip"
    by (auto simp: list_all2_Cons2)
  then show ?case by (auto elim: srepr_SomeE)
next
  case (3 l x r ts)
  from "3.prems" obtain a rest where p: "pending = a # rest" "srepr h (Some a) (Fork l x r)"
    "list_all2 (\<lambda>a t. srepr h (Some a) t) rest ts"
    by (auto simp: list_all2_Cons2)
  from p(2) obtain nd where nd: "snodes h a = Some nd" "sn_elem nd = x" "srepr h (sn_left nd) l"
    "srepr h (sn_right nd) r"
    by (auto elim: srepr_SomeE)
  have "list_all2 (\<lambda>a t. srepr h (Some a) t) (rest @ push_if (sn_left nd) @ push_if (sn_right nd))
          (ts @ kids l @ kids r)"
    using p(3) Smart_push_if_kids[OF nd(3)] Smart_push_if_kids[OF nd(4)] by (intro list_all2_appendI)
  from "3.IH"[OF this, of "ret @ [x]"] show ?case
    using p(1) nd(1,2) by (subst Smart_levels_loop.simps) simp
qed

lemma Smart_levels_repr: "srepr h p t \<Longrightarrow> Smart_levels h p = Some (levels_of t)"
proof (cases p)
  case None
  assume "srepr h p t"
  then have "t = Tip" using srepr_Tip_iff None by blast
  then show ?thesis using None by (simp add: Smart_levels_def levels_of_def kids_def)
next
  case (Some a)
  assume r: "srepr h p t"
  then have "t \<noteq> Tip" using srepr_Tip_iff Some by blast
  then have "list_all2 (\<lambda>a t. srepr h (Some a) t) [a] (kids t)" using r Some by (simp add: kids_def)
  from Smart_levels_loop_repr[OF this, of "[]"] show ?thesis
    using Some by (simp add: Smart_levels_def levels_of_def)
qed

lemma Smart_elem_repr:
  "srepr h p t \<Longrightarrow>
   Smart_elem h p = Some (case t of Tip \<Rightarrow> Inl EmptyTreeException | Fork l x r \<Rightarrow> Inr x)"
  by (induction rule: srepr.induct) (simp_all add: Smart_elem_def)

lemma Smart_left_repr:
  "srepr h p t \<Longrightarrow>
   (case t of
      Tip \<Rightarrow> Smart_left h p = Some (Inl EmptyTreeException)
    | Fork l x r \<Rightarrow> (\<exists>q. Smart_left h p = Some (Inr q) \<and> srepr h q l))"
  by (induction rule: srepr.induct) (simp_all add: Smart_left_def BinTreeSmart_from_def)

lemma Smart_right_repr:
  "srepr h p t \<Longrightarrow>
   (case t of
      Tip \<Rightarrow> Smart_right h p = Some (Inl EmptyTreeException)
    | Fork l x r \<Rightarrow> (\<exists>q. Smart_right h p = Some (Inr q) \<and> srepr h q r))"
  by (induction rule: srepr.induct) (simp_all add: Smart_right_def BinTreeSmart_from_def)

lemma Smart_fromPreOrderInput_refines:
  "sinv h \<Longrightarrow>
     (case parse_pre e inp of
        None \<Rightarrow> Smart_fromPreOrderInput e inp h = None
      | Some (t, rest) \<Rightarrow>
          (\<exists>p h'. Smart_fromPreOrderInput e inp h = Some (p, rest, h') \<and> sinv h'
             \<and> srepr h' p t \<and> sextends h h' \<and> length rest < length inp))"
proof (induction "length inp" arbitrary: inp h rule: less_induct)
  case less
  show ?case
  proof (cases inp)
    case Nil
    then show ?thesis
      by (subst parse_pre.simps, subst Smart_fromPreOrderInput.simps) simp
  next
    case (Cons x inp1)
    show ?thesis
    proof (cases "x = e")
      case True
      then show ?thesis
        using Cons less.prems srepr.srepr_None
        by (subst parse_pre.simps, subst Smart_fromPreOrderInput.simps)
           (simp add: BinTreeSmart_empty_def sextends_refl)
    next
      case False
      have u1: "parse_pre e inp = do { (hi, inp2) \<leftarrow> parse_pre e inp1;
                  (hd, inp3) \<leftarrow> parse_pre e inp2; Some (Fork hi x hd, inp3) }"
        using Cons False by (subst parse_pre.simps) simp
      have u2: "Smart_fromPreOrderInput e inp h = do {
              (hi, inp2, h2) \<leftarrow> Smart_fromPreOrderInput e inp1 h;
              (hd, inp3, h3) \<leftarrow> Smart_fromPreOrderInput e inp2 h2;
              (case BinTreeSmart_node hi x hd h3 of (t, h4) \<Rightarrow> Some (t, inp3, h4)) }"
        using Cons False by (subst Smart_fromPreOrderInput.simps) simp
      have IH1: "case parse_pre e inp1 of
        None \<Rightarrow> Smart_fromPreOrderInput e inp1 h = None
      | Some (t, rest) \<Rightarrow>
          (\<exists>p h'. Smart_fromPreOrderInput e inp1 h = Some (p, rest, h') \<and> sinv h'
             \<and> srepr h' p t \<and> sextends h h' \<and> length rest < length inp1)"
        using less.hyps[of inp1 h] less.prems Cons by simp
      show ?thesis
      proof (cases "parse_pre e inp1")
        case None
        then show ?thesis using IH1 u1 u2 by simp
      next
        case (Some a)
        obtain l inp2 where a: "a = (l, inp2)" by (cases a)
        from IH1 Some a obtain p1 h2 where
          1: "Smart_fromPreOrderInput e inp1 h = Some (p1, inp2, h2)" "sinv h2"
            "srepr h2 p1 l" "sextends h h2" "length inp2 < length inp1"
          by auto
        have IH2: "case parse_pre e inp2 of
            None \<Rightarrow> Smart_fromPreOrderInput e inp2 h2 = None
          | Some (t, rest) \<Rightarrow>
              (\<exists>p h'. Smart_fromPreOrderInput e inp2 h2 = Some (p, rest, h') \<and> sinv h'
                 \<and> srepr h' p t \<and> sextends h2 h' \<and> length rest < length inp2)"
          using less.hyps[of inp2 h2] 1(2,5) Cons by simp
        show ?thesis
        proof (cases "parse_pre e inp2")
          case None
          then show ?thesis using IH2 u1 u2 Some a 1(1) by simp
        next
          case (Some b)
          obtain r inp3 where b: "b = (r, inp3)" by (cases b)
          from IH2 Some b obtain p2 h3 where
            2: "Smart_fromPreOrderInput e inp2 h2 = Some (p2, inp3, h3)" "sinv h3" "srepr h3 p2 r"
              "sextends h2 h3" "length inp3 < length inp2"
            by auto
          have r1: "srepr h3 p1 l" using srepr_extends[OF 1(3) 2(4)] .
          from BinTreeSmart_node_ok[OF 2(2) r1 2(3), of x] obtain p h4 where
            4: "BinTreeSmart_node p1 x p2 h3 = (p, h4)" "sinv h4" "sextends h3 h4"
              "srepr h4 p (Fork l x r)" by blast
          have f: "Smart_fromPreOrderInput e inp h = Some (p, inp3, h4)"
            using u2 1(1) 2(1) 4(1) by simp
          have pp: "parse_pre e inp = Some (Fork l x r, inp3)"
            using u1 \<open>parse_pre e inp1 = Some a\<close> a Some b by simp
          have k: "sextends h h4" using sextends_trans[OF 1(4) sextends_trans[OF 2(4) 4(3)]] .
          have "length inp3 < length inp" using 1(5) 2(5) Cons by simp
          then show ?thesis using f pp 4(2,4) k by simp
        qed
      qed
    qed
  qed
qed

lemma Smart_fromInOrderInput_refines:
  "sinv h \<Longrightarrow>
     (case parse_in inp of
        None \<Rightarrow> Smart_fromInOrderInput inp h = None
      | Some (t, rest) \<Rightarrow>
          (\<exists>p h'. Smart_fromInOrderInput inp h = Some (p, rest, h') \<and> sinv h'
             \<and> srepr h' p t \<and> sextends h h' \<and> length rest < length inp))"
proof (induction "length inp" arbitrary: inp h rule: less_induct)
  case less
  show ?case
  proof (cases inp)
    case Nil
    then show ?thesis by (subst parse_in.simps, subst Smart_fromInOrderInput.simps) simp
  next
    case (Cons tok inp1)
    show ?thesis
    proof (cases tok)
      case (Val v)
      then show ?thesis using Cons by (subst parse_in.simps, subst Smart_fromInOrderInput.simps) simp
    next
      case (Sym c)
      consider "c = CHR ''.''" | "c \<noteq> CHR ''.''" "c \<noteq> CHR ''(''" | "c = CHR ''(''" by auto
      then show ?thesis
      proof cases
        case 1
        then show ?thesis
          using Cons Sym less.prems srepr.srepr_None
          by (subst parse_in.simps, subst Smart_fromInOrderInput.simps)
             (simp add: BinTreeSmart_empty_def sextends_refl)
      next
        case 2
        then show ?thesis using Cons Sym
          by (subst parse_in.simps, subst Smart_fromInOrderInput.simps) simp
      next
        case 3
        have u1: "parse_in inp = do {
              (left, inp2) \<leftarrow> parse_in inp1;
              (case inp2 of
                 Val e # inp3 \<Rightarrow>
                   do {
                     (right, inp4) \<leftarrow> parse_in inp3;
                     (case inp4 of
                        Sym c2 # inp5 \<Rightarrow>
                          if c2 \<noteq> CHR '')'' then None else Some (Fork left e right, inp5)
                      | _ \<Rightarrow> None)
                   }
               | _ \<Rightarrow> None) }"
          using Cons Sym 3 by (subst parse_in.simps) simp
        have u2: "Smart_fromInOrderInput inp h = do {
              (left, inp2, h2) \<leftarrow> Smart_fromInOrderInput inp1 h;
              (case inp2 of
                 Val e # inp3 \<Rightarrow>
                   do {
                     (right, inp4, h4) \<leftarrow> Smart_fromInOrderInput inp3 h2;
                     (case inp4 of
                        Sym c2 # inp5 \<Rightarrow>
                          if c2 \<noteq> CHR '')'' then None
                          else
                            (case BinTreeSmart_node left e right h4 of
                               (result, h5) \<Rightarrow> Some (result, inp5, h5))
                      | _ \<Rightarrow> None)
                   }
               | _ \<Rightarrow> None) }"
          using Cons Sym 3 by (subst Smart_fromInOrderInput.simps) simp
        have IH1: "case parse_in inp1 of
            None \<Rightarrow> Smart_fromInOrderInput inp1 h = None
          | Some (t, rest) \<Rightarrow>
              (\<exists>p h'. Smart_fromInOrderInput inp1 h = Some (p, rest, h') \<and> sinv h'
                 \<and> srepr h' p t \<and> sextends h h' \<and> length rest < length inp1)"
          using less.hyps[of inp1 h] less.prems Cons by simp
        show ?thesis
        proof (cases "parse_in inp1")
          case None
          then show ?thesis using IH1 u1 u2 by simp
        next
          case (Some a)
          obtain l inp2 where a: "a = (l, inp2)" by (cases a)
          from IH1 Some a obtain p1 h2 where
            1: "Smart_fromInOrderInput inp1 h = Some (p1, inp2, h2)" "sinv h2"
              "srepr h2 p1 l" "sextends h h2" "length inp2 < length inp1"
            by auto
          have P1: "parse_in inp = (case inp2 of
                 Val e # inp3 \<Rightarrow>
                   do {
                     (right, inp4) \<leftarrow> parse_in inp3;
                     (case inp4 of
                        Sym c2 # inp5 \<Rightarrow>
                          if c2 \<noteq> CHR '')'' then None else Some (Fork l e right, inp5)
                      | _ \<Rightarrow> None)
                   }
               | _ \<Rightarrow> None)"
            using u1 Some a by simp
          have F1: "Smart_fromInOrderInput inp h = (case inp2 of
                 Val e # inp3 \<Rightarrow>
                   do {
                     (right, inp4, h4) \<leftarrow> Smart_fromInOrderInput inp3 h2;
                     (case inp4 of
                        Sym c2 # inp5 \<Rightarrow>
                          if c2 \<noteq> CHR '')'' then None
                          else
                            (case BinTreeSmart_node p1 e right h4 of
                               (result, h5) \<Rightarrow> Some (result, inp5, h5))
                      | _ \<Rightarrow> None)
                   }
               | _ \<Rightarrow> None)"
            using u2 1(1) by simp
          show ?thesis
          proof (cases inp2)
            case Nil
            then show ?thesis using P1 F1 by simp
          next
            case c2: (Cons tok2 inp3)
            show ?thesis
            proof (cases tok2)
              case (Sym c')
              then show ?thesis using P1 F1 c2 by simp
            next
              case (Val e)
              have IH2: "case parse_in inp3 of
                  None \<Rightarrow> Smart_fromInOrderInput inp3 h2 = None
                | Some (t, rest) \<Rightarrow>
                    (\<exists>p h'. Smart_fromInOrderInput inp3 h2 = Some (p, rest, h') \<and> sinv h'
                       \<and> srepr h' p t \<and> sextends h2 h' \<and> length rest < length inp3)"
                using less.hyps[of inp3 h2] 1(2,5) Cons c2 by simp
              show ?thesis
              proof (cases "parse_in inp3")
                case None
                then show ?thesis using IH2 P1 F1 c2 Val by simp
              next
                case (Some b)
                obtain r inp4 where b: "b = (r, inp4)" by (cases b)
                from IH2 Some b obtain p2 h4 where
                  2: "Smart_fromInOrderInput inp3 h2 = Some (p2, inp4, h4)" "sinv h4"
                    "srepr h4 p2 r" "sextends h2 h4" "length inp4 < length inp3"
                  by auto
                have P2: "parse_in inp = (case inp4 of
                        Sym c2 # inp5 \<Rightarrow>
                          if c2 \<noteq> CHR '')'' then None else Some (Fork l e r, inp5)
                      | _ \<Rightarrow> None)"
                  using P1 c2 Val Some b by simp
                have F2: "Smart_fromInOrderInput inp h = (case inp4 of
                        Sym c2 # inp5 \<Rightarrow>
                          if c2 \<noteq> CHR '')'' then None
                          else
                            (case BinTreeSmart_node p1 e p2 h4 of
                               (result, h5) \<Rightarrow> Some (result, inp5, h5))
                      | _ \<Rightarrow> None)"
                  using F1 c2 Val 2(1) by simp
                show ?thesis
                proof (cases inp4)
                  case Nil
                  then show ?thesis using P2 F2 by simp
                next
                  case c4: (Cons tok4 inp5)
                  show ?thesis
                  proof (cases tok4)
                    case v4: (Val v)
                    then show ?thesis using P2 F2 c4 by simp
                  next
                    case s4: (Sym c'')
                    show ?thesis
                    proof (cases "c'' = CHR '')''")
                      case False
                      then show ?thesis using P2 F2 c4 s4 by simp
                    next
                      case True
                      have r1: "srepr h4 p1 l" using srepr_extends[OF 1(3) 2(4)] .
                      from BinTreeSmart_node_ok[OF 2(2) r1 2(3), of e] obtain p h5 where
                        3: "BinTreeSmart_node p1 e p2 h4 = (p, h5)" "sinv h5" "sextends h4 h5"
                          "srepr h5 p (Fork l e r)" by blast
                      have f: "Smart_fromInOrderInput inp h = Some (p, inp5, h5)"
                        using F2 c4 s4 True 3(1) by simp
                      have pp: "parse_in inp = Some (Fork l e r, inp5)"
                        using P2 c4 s4 True by simp
                      have k: "sextends h h5"
                        using sextends_trans[OF 1(4) sextends_trans[OF 2(4) 3(3)]] .
                      have "length inp5 < length inp" using 1(5) 2(5) Cons c2 c4 by simp
                      then show ?thesis using f pp 3(2,4) k by simp
                    qed
                  qed
                qed
              qed
            qed
          qed
        qed
      qed
    qed
  qed
qed

definition ssim :: "('a obs \<times> ptr list \<times> 'a sheap) option \<Rightarrow> ('a obs \<times> 'a tree list) option \<Rightarrow> bool" where
  "ssim a b =
     (case b of
        None \<Rightarrow> a = None
      | Some (ob, ts') \<Rightarrow> (\<exists>vs' h'. a = Some (ob, vs', h') \<and> smodels h' vs' ts'))"

lemma srepr_list_extends:
  "list_all2 (srepr h) vs ts \<Longrightarrow> sextends h h' \<Longrightarrow> list_all2 (srepr h') vs ts"
  using list_all2_mono[of "srepr h" vs ts "srepr h'"] srepr_extends[of h _ _ h'] by blast

lemma smodels_length: "smodels h vs ts \<Longrightarrow> length vs = length ts"
  using list_all2_lengthD[of "srepr h" vs ts] by (simp add: smodels_def)

lemma smodels_nth: "smodels h vs ts \<Longrightarrow> i < length vs \<Longrightarrow> srepr h (vs ! i) (ts ! i)"
  using list_all2_nthD[of "srepr h" vs ts i] by (simp add: smodels_def)

lemma smodels_push:
  "smodels h vs ts \<Longrightarrow> sinv h' \<Longrightarrow> sextends h h' \<Longrightarrow> srepr h' p t \<Longrightarrow>
   smodels h' (vs @ [p]) (ts @ [t])"
  using srepr_list_extends[of h vs ts h'] by (simp add: smodels_def list_all2_appendI)

lemma ssim_NewEmpty: "smodels h vs ts \<Longrightarrow> ssim (Smart_step NewEmpty vs h) (tree_step NewEmpty ts)"
  using smodels_push[of h vs ts h None Tip]
  by (simp add: ssim_def smodels_def BinTreeSmart_empty_def sextends_refl srepr.srepr_None)

lemma ssim_NewLeaf:
  assumes m: "smodels h vs ts"
  shows "ssim (Smart_step (NewLeaf x) vs h) (tree_step (NewLeaf x) ts)"
proof -
  have "sinv h" using m by (simp add: smodels_def)
  from BinTreeSmart_node_ok[OF this srepr.srepr_None srepr.srepr_None, of x] obtain p h' where
    n: "BinTreeSmart_node None x None h = (p, h')" "sinv h'" "sextends h h'"
      "srepr h' p (Fork Tip x Tip)" by blast
  from smodels_push[OF m n(2,3,4)] show ?thesis
    using n(1) by (simp add: ssim_def BinTreeSmart_leaf_def BinTreeSmart_node_def)
qed

lemma ssim_NewNode:
  assumes m: "smodels h vs ts"
  shows "ssim (Smart_step (NewNode i x j) vs h) (tree_step (NewNode i x j) ts)"
proof (cases "i < length vs \<and> j < length vs")
  case False
  then show ?thesis using smodels_length[OF m] by (auto simp: ssim_def)
next
  case True
  have "sinv h" using m by (simp add: smodels_def)
  from BinTreeSmart_node_ok[OF this smodels_nth[OF m] smodels_nth[OF m], of i j x] True obtain p h' where
    n: "BinTreeSmart_node (vs ! i) x (vs ! j) h = (p, h')" "sinv h'" "sextends h h'"
      "srepr h' p (Fork (ts ! i) x (ts ! j))" by blast
  from smodels_push[OF m n(2,3,4)] show ?thesis
    using n(1) True smodels_length[OF m] by (simp add: ssim_def)
qed

lemma ssim_Copy:
  assumes m: "smodels h vs ts"
  shows "ssim (Smart_step (Copy i) vs h) (tree_step (Copy i) ts)"
proof (cases "i < length vs")
  case False
  then show ?thesis using smodels_length[OF m] by (simp add: ssim_def)
next
  case True
  have "sinv h" using m by (simp add: smodels_def)
  from smodels_push[OF m this sextends_refl smodels_nth[OF m True]] show ?thesis
    using True smodels_length[OF m] by (simp add: ssim_def)
qed

lemma ssim_Assign:
  assumes m: "smodels h vs ts"
  shows "ssim (Smart_step (Assign i j) vs h) (tree_step (Assign i j) ts)"
proof (cases "i < length vs \<and> j < length vs")
  case False
  then show ?thesis using smodels_length[OF m] by (auto simp: ssim_def)
next
  case True
  have "list_all2 (srepr h) (vs[i := vs ! j]) (ts[i := ts ! j])"
    using m smodels_nth[OF m, of j] True by (simp add: smodels_def list_all2_update_cong)
  then have "smodels h (vs[i := vs ! j]) (ts[i := ts ! j])" using m by (simp add: smodels_def)
  then show ?thesis using True smodels_length[OF m] by (simp add: ssim_def)
qed

lemma ssim_Drop:
  assumes m: "smodels h vs ts"
  shows "ssim (Smart_step (Drop i) vs h) (tree_step (Drop i) ts)"
proof (cases "i < length vs")
  case False
  then show ?thesis using smodels_length[OF m] by (simp add: ssim_def)
next
  case True
  have "list_all2 (srepr h) (remove_at i vs) (remove_at i ts)"
    using m unfolding smodels_def remove_at_def
    by (intro list_all2_appendI list_all2_takeI list_all2_dropI) simp_all
  then have "smodels h (remove_at i vs) (remove_at i ts)" using m by (simp add: smodels_def)
  then show ?thesis using True smodels_length[OF m] by (simp add: ssim_def)
qed

lemma ssim_GetLeft:
  assumes m: "smodels h vs ts"
  shows "ssim (Smart_step (GetLeft i) vs h) (tree_step (GetLeft i) ts)"
proof (cases "i < length vs")
  case False
  then show ?thesis using smodels_length[OF m] by (simp add: ssim_def)
next
  case True
  note lr = Smart_left_repr[OF smodels_nth[OF m True]]
  have s: "sinv h" using m by (simp add: smodels_def)
  show ?thesis
  proof (cases "ts ! i")
    case Tip
    then show ?thesis using lr True smodels_length[OF m] m by (simp add: ssim_def)
  next
    case (Fork l x r)
    with lr obtain q where q: "Smart_left h (vs ! i) = Some (Inr q)" "srepr h q l" by auto
    from smodels_push[OF m s sextends_refl q(2)]
    show ?thesis using q(1) Fork True smodels_length[OF m] by (simp add: ssim_def)
  qed
qed

lemma ssim_GetRight:
  assumes m: "smodels h vs ts"
  shows "ssim (Smart_step (GetRight i) vs h) (tree_step (GetRight i) ts)"
proof (cases "i < length vs")
  case False
  then show ?thesis using smodels_length[OF m] by (simp add: ssim_def)
next
  case True
  note lr = Smart_right_repr[OF smodels_nth[OF m True]]
  have s: "sinv h" using m by (simp add: smodels_def)
  show ?thesis
  proof (cases "ts ! i")
    case Tip
    then show ?thesis using lr True smodels_length[OF m] m by (simp add: ssim_def)
  next
    case (Fork l x r)
    with lr obtain q where q: "Smart_right h (vs ! i) = Some (Inr q)" "srepr h q r" by auto
    from smodels_push[OF m s sextends_refl q(2)]
    show ?thesis using q(1) Fork True smodels_length[OF m] by (simp add: ssim_def)
  qed
qed

lemma ssim_FromPreOrderInput:
  assumes m: "smodels h vs ts"
  shows "ssim (Smart_step (FromPreOrderInput e inp) vs h) (tree_step (FromPreOrderInput e inp) ts)"
proof -
  have s: "sinv h" using m by (simp add: smodels_def)
  show ?thesis
  proof (cases "parse_pre e inp")
    case None
    then show ?thesis using Smart_fromPreOrderInput_refines[OF s, of e inp] by (simp add: ssim_def)
  next
    case (Some a)
    obtain t rest where a: "a = (t, rest)" by (cases a)
    from Smart_fromPreOrderInput_refines[OF s, of e inp] Some a obtain p h' where
      b: "Smart_fromPreOrderInput e inp h = Some (p, rest, h')" "sinv h'" "srepr h' p t"
        "sextends h h'" by auto
    from smodels_push[OF m b(2,4,3)] show ?thesis using Some a b(1) by (simp add: ssim_def)
  qed
qed

lemma ssim_FromInOrderInput:
  assumes m: "smodels h vs ts"
  shows "ssim (Smart_step (FromInOrderInput inp) vs h) (tree_step (FromInOrderInput inp) ts)"
proof -
  have s: "sinv h" using m by (simp add: smodels_def)
  show ?thesis
  proof (cases "parse_in inp")
    case None
    then show ?thesis using Smart_fromInOrderInput_refines[OF s, of inp] by (simp add: ssim_def)
  next
    case (Some a)
    obtain t rest where a: "a = (t, rest)" by (cases a)
    from Smart_fromInOrderInput_refines[OF s, of inp] Some a obtain p h' where
      b: "Smart_fromInOrderInput inp h = Some (p, rest, h')" "sinv h'" "srepr h' p t"
        "sextends h h'" by auto
    from smodels_push[OF m b(2,4,3)] show ?thesis using Some a b(1) by (simp add: ssim_def)
  qed
qed

lemma ssim_observers:
  assumes m: "smodels h vs ts"
  shows "ssim (Smart_step (GetElem i) vs h) (tree_step (GetElem i) ts)"
    and "ssim (Smart_step (IsEmpty i) vs h) (tree_step (IsEmpty i) ts)"
    and "ssim (Smart_step (PreOrder i) vs h) (tree_step (PreOrder i) ts)"
    and "ssim (Smart_step (InOrder i) vs h) (tree_step (InOrder i) ts)"
    and "ssim (Smart_step (PostOrder i) vs h) (tree_step (PostOrder i) ts)"
    and "ssim (Smart_step (Levels i) vs h) (tree_step (Levels i) ts)"
    and "ssim (Smart_step (NodeCount i) vs h) (tree_step (NodeCount i) ts)"
    and "ssim (Smart_step (Depth i) vs h) (tree_step (Depth i) ts)"
    and "ssim (Smart_step (LeafCount i) vs h) (tree_step (LeafCount i) ts)"
    and "ssim (Smart_step (Equal i j) vs h) (tree_step (Equal i j) ts)"
    and "ssim (Smart_step (NotEqual i j) vs h) (tree_step (NotEqual i j) ts)"
proof -
  note len = smodels_length[OF m]
  have r: "srepr h (vs ! n) (ts ! n)" if "n < length ts" for n using smodels_nth[OF m] that len by simp
  show "ssim (Smart_step (GetElem i) vs h) (tree_step (GetElem i) ts)"
    using len m Smart_elem_repr[OF r[of i]] by (cases "ts ! i") (simp_all add: ssim_def)
  show "ssim (Smart_step (IsEmpty i) vs h) (tree_step (IsEmpty i) ts)"
    using len m srepr_Tip_iff[OF r[of i]] by (simp add: ssim_def Smart_empty_def)
  show "ssim (Smart_step (PreOrder i) vs h) (tree_step (PreOrder i) ts)"
    using len m Smart_preOrderAux_repr[OF r[of i], of "[]"] by (simp add: ssim_def Smart_preOrder_def)
  show "ssim (Smart_step (InOrder i) vs h) (tree_step (InOrder i) ts)"
    using len m Smart_inOrderAux_repr[OF r[of i], of "[]"] by (simp add: ssim_def Smart_inOrder_def)
  show "ssim (Smart_step (PostOrder i) vs h) (tree_step (PostOrder i) ts)"
    using len m Smart_postOrderAux_repr[OF r[of i], of "[]"] by (simp add: ssim_def Smart_postOrder_def)
  show "ssim (Smart_step (Levels i) vs h) (tree_step (Levels i) ts)"
    using len m Smart_levels_repr[OF r[of i]] by (simp add: ssim_def)
  show "ssim (Smart_step (NodeCount i) vs h) (tree_step (NodeCount i) ts)"
    using len m Smart_nodeCountAux_repr[OF r[of i]] by (simp add: ssim_def Smart_nodeCount_def)
  show "ssim (Smart_step (Depth i) vs h) (tree_step (Depth i) ts)"
    using len m Smart_depthAux_repr[OF r[of i]] by (simp add: ssim_def Smart_depth_def)
  show "ssim (Smart_step (LeafCount i) vs h) (tree_step (LeafCount i) ts)"
    using len m Smart_leafCountAux_repr[OF r[of i]] by (simp add: ssim_def Smart_leafCount_def)
  show "ssim (Smart_step (Equal i j) vs h) (tree_step (Equal i j) ts)"
    using len m Smart_compareAux_repr[OF r[of i] r[of j]] by (simp add: ssim_def Smart_equal_def)
  show "ssim (Smart_step (NotEqual i j) vs h) (tree_step (NotEqual i j) ts)"
    using len m Smart_compareAux_repr[OF r[of i] r[of j]]
    by (simp add: ssim_def Smart_not_equal_def Smart_equal_def)
qed

lemma Smart_step_sim:
  "smodels h vs ts \<Longrightarrow> ssim (Smart_step c vs h) (tree_step c ts)"
  by (cases c)
     (simp_all only: ssim_NewEmpty ssim_NewLeaf ssim_NewNode ssim_Copy ssim_Assign ssim_Drop
        ssim_GetLeft ssim_GetRight ssim_FromPreOrderInput ssim_FromInOrderInput ssim_observers)

lemma Smart_steps_sim:
  "smodels h vs ts \<Longrightarrow> Smart_steps cs vs h = tree_steps cs ts"
proof (induction cs arbitrary: h vs ts)
  case Nil
  show ?case by simp
next
  case (Cons c cs)
  note s = Smart_step_sim[OF Cons.prems, of c]
  show ?case
  proof (cases "tree_step c ts")
    case None
    then show ?thesis using s by (simp add: ssim_def)
  next
    case (Some a)
    obtain ob ts' where a: "a = (ob, ts')" by (cases a)
    from s Some a obtain vs' h' where "Smart_step c vs h = Some (ob, vs', h')" "smodels h' vs' ts'"
      by (auto simp: ssim_def)
    then show ?thesis using Some a Cons.IH by simp
  qed
qed

lemma smodels_empty: "smodels empty_sheap [] []"
  by (simp add: smodels_def sinv_def empty_sheap_def)

lemma Smart_run_tree: "Smart_run cs = tree_steps cs []"
  unfolding Smart_run_def by (rule Smart_steps_sim[OF smodels_empty])

subsection \<open>The two classes agree\<close>

text \<open>
  C4. Every program over the public operations (the constructors, copy, assignment and
  the end of a variable, \<^verbatim>\<open>elem\<close>, \<^verbatim>\<open>left\<close>, \<^verbatim>\<open>right\<close>, \<^verbatim>\<open>empty\<close>, the four traversals,
  \<^verbatim>\<open>nodeCount\<close>, \<^verbatim>\<open>depth\<close>, \<^verbatim>\<open>leafCount\<close>, \<^verbatim>\<open>==\<close>, \<^verbatim>\<open>!=\<close> and the two input builders),
  started with no variables and an empty heap, gives the same observations with
  \<^verbatim>\<open>BinTreeSmart\<close> as with \<^verbatim>\<open>BinTree\<close>: the same values, the same exceptions, the same
  input left, and the same statement, if any, at which the run ends without returning.
\<close>

theorem BinTreeSmart_equivalent: "Smart_run cs = BinTree_run cs"
  by (simp add: Smart_run_tree BinTree_run_tree)

text \<open>A program that shares a subtree, ends the tree it came from, and goes on observing.\<close>

definition ex_program :: "int cmd list" where
  "ex_program =
     [FromPreOrderInput 0 [1, 2, 0, 0, 3, 0, 0],
      GetLeft 0,
      Drop 0,
      GetElem 0,
      GetLeft 0,
      GetElem 1,
      FromInOrderInput [Sym CHR ''('', Sym CHR ''.'', Val 2, Sym CHR ''.'', Sym CHR '')''],
      Equal 0 2,
      NewNode 0 7 2,
      Levels 3,
      Depth 3]"

lemma ex_program_tree:
  "tree_steps ex_program [] =
     [Rest [], Done, Done, GotElem 2, Done, Threw EmptyTreeException, RestTokens [], GotBool True,
      Done, GotList [7, 2, 2], GotCount 2]"
  by (simp add: ex_program_def parse_pre.simps parse_in.simps remove_at_def levels_of_def kids_def)

theorem BinTreeSmart_equivalent_witness:
  "Smart_run ex_program =
     [Rest [], Done, Done, GotElem 2, Done, Threw EmptyTreeException, RestTokens [], GotBool True,
      Done, GotList [7, 2, 2], GotCount 2]
   \<and> BinTree_run ex_program = Smart_run ex_program"
  using BinTreeSmart_equivalent[of ex_program] ex_program_tree by (simp add: Smart_run_tree)

end
